(* ===== verification/MCloud_Prelude.thy ===== *)
theory MCloud_Prelude
  imports Main "HOL-Library.Word" "HOL-Library.List_Lexorder" "HOL-Library.Char_ord"
begin

text \<open>
  Shared vocabulary of the development: the machine integers of the Rust sources, the outcome
  of a fallible Rust call (a value, an error returned through \<open>Result\<close>, or a panic), the
  state-passing embedding of Rust methods built on it, and the generic lemmas that the
  component theories use. The locale \<open>io_preorder\<close> is the interface through which invariants,
  frame conditions and growth of the I/O log are propagated along sequenced calls.
\<close>

section \<open>Machine integers and bytes\<close>

type_synonym u8 = "8 word"
type_synonym u16 = "16 word"
type_synonym u32 = "32 word"
type_synonym bytes = "u8 list"

text \<open>
  Unsigned \<open>+\<close> and \<open>-\<close> of Rust: with overflow checks (a debug build) an overflow panics, without
  them (a release build) the result wraps around. \<open>None\<close> is the panic.
\<close>

definition checked_sub :: "bool \<Rightarrow> 'a::len word \<Rightarrow> 'a word \<Rightarrow> 'a word option" where
  "checked_sub overflow_checks a b = (if overflow_checks \<and> a < b then None else Some (a - b))"

definition checked_plus :: "bool \<Rightarrow> 'a::len word \<Rightarrow> 'a word \<Rightarrow> 'a word option" where
  "checked_plus overflow_checks a b =
     (if overflow_checks \<and> 2 ^ LENGTH('a) \<le> unat a + unat b then None else Some (a + b))"

lemma checked_sub_one_pos: "0 < a \<Longrightarrow> checked_sub oc (a :: 'a::len word) 1 = Some (a - 1)"
  by (auto simp: checked_sub_def word_less_1)

lemma unat_minus_one_pos: "0 < a \<Longrightarrow> unat (a - 1 :: 'a::len word) = unat a - 1"
  by (simp add: unat_minus_one word_gt_0)

text \<open>Decimal rendering, as \<open>format!\<close> writes a number.\<close>

fun show_nat :: "nat \<Rightarrow> string" where
  "show_nat n = (if n < 10 then [char_of (48 + n)] else show_nat (n div 10) @ [char_of (48 + n mod 10)])"

declare show_nat.simps [simp del]

section \<open>Outcomes and state-passing methods\<close>

datatype panic =
    UnwrapNone
  | UnwrapErr string
  | ExpectFailed string
  | ArithmeticOverflow
  | IndexOutOfBounds

datatype ('e, 'a) outcome = Ok 'a | Err 'e | Panic panic

text \<open>
  A method with \<open>&mut self\<close> is a function from the state to its outcome and the state it leaves
  behind. The state of an \<open>Err\<close> or a \<open>Panic\<close> outcome holds what the call did before it stopped.
\<close>

type_synonym ('s, 'e, 'a) io = "'s \<Rightarrow> ('e, 'a) outcome \<times> 's"

definition ret_io :: "'a \<Rightarrow> ('s, 'e, 'a) io" where
  "ret_io x s = (Ok x, s)"

definition err_io :: "'e \<Rightarrow> ('s, 'e, 'a) io" where
  "err_io e s = (Err e, s)"

definition panic_io :: "panic \<Rightarrow> ('s, 'e, 'a) io" where
  "panic_io p s = (Panic p, s)"

definition get_io :: "('s \<Rightarrow> 'a) \<Rightarrow> ('s, 'e, 'a) io" where
  "get_io f s = (Ok (f s), s)"

definition modify_io :: "('s \<Rightarrow> 's) \<Rightarrow> ('s, 'e, unit) io" where
  "modify_io f s = (Ok (), f s)"

text \<open>Sequencing; the \<open>?\<close> operator and unwinding both leave at the first \<open>Err\<close> or \<open>Panic\<close>.\<close>

definition bind_io :: "('s, 'e, 'a) io \<Rightarrow> ('a \<Rightarrow> ('s, 'e, 'b) io) \<Rightarrow> ('s, 'e, 'b) io" where
  "bind_io m f s =
     (case m s of
        (Ok x, s') \<Rightarrow> f x s'
      | (Err e, s') \<Rightarrow> (Err e, s')
      | (Panic p, s') \<Rightarrow> (Panic p, s'))"

definition then_io :: "('s, 'e, 'a) io \<Rightarrow> ('s, 'e, 'b) io \<Rightarrow> ('s, 'e, 'b) io" where
  "then_io m k = bind_io m (\<lambda>_. k)"

text \<open>A \<open>match\<close> on a \<open>Result\<close>: the continuation sees the error as a value, a panic unwinds.\<close>

definition match_io :: "('s, 'e, 'a) io \<Rightarrow> ('e + 'a \<Rightarrow> ('s, 'e2, 'b) io) \<Rightarrow> ('s, 'e2, 'b) io" where
  "match_io m f s =
     (case m s of
        (Ok x, s') \<Rightarrow> f (Inr x) s'
      | (Err e, s') \<Rightarrow> f (Inl e) s'
      | (Panic p, s') \<Rightarrow> (Panic p, s'))"

text \<open>A \<open>for\<close> loop whose body may leave with \<open>?\<close>.\<close>

fun for_io :: "('a \<Rightarrow> ('s, 'e, unit) io) \<Rightarrow> 'a list \<Rightarrow> ('s, 'e, unit) io" where
  "for_io f [] = ret_io ()"
| "for_io f (x # xs) = then_io (f x) (for_io f xs)"

text \<open>A method of a component that is one part of a larger state.\<close>

definition zoom_io :: "('s \<Rightarrow> 't) \<Rightarrow> ('t \<Rightarrow> 's \<Rightarrow> 's) \<Rightarrow> ('t, 'e, 'a) io \<Rightarrow> ('s, 'e, 'a) io" where
  "zoom_io get put m s = (case m (get s) of (r, t) \<Rightarrow> (r, put t s))"

lemmas io_defs = ret_io_def err_io_def panic_io_def get_io_def modify_io_def bind_io_def
  then_io_def match_io_def zoom_io_def

lemma ret_io_apply [simp]: "ret_io x s = (Ok x, s)"
  and err_io_apply [simp]: "err_io e s = (Err e, s)"
  and panic_io_apply [simp]: "panic_io p s = (Panic p, s)"
  and get_io_apply [simp]: "get_io f s = (Ok (f s), s)"
  and modify_io_apply [simp]: "modify_io g s = (Ok (), g s)"
  by (simp_all add: io_defs)

lemma bind_io_simps [simp]:
  "m s = (Ok x, s') \<Longrightarrow> bind_io m f s = f x s'"
  "m s = (Err e, s') \<Longrightarrow> bind_io m f s = (Err e, s')"
  "m s = (Panic p, s') \<Longrightarrow> bind_io m f s = (Panic p, s')"
  by (simp_all add: bind_io_def)

lemma then_io_simps [simp]:
  "m s = (Ok x, s') \<Longrightarrow> then_io m k s = k s'"
  "m s = (Err e, s') \<Longrightarrow> then_io m k s = (Err e, s')"
  "m s = (Panic p, s') \<Longrightarrow> then_io m k s = (Panic p, s')"
  by (simp_all add: then_io_def)

lemma match_io_simps [simp]:
  "m s = (Ok x, s') \<Longrightarrow> match_io m f s = f (Inr x) s'"
  "m s = (Err e, s') \<Longrightarrow> match_io m f s = f (Inl e) s'"
  "m s = (Panic p, s') \<Longrightarrow> match_io m f s = (Panic p, s')"
  by (simp_all add: match_io_def)

lemma then_io_ret [simp]:
  "then_io m (ret_io ()) = m" "then_io (ret_io x) k = k" "then_io (err_io e) k = err_io e"
  "then_io (panic_io p) k = panic_io p"
  by (simp_all add: then_io_def bind_io_def fun_eq_iff split: prod.splits outcome.splits)

lemma then_io_assoc: "then_io (then_io a b) c = then_io a (then_io b c)"
  by (simp add: then_io_def bind_io_def fun_eq_iff split: prod.splits outcome.splits)

lemma for_io_append: "for_io f (xs @ ys) = then_io (for_io f xs) (for_io f ys)"
  by (induction xs) (simp_all add: then_io_assoc)

lemma zoom_io_eq: "m (get s) = (r, t) \<Longrightarrow> zoom_io get put m s = (r, put t s)"
  by (simp add: zoom_io_def)

section \<open>Propagating a relation between the states before and after\<close>

text \<open>
  \<open>tracks R m\<close>: whatever its outcome, the method \<open>m\<close> leads from a state to an \<open>R\<close>-related one.
  Every preorder is kept by sequencing, matching and looping.
\<close>

definition tracks :: "('s \<Rightarrow> 's \<Rightarrow> bool) \<Rightarrow> ('s, 'e, 'a) io \<Rightarrow> bool" where
  "tracks R m \<longleftrightarrow> (\<forall>s. R s (snd (m s)))"

lemma tracksI: "(\<And>s. R s (snd (m s))) \<Longrightarrow> tracks R m"
  by (simp add: tracks_def)

lemma tracksD: "tracks R m \<Longrightarrow> m s = (r, s') \<Longrightarrow> R s s'"
  by (metis snd_conv tracks_def)

locale io_preorder =
  fixes R :: "'s \<Rightarrow> 's \<Rightarrow> bool"
  assumes refl: "R s s"
    and trans: "R s t \<Longrightarrow> R t u \<Longrightarrow> R s u"
begin

lemma ret: "tracks R (ret_io x)"
  and err: "tracks R (err_io e)"
  and panic: "tracks R (panic_io p)"
  and get: "tracks R (get_io f)"
  by (simp_all add: tracks_def refl)

lemma modify: "(\<And>s. R s (f s)) \<Longrightarrow> tracks R (modify_io f)"
  by (simp add: tracks_def)

lemma bind:
  assumes "tracks R m" and "\<And>x. tracks R (f x)"
  shows "tracks R (bind_io m f)"
proof (rule tracksI)
  fix s
  obtain r s' where m: "m s = (r, s')" by (cases "m s")
  with assms(1) have step: "R s s'" by (rule tracksD)
  show "R s (snd (bind_io m f s))"
  proof (cases r)
    case (Ok x)
    have "R s' (snd (f x s'))" using assms(2) by (simp add: tracks_def)
    with step m Ok show ?thesis by (simp add: trans)
  qed (use m step in simp_all)
qed

lemma seq: "tracks R m \<Longrightarrow> tracks R k \<Longrightarrow> tracks R (then_io m k)"
  by (simp add: then_io_def bind)

lemma mtch:
  assumes "tracks R m" and "\<And>x. tracks R (f x)"
  shows "tracks R (match_io m f)"
proof (rule tracksI)
  fix s
  obtain r s' where m: "m s = (r, s')" by (cases "m s")
  with assms(1) have step: "R s s'" by (rule tracksD)
  have f: "R s' (snd (f x s'))" for x using assms(2) by (simp add: tracks_def)
  show "R s (snd (match_io m f s))"
    by (cases r) (use m step f trans in auto)
qed

lemma loop: "(\<And>x. tracks R (f x)) \<Longrightarrow> tracks R (for_io f xs)"
  by (induction xs) (auto intro: ret seq)

lemmas rules = ret err panic get bind seq mtch loop

end

text \<open>An invariant of the state and a component that a method leaves alone are both preorders.\<close>

interpretation keep_inv: io_preorder "\<lambda>s s'. I s \<longrightarrow> I s'" for I :: "'s \<Rightarrow> bool"
  by unfold_locales auto

interpretation frame: io_preorder "\<lambda>s s'. f s' = f s" for f :: "'s \<Rightarrow> 'x"
  by unfold_locales auto

section \<open>Lists\<close>

lemma find_append_None: "find P xs = None \<Longrightarrow> find P (xs @ ys) = find P ys"
  by (induction xs) auto

lemma drop_eq_ConsD:
  assumes "drop n xs = y # ys"
  shows "n < length xs \<and> xs ! n = y \<and> drop (Suc n) xs = ys"
proof -
  have n: "n < length xs" using assms by (metis drop_all linorder_not_le list.distinct(1))
  then have "xs ! n # drop (Suc n) xs = y # ys" using assms by (simp add: Cons_nth_drop_Suc)
  with n show ?thesis by simp
qed

end
