(* ===== verification/Packets.thy ===== *)
theory Packets
  imports MCloud_Prelude
begin

text \<open>
  The MQTT packets that the broker reads and builds (\<open>src/src/tcp_handling.rs\<close>,
  \<open>src/src/topics.rs\<close>, \<open>src/examples/package_generator.rs\<close>). The packet types belong to the crate
  \<open>mqtt_v5_fork\<close>; a record here has the fields that the sources of the broker read or write, and
  an enumeration the constructors they name, with one further constructor for those they treat
  alike. The type of a client's will is left as the type variable \<open>'will\<close>: the broker only stores
  it and hands it to the crate's conversion into a publish packet. Encoding, decoding and that
  conversion are fields of the record \<open>mqtt_lib\<close>, an argument of the definitions that use them.
\<close>

section \<open>Field types\<close>

datatype qos = AtMostOnce | AtLeastOnce | ExactlyOnce

text \<open>The cast \<open>qos as u8\<close>.\<close>

fun qos_as_u8 :: "qos \<Rightarrow> u8" where
  "qos_as_u8 AtMostOnce = 0"
| "qos_as_u8 AtLeastOnce = 1"
| "qos_as_u8 ExactlyOnce = 2"

datatype protocol_version = V500 | OtherVersion u8

text \<open>A parsed topic; the broker reads only its name.\<close>

datatype topic = Topic (topic_name: string)

type_synonym message_expiry_interval = u32
type_synonym assigned_client_identifier = string
type_synonym user_property = "string \<times> string"

datatype connect_reason = ConnectSuccess | OtherConnectReason u8
datatype publish_ack_reason = PublishSuccess | UnspecifiedError | OtherPublishAckReason u8
datatype subscribe_ack_reason =
    GrantedQoSZero
  | WildcardSubscriptionsNotSupported
  | SharedSubscriptionsNotSupported
  | OtherSubscribeAckReason u8
datatype unsubscribe_ack_reason =
    UnsubscribeSuccess
  | NoSubscriptionExisted
  | ImplementationSpecificError
  | OtherUnsubscribeAckReason u8
datatype disconnect_reason = DisconnectWithWillMessage | OtherDisconnectReason u8

text \<open>The four shapes of a topic filter; the fields of the shared ones are never read.\<close>

datatype topic_filter =
    Concrete string u32
  | Wildcard string u32
  | SharedConcrete string
  | SharedWildcard string

section \<open>Packets\<close>

record publish_packet =
  p_is_duplicate :: bool
  p_qos :: qos
  p_retain :: bool
  p_topic :: topic
  p_packet_id :: "u16 option"
  p_payload_format_indicator :: "u8 option"
  p_message_expiry_interval :: "message_expiry_interval option"
  p_topic_alias :: "u16 option"
  p_response_topic :: "string option"
  p_correlation_data :: "bytes option"
  p_user_properties :: "user_property list"
  p_subscription_identifiers :: "u32 list"
  p_content_type :: "string option"
  p_payload :: bytes

record publish_ack_packet =
  pa_packet_id :: u16
  pa_reason_code :: publish_ack_reason
  pa_reason_string :: "string option"
  pa_user_properties :: "user_property list"

record 'will connect_packet =
  c_client_id :: string
  c_protocol_version :: protocol_version
  c_will :: "'will option"

record connect_ack_packet =
  ca_session_present :: bool
  ca_reason_code :: connect_reason
  ca_session_expiry_interval :: "u32 option"
  ca_receive_maximum :: "u16 option"
  ca_maximum_qos :: "qos option"
  ca_retain_available :: "bool option"
  ca_maximum_packet_size :: "u32 option"
  ca_assigned_client_identifier :: "assigned_client_identifier option"
  ca_topic_alias_maximum :: "u16 option"
  ca_reason_string :: "string option"
  ca_user_properties :: "user_property list"
  ca_wildcard_subscription_available :: "bool option"
  ca_subscription_identifiers_available :: "bool option"
  ca_shared_subscription_available :: "bool option"
  ca_server_keep_alive :: "u16 option"
  ca_response_information :: "string option"
  ca_server_reference :: "string option"
  ca_authentication_method :: "string option"
  ca_authentication_data :: "bytes option"

record subscription_topic =
  st_topic_filter :: topic_filter

record subscribe_packet =
  s_packet_id :: u16
  s_subscription_topics :: "subscription_topic list"

record subscribe_ack_packet =
  sa_packet_id :: u16
  sa_reason_string :: "string option"
  sa_user_properties :: "user_property list"
  sa_reason_codes :: "subscribe_ack_reason list"

record unsubscribe_packet =
  u_packet_id :: u16
  u_topic_filters :: "topic_filter list"

record unsubscribe_ack_packet =
  ua_packet_id :: u16
  ua_reason_codes :: "unsubscribe_ack_reason list"
  ua_user_properties :: "user_property list"
  ua_reason_string :: "string option"

record disconnect_packet =
  d_reason_code :: disconnect_reason

datatype (discs_sels) 'will packet =
    Connect "'will connect_packet"
  | ConnectAck connect_ack_packet
  | PublishP publish_packet
  | PublishAck publish_ack_packet
  | Subscribe subscribe_packet
  | SubscribeAck subscribe_ack_packet
  | Unsubscribe unsubscribe_packet
  | UnsubscribeAck unsubscribe_ack_packet
  | PingRequest
  | PingResponse
  | Disconnect disconnect_packet
  | OtherPacket u8

section \<open>The packet library\<close>

text \<open>
  \<open>decode_mqtt\<close> yields an error, no packet yet (the buffer holds only a part of one), or the packet
  at the front of the buffer. \<open>build_publish\<close> is the chain \<open>PublishPacketBuilder::new(topic, payload)\<close>,
  \<open>with_retain(b)\<close> where the caller has that call, \<open>build()\<close>. An error of the crate is known by the
  text it renders as.
\<close>

record 'will mqtt_lib =
  encode_mqtt :: "'will packet \<Rightarrow> protocol_version \<Rightarrow> bytes"
  decode_mqtt :: "bytes \<Rightarrow> protocol_version \<Rightarrow> string + 'will packet option"
  publish_from_will :: "'will \<Rightarrow> publish_packet"
  build_publish :: "string \<Rightarrow> bytes \<Rightarrow> bool option \<Rightarrow> string + publish_packet"

text \<open>
  What the broker relies on of the builder: a built publish packet carries the topic and the payload
  the builder was given, retains only on demand and asks for no acknowledgement.
\<close>

locale publish_builder =
  fixes build :: "string \<Rightarrow> bytes \<Rightarrow> bool option \<Rightarrow> string + publish_packet"
  assumes build_topic: "build t b r = Inr p \<Longrightarrow> p_topic p = Topic t"
    and build_payload: "build t b r = Inr p \<Longrightarrow> p_payload p = b"
    and build_retain: "build t b r = Inr p \<Longrightarrow> p_retain p = (r = Some True)"
    and build_qos: "build t b r = Inr p \<Longrightarrow> p_qos p = AtMostOnce"

text \<open>
  A builder with these properties: it refuses an empty topic name and one with a wildcard
  character, and leaves every optional field of the packet empty.
\<close>

definition plain_publish :: "string \<Rightarrow> bytes \<Rightarrow> bool \<Rightarrow> publish_packet" where
  "plain_publish t b r = \<lparr>p_is_duplicate = False, p_qos = AtMostOnce, p_retain = r, p_topic = Topic t,
     p_packet_id = None, p_payload_format_indicator = None, p_message_expiry_interval = None,
     p_topic_alias = None, p_response_topic = None, p_correlation_data = None,
     p_user_properties = [], p_subscription_identifiers = [], p_content_type = None, p_payload = b\<rparr>"

lemma plain_publish_sel [simp]:
  "p_topic (plain_publish t b r) = Topic t" "p_payload (plain_publish t b r) = b"
  "p_retain (plain_publish t b r) = r" "p_qos (plain_publish t b r) = AtMostOnce"
  "p_packet_id (plain_publish t b r) = None"
  "p_message_expiry_interval (plain_publish t b r) = None"
  by (simp_all add: plain_publish_def)

definition plain_builder :: "string \<Rightarrow> bytes \<Rightarrow> bool option \<Rightarrow> string + publish_packet" where
  "plain_builder t b r =
     (if t = [] \<or> CHR ''+'' \<in> set t \<or> CHR ''#'' \<in> set t then Inl ''InvalidTopic''
      else Inr (plain_publish t b (r = Some True)))"

interpretation plain: publish_builder plain_builder
  by unfold_locales (auto simp: plain_builder_def plain_publish_def split: if_splits)

end
