(* ===== verification/Errors.thy ===== *)
theory Errors
  imports MCloud_Prelude
begin

text \<open>
  The error type \<open>MCloudError\<close> of \<open>src/src/error.rs\<close>, the texts its \<open>Display\<close> derivation renders,
  and the \<open>From\<close> conversions that the \<open>?\<close> operator applies. An error value of another crate is
  represented by the text it renders as.
\<close>

section \<open>The error type\<close>

datatype io_error_kind = InvalidInput | OtherKind nat

datatype io_error = IoError (ioe_kind: io_error_kind) (ioe_text: string)

datatype 'a send_error = SendError 'a

text \<open>\<open>AnythingReally\<close>, the boxed error; the only one ever boxed is a failed send of a string.\<close>

datatype anything_really = BoxedSendError "string send_error"

datatype mcloud_error =
    TopicAlreadyExists string
  | ClientDisconnected string
  | UnexpectedClientDisconnected string
  | ClientError string
  | UnknownPacketType
  | CouldNotWriteToStream string
  | NoReceiversFound
  | IOError io_error
  | ConfigurationError string
  | DecodePacketError string
  | TracingInitializerError string
  | MpscError "anything_really send_error"
  | RedisError string

type_synonym 'a result = "(mcloud_error, 'a) outcome"

section \<open>Conversions\<close>

text \<open>The instances of \<open>impl_from\<close> and the hand-written one for the channel of strings.\<close>

definition from_io_error :: "io_error \<Rightarrow> mcloud_error" where
  "from_io_error value = IOError value"

definition from_config_error :: "string \<Rightarrow> mcloud_error" where
  "from_config_error value = ConfigurationError value"

definition from_parse_error :: "string \<Rightarrow> mcloud_error" where
  "from_parse_error value = TracingInitializerError value"

definition from_redis_error :: "string \<Rightarrow> mcloud_error" where
  "from_redis_error value = RedisError value"

definition from_send_error :: "string send_error \<Rightarrow> mcloud_error" where
  "from_send_error value = MpscError (SendError (BoxedSendError value))"

lemmas from_error_defs = from_io_error_def from_config_error_def from_parse_error_def
  from_redis_error_def from_send_error_def

section \<open>Display\<close>

definition quoted :: "string \<Rightarrow> string" where
  "quoted x = ''`'' @ x @ ''`''"

text \<open>The text of the channel error is the channel library's; it is the first argument.\<close>

fun display_error :: "(anything_really send_error \<Rightarrow> string) \<Rightarrow> mcloud_error \<Rightarrow> string" where
  "display_error sh (TopicAlreadyExists x) = ''Topic '' @ quoted x @ '' already exists''"
| "display_error sh (ClientDisconnected x) = ''Client '' @ quoted x @ '' disconncted''"
| "display_error sh (UnexpectedClientDisconnected x) =
     ''Client '' @ quoted x @ '' disconncted unexpectedly''"
| "display_error sh (ClientError x) = ''Client error: '' @ quoted x"
| "display_error sh UnknownPacketType = ''Unknown packet type''"
| "display_error sh (CouldNotWriteToStream x) = ''Could not write to stream because of '' @ quoted x"
| "display_error sh NoReceiversFound = ''No receivers found''"
| "display_error sh (IOError e) = ''IO error: '' @ quoted (ioe_text e)"
| "display_error sh (ConfigurationError x) = ''Configuration Error: '' @ quoted x"
| "display_error sh (DecodePacketError x) = ''Decoding Packet Failed: '' @ quoted x"
| "display_error sh (TracingInitializerError x) = ''Tracing initializer Error: '' @ quoted x"
| "display_error sh (MpscError e) = ''Error in mpsc channel: '' @ quoted (sh e)"
| "display_error sh (RedisError x) = ''Error communicating with Redis: '' @ quoted x"

end
