(* ===== verification/BTreeMap.thy ===== *)
theory BTreeMap
  imports MCloud_Prelude
begin

text \<open>
  The ordered map \<open>std::collections::BTreeMap\<close> that the broker keeps its topics and each client
  its receivers in. Its contents are the entries in ascending key order, which is also the order
  in which \<open>iter\<close> visits them. The locale \<open>ordered_map\<close> states what the clients of the map rely
  on, once; it is interpreted on the operations below, and the theories of the topic store and
  of the connection handler use only the facts of that interpretation. Rust orders \<open>String\<close>
  keys by their bytes, which is the lexicographic order on lists of characters used here.
\<close>

section \<open>Entries in key order\<close>

type_synonym ('k, 'v) btree = "('k \<times> 'v) list"

definition bt_new :: "('k, 'v) btree" where
  "bt_new = []"

definition bt_wf :: "('k::linorder, 'v) btree \<Rightarrow> bool" where
  "bt_wf m \<longleftrightarrow> sorted_wrt (<) (map fst m)"

fun bt_get :: "'k \<Rightarrow> ('k, 'v) btree \<Rightarrow> 'v option" where
  "bt_get k [] = None"
| "bt_get k ((k', v) # m) = (if k = k' then Some v else bt_get k m)"

text \<open>The map after \<open>insert\<close>; the method also returns the value that was there before.\<close>

fun bt_put :: "'k::linorder \<Rightarrow> 'v \<Rightarrow> ('k, 'v) btree \<Rightarrow> ('k, 'v) btree" where
  "bt_put k v [] = [(k, v)]"
| "bt_put k v ((k', v') # m) =
     (if k < k' then (k, v) # (k', v') # m
      else if k = k' then (k, v) # m
      else (k', v') # bt_put k v m)"

definition bt_insert :: "'k::linorder \<Rightarrow> 'v \<Rightarrow> ('k, 'v) btree \<Rightarrow> 'v option \<times> ('k, 'v) btree" where
  "bt_insert k v m = (bt_get k m, bt_put k v m)"

fun bt_del :: "'k \<Rightarrow> ('k, 'v) btree \<Rightarrow> ('k, 'v) btree" where
  "bt_del k [] = []"
| "bt_del k ((k', v) # m) = (if k = k' then m else (k', v) # bt_del k m)"

definition bt_remove :: "'k \<Rightarrow> ('k, 'v) btree \<Rightarrow> 'v option \<times> ('k, 'v) btree" where
  "bt_remove k m = (bt_get k m, bt_del k m)"

text \<open>Assignment through \<open>get_mut\<close> of a present key.\<close>

fun bt_update :: "'k \<Rightarrow> ('v \<Rightarrow> 'v) \<Rightarrow> ('k, 'v) btree \<Rightarrow> ('k, 'v) btree" where
  "bt_update k f [] = []"
| "bt_update k f ((k', v) # m) = (if k = k' then (k', f v) # m else (k', v) # bt_update k f m)"

definition bt_keys :: "('k, 'v) btree \<Rightarrow> 'k list" where
  "bt_keys m = map fst m"

definition bt_iter :: "('k, 'v) btree \<Rightarrow> ('k \<times> 'v) list" where
  "bt_iter m = m"

section \<open>The interface\<close>

locale ordered_map =
  fixes wf :: "'m \<Rightarrow> bool"
    and new :: 'm
    and get :: "'k::linorder \<Rightarrow> 'm \<Rightarrow> 'v option"
    and put :: "'k \<Rightarrow> 'v \<Rightarrow> 'm \<Rightarrow> 'm"
    and del :: "'k \<Rightarrow> 'm \<Rightarrow> 'm"
    and upd :: "'k \<Rightarrow> ('v \<Rightarrow> 'v) \<Rightarrow> 'm \<Rightarrow> 'm"
    and iter :: "'m \<Rightarrow> ('k \<times> 'v) list"
  assumes wf_new: "wf new"
    and wf_put: "wf m \<Longrightarrow> wf (put k v m)"
    and wf_del: "wf m \<Longrightarrow> wf (del k m)"
    and wf_upd: "wf m \<Longrightarrow> wf (upd k f m)"
    and get_new: "get k new = None"
    and get_put: "wf m \<Longrightarrow> get k (put k' v m) = (if k = k' then Some v else get k m)"
    and get_del: "wf m \<Longrightarrow> get k (del k' m) = (if k = k' then None else get k m)"
    and get_upd: "get k (upd k' f m) = (if k = k' then map_option f (get k m) else get k m)"
    and iter_ascending: "wf m \<Longrightarrow> sorted_wrt (<) (map fst (iter m))"
    and iter_get: "wf m \<Longrightarrow> (k, v) \<in> set (iter m) \<longleftrightarrow> get k m = Some v"
begin

lemma get_put_same: "wf m \<Longrightarrow> get k (put k v m) = Some v"
  by (simp add: get_put)

lemma get_put_other: "wf m \<Longrightarrow> k \<noteq> k' \<Longrightarrow> get k (put k' v m) = get k m"
  by (simp add: get_put)

lemma keys_iter: "wf m \<Longrightarrow> fst ` set (iter m) = {k. get k m \<noteq> None}"
  by (auto simp: iter_get image_iff) (metis fst_conv iter_get surj_pair)

text \<open>
  Searching the entries in iteration order finds the entry of the least key that qualifies.
\<close>

lemma find_iter_least:
  assumes "wf m" and "find (\<lambda>(k, v). P k v) (iter m) = Some (k, v)"
  shows "get k m = Some v \<and> P k v \<and> (\<forall>k' v'. get k' m = Some v' \<and> P k' v' \<longrightarrow> k \<le> k')"
proof -
  from assms(2) obtain i where i: "i < length (iter m)" "iter m ! i = (k, v)" "P k v"
    and first: "\<And>j. j < i \<Longrightarrow> \<not> (case iter m ! j of (k, v) \<Rightarrow> P k v)"
    by (auto simp: find_Some_iff)
  have "get k m = Some v"
    using assms(1) i by (metis iter_get nth_mem)
  moreover have "k \<le> k'" if get: "get k' m = Some v'" and P: "P k' v'" for k' v'
  proof -
    from get assms(1) obtain j where j: "j < length (iter m)" "iter m ! j = (k', v')"
      by (metis in_set_conv_nth iter_get)
    have "\<not> j < i" using first [of j] P j(2) by auto
    then have "j = i \<or> i < j" by arith
    then show ?thesis
      using sorted_wrt_nth_less [OF iter_ascending [OF assms(1)], of i j] i j by auto
  qed
  ultimately show ?thesis using i(3) by blast
qed

lemma find_iter_None:
  "wf m \<Longrightarrow> find (\<lambda>(k, v). P k v) (iter m) = None \<longleftrightarrow> (\<forall>k v. get k m = Some v \<longrightarrow> \<not> P k v)"
  by (force simp: find_None_iff iter_get)

end

section \<open>The entries implement the interface\<close>

lemma set_bt_put_keys: "fst ` set (bt_put k v m) = insert k (fst ` set m)"
  by (induction k v m rule: bt_put.induct) auto

lemma bt_wf_put: "bt_wf m \<Longrightarrow> bt_wf (bt_put k v m)"
proof (induction k v m rule: bt_put.induct)
  case (2 k v k' v' m)
  then show ?case
    using set_bt_put_keys [of k v m]
    by (fastforce simp: bt_wf_def simp flip: set_map)
qed (simp add: bt_wf_def)

lemma set_bt_del: "set (bt_del k m) \<subseteq> set m"
  by (induction k m rule: bt_del.induct) auto

lemma bt_wf_del: "bt_wf m \<Longrightarrow> bt_wf (bt_del k m)"
  by (induction k m rule: bt_del.induct) (use set_bt_del in \<open>fastforce simp: bt_wf_def\<close>)+

lemma bt_keys_update [simp]: "map fst (bt_update k f m) = map fst m"
  by (induction k f m rule: bt_update.induct) auto

lemma bt_get_None: "\<forall>x\<in>set m. fst x \<noteq> k \<Longrightarrow> bt_get k m = None"
  by (induction k m rule: bt_get.induct) auto

lemma bt_get_put: "bt_wf m \<Longrightarrow> bt_get k (bt_put k' v m) = (if k = k' then Some v else bt_get k m)"
  by (induction k' v m rule: bt_put.induct) (auto simp: bt_wf_def)

lemma bt_get_del: "bt_wf m \<Longrightarrow> bt_get k (bt_del k' m) = (if k = k' then None else bt_get k m)"
proof (induction k' m rule: bt_del.induct)
  case (2 k' k'' v m)
  from "2.prems" have "bt_get k'' m = None"
    by (intro bt_get_None) (auto simp: bt_wf_def)
  with 2 show ?case by (auto simp: bt_wf_def)
qed simp

lemma bt_get_update: "bt_get k (bt_update k' f m) = (if k = k' then map_option f (bt_get k m) else bt_get k m)"
  by (induction k' f m rule: bt_update.induct) auto

lemma bt_get_iff: "bt_wf m \<Longrightarrow> (k, v) \<in> set m \<longleftrightarrow> bt_get k m = Some v"
  by (induction k m rule: bt_get.induct) (force simp: bt_wf_def)+

interpretation bt: ordered_map bt_wf bt_new bt_get bt_put bt_del bt_update bt_iter
  by unfold_locales
    (simp_all add: bt_wf_put bt_wf_del bt_get_put bt_get_del bt_get_update bt_get_iff bt_iter_def
      bt_new_def, simp_all add: bt_wf_def)

lemmas bt_simps [simp] = bt.wf_new bt.get_new
lemmas bt_intros [intro] = bt.wf_put bt.wf_del bt.wf_upd

lemma bt_update_id: "bt_get k m = None \<Longrightarrow> bt_update k f m = m"
  by (induction k f m rule: bt_update.induct) (auto split: if_splits)

end
