(* ===== verification/Broadcast.thy ===== *)
theory Broadcast
  imports Packets Errors BTreeMap
begin

text \<open>
  The broadcast channels that connect a topic with its subscribers (\<open>tokio::sync::broadcast\<close>). The
  channel library is not part of the repository: its operations are the record \<open>broadcast_ops\<close>, an
  argument of every definition that uses a channel, over an opaque state \<open>'w\<close> of all channels and
  opaque handles \<open>'tx\<close> and \<open>'rx\<close>. The locale \<open>broadcast_channel\<close> states the documented behaviour
  that the broker relies on. The second half is a reference implementation (a log per channel
  and a cursor per receiver, with a bounded window) on which the locale is interpreted.
\<close>

section \<open>Messages\<close>

text \<open>\<open>src/src/topics.rs\<close>: the only message of the broker.\<close>

datatype message = Publish publish_packet

section \<open>Operations\<close>

text \<open>
  The result of \<open>recv().await\<close>: a message, the number of messages the receiver missed, the end of
  the channel; \<open>RecvPending\<close> when the call does not return yet. \<open>b_send\<close> returns the
  number of receivers or hands the message back when there is none. The two \<open>drop\<close> operations
  are what the destructors of the handles do.
\<close>

datatype recv_result = RecvOk message | RecvLagged nat | RecvClosed | RecvPending

record ('w, 'tx, 'rx) broadcast_ops =
  b_channel :: "nat \<Rightarrow> 'w \<Rightarrow> ('tx \<times> 'rx) \<times> 'w"
  b_subscribe :: "'tx \<Rightarrow> 'w \<Rightarrow> 'rx \<times> 'w"
  b_send :: "'tx \<Rightarrow> message \<Rightarrow> 'w \<Rightarrow> (message send_error + nat) \<times> 'w"
  b_is_empty :: "'rx \<Rightarrow> 'w \<Rightarrow> bool"
  b_recv :: "'rx \<Rightarrow> 'w \<Rightarrow> recv_result \<times> 'w"
  b_drop_tx :: "'tx \<Rightarrow> 'w \<Rightarrow> 'w"
  b_drop_rx :: "'rx \<Rightarrow> 'w \<Rightarrow> 'w"

section \<open>Documented behaviour\<close>

text \<open>
  Observations of the channel state: \<open>ok\<close>, its own consistency; \<open>txs\<close> and \<open>rxs\<close>, the live
  handles; \<open>subs V w tx\<close>, the live receivers of the channel of \<open>tx\<close>; \<open>unread V w rx\<close>, the messages
  still to be received by \<open>rx\<close>; \<open>missed V w rx\<close>, how many were overwritten before it read them;
  \<open>capacity V w tx\<close>.
\<close>

record ('w, 'tx, 'rx) broadcast_view =
  ok :: "'w \<Rightarrow> bool"
  txs :: "'w \<Rightarrow> 'tx set"
  rxs :: "'w \<Rightarrow> 'rx set"
  subs :: "'w \<Rightarrow> 'tx \<Rightarrow> 'rx set"
  unread :: "'w \<Rightarrow> 'rx \<Rightarrow> message list"
  missed :: "'w \<Rightarrow> 'rx \<Rightarrow> nat"
  capacity :: "'w \<Rightarrow> 'tx \<Rightarrow> nat"

text \<open>
  \<open>fed V c w w' rx\<close>: between two states the queue of \<open>rx\<close> was only added to, and nothing was overwritten
  unless it outgrew \<open>c\<close>; what was overwritten is counted.
\<close>

definition fed :: "('w, 'tx, 'rx) broadcast_view \<Rightarrow> nat \<Rightarrow> 'w \<Rightarrow> 'w \<Rightarrow> 'rx \<Rightarrow> bool" where
  "fed V c w w' rx \<longleftrightarrow> (\<exists>k ms. unread V w' rx = drop k (unread V w rx @ ms) \<and>
     missed V w' rx = missed V w rx + k \<and> k \<le> length (unread V w rx @ ms) \<and>
     (length (unread V w rx @ ms) \<le> c \<longrightarrow> k = 0) \<and> (unread V w rx \<noteq> [] \<longrightarrow> unread V w' rx \<noteq> []))"

lemma fed_same: "unread V w' rx = unread V w rx \<Longrightarrow> missed V w' rx = missed V w rx \<Longrightarrow> fed V c w w' rx"
  unfolding fed_def by (intro exI [of _ 0] exI [of _ "[]"]) simp

lemma fed_refl [simp]: "fed V c w w rx"
  by (simp add: fed_same)

lemma fed_trans:
  assumes "fed V c w w' rx" "fed V c w' w'' rx"
  shows "fed V c w w'' rx"
proof -
  from assms(1) obtain k ms where k: "unread V w' rx = drop k (unread V w rx @ ms)"
    "missed V w' rx = missed V w rx + k" "k \<le> length (unread V w rx @ ms)"
    "length (unread V w rx @ ms) \<le> c \<longrightarrow> k = 0" "unread V w rx \<noteq> [] \<longrightarrow> unread V w' rx \<noteq> []"
    unfolding fed_def by blast
  from assms(2) obtain j ns where j: "unread V w'' rx = drop j (unread V w' rx @ ns)"
    "missed V w'' rx = missed V w' rx + j" "j \<le> length (unread V w' rx @ ns)"
    "length (unread V w' rx @ ns) \<le> c \<longrightarrow> j = 0" "unread V w' rx \<noteq> [] \<longrightarrow> unread V w'' rx \<noteq> []"
    unfolding fed_def by blast
  have app: "unread V w' rx @ ns = drop k (unread V w rx @ ms @ ns)" using k(1,3) by simp
  show ?thesis
    unfolding fed_def
  proof (intro exI [of _ "j + k"] exI [of _ "ms @ ns"] conjI impI)
    show "unread V w'' rx = drop (j + k) (unread V w rx @ ms @ ns)" unfolding j(1) app by (rule drop_drop)
    show "j + k = 0" if "length (unread V w rx @ ms @ ns) \<le> c"
      using that k(4) j(4) by (simp add: app)
  qed (use j k in auto)
qed

locale broadcast_channel =
  fixes B :: "('w, 'tx, 'rx) broadcast_ops"
    and V :: "('w, 'tx, 'rx) broadcast_view"
  assumes subs_live: "ok V w \<Longrightarrow> tx \<in> txs V w \<Longrightarrow> subs V w tx \<subseteq> rxs V w \<and> finite (subs V w tx)"
    and subs_disjoint: "ok V w \<Longrightarrow> tx \<in> txs V w \<Longrightarrow> tx' \<in> txs V w \<Longrightarrow> tx \<noteq> tx' \<Longrightarrow> subs V w tx \<inter> subs V w tx' = {}"
    and channel: "ok V w \<Longrightarrow> 0 < c \<Longrightarrow> b_channel B c w = ((tx, rx), w') \<Longrightarrow>
      ok V w' \<and> tx \<notin> txs V w \<and> rx \<notin> rxs V w \<and> txs V w' = insert tx (txs V w) \<and> rxs V w' = insert rx (rxs V w) \<and>
      subs V w' tx = {rx} \<and> unread V w' rx = [] \<and> missed V w' rx = 0 \<and> c \<le> capacity V w' tx \<and>
      (\<forall>t\<in>txs V w. subs V w' t = subs V w t \<and> capacity V w' t = capacity V w t) \<and>
      (\<forall>r\<in>rxs V w. unread V w' r = unread V w r \<and> missed V w' r = missed V w r)"
    and subscribe: "ok V w \<Longrightarrow> tx \<in> txs V w \<Longrightarrow> b_subscribe B tx w = (rx, w') \<Longrightarrow>
      ok V w' \<and> rx \<notin> rxs V w \<and> txs V w' = txs V w \<and> rxs V w' = insert rx (rxs V w) \<and>
      subs V w' tx = insert rx (subs V w tx) \<and> unread V w' rx = [] \<and> missed V w' rx = 0 \<and>
      (\<forall>t\<in>txs V w. (t \<noteq> tx \<longrightarrow> subs V w' t = subs V w t) \<and> capacity V w' t = capacity V w t) \<and>
      (\<forall>r\<in>rxs V w. unread V w' r = unread V w r \<and> missed V w' r = missed V w r)"
    and send_none: "ok V w \<Longrightarrow> tx \<in> txs V w \<Longrightarrow> subs V w tx = {} \<Longrightarrow> b_send B tx m w = (Inl (SendError m), w)"
    and send: "ok V w \<Longrightarrow> tx \<in> txs V w \<Longrightarrow> subs V w tx \<noteq> {} \<Longrightarrow> b_send B tx m w = (sr, w') \<Longrightarrow>
      sr = Inr (card (subs V w tx)) \<and> ok V w' \<and> txs V w' = txs V w \<and> rxs V w' = rxs V w \<and>
      (\<forall>t\<in>txs V w. subs V w' t = subs V w t \<and> capacity V w' t = capacity V w t) \<and>
      (\<forall>rx\<in>subs V w tx. \<exists>k. unread V w' rx = drop k (unread V w rx) @ [m] \<and> missed V w' rx = missed V w rx + k \<and>
         k \<le> length (unread V w rx) \<and> (length (unread V w rx) < capacity V w tx \<longrightarrow> k = 0)) \<and>
      (\<forall>rx\<in>rxs V w - subs V w tx. unread V w' rx = unread V w rx \<and> missed V w' rx = missed V w rx)"
    and is_empty: "ok V w \<Longrightarrow> rx \<in> rxs V w \<Longrightarrow> b_is_empty B rx w \<longleftrightarrow> unread V w rx = []"
    and recv: "ok V w \<Longrightarrow> rx \<in> rxs V w \<Longrightarrow> b_recv B rx w = (r, w') \<Longrightarrow>
      ok V w' \<and> txs V w' = txs V w \<and> rxs V w' = rxs V w \<and>
      (\<forall>t\<in>txs V w. subs V w' t = subs V w t \<and> capacity V w' t = capacity V w t) \<and>
      (\<forall>rx'\<in>rxs V w - {rx}. unread V w' rx' = unread V w rx' \<and> missed V w' rx' = missed V w rx')"
    and recv_lagged: "ok V w \<Longrightarrow> rx \<in> rxs V w \<Longrightarrow> 0 < missed V w rx \<Longrightarrow> b_recv B rx w = (r, w') \<Longrightarrow>
      r = RecvLagged (missed V w rx) \<and> unread V w' rx = unread V w rx \<and> missed V w' rx = 0"
    and recv_ok: "ok V w \<Longrightarrow> rx \<in> rxs V w \<Longrightarrow> missed V w rx = 0 \<Longrightarrow> unread V w rx = m # ms \<Longrightarrow>
      b_recv B rx w = (r, w') \<Longrightarrow> r = RecvOk m \<and> unread V w' rx = ms \<and> missed V w' rx = 0"
    and drop_tx: "ok V w \<Longrightarrow> tx \<in> txs V w \<Longrightarrow>
      ok V (b_drop_tx B tx w) \<and> txs V (b_drop_tx B tx w) = txs V w - {tx} \<and> rxs V (b_drop_tx B tx w) = rxs V w \<and>
      (\<forall>t\<in>txs V w - {tx}. subs V (b_drop_tx B tx w) t = subs V w t \<and>
         capacity V (b_drop_tx B tx w) t = capacity V w t) \<and>
      (\<forall>rx\<in>rxs V w. unread V (b_drop_tx B tx w) rx = unread V w rx \<and> missed V (b_drop_tx B tx w) rx = missed V w rx)"
    and drop_rx: "ok V w \<Longrightarrow> rx \<in> rxs V w \<Longrightarrow>
      ok V (b_drop_rx B rx w) \<and> txs V (b_drop_rx B rx w) = txs V w \<and> rxs V (b_drop_rx B rx w) = rxs V w - {rx} \<and>
      (\<forall>tx\<in>txs V w. subs V (b_drop_rx B rx w) tx = subs V w tx - {rx} \<and>
         capacity V (b_drop_rx B rx w) tx = capacity V w tx) \<and>
      (\<forall>rx'\<in>rxs V w - {rx}. unread V (b_drop_rx B rx w) rx' = unread V w rx' \<and>
         missed V (b_drop_rx B rx w) rx' = missed V w rx')"
begin

text \<open>A receiver with room gets a sent message at the end of its queue.\<close>

lemma send_delivers:
  assumes "ok V w" "tx \<in> txs V w" "rx \<in> subs V w tx" "length (unread V w rx) < capacity V w tx"
  shows "unread V (snd (b_send B tx m w)) rx = unread V w rx @ [m] \<and>
    missed V (snd (b_send B tx m w)) rx = missed V w rx"
  using send [of w tx m "fst (b_send B tx m w)" "snd (b_send B tx m w)"] assms by fastforce

text \<open>Sending leaves the handles and, but for the queues of its receivers, the channels alone.\<close>

lemma send_frame:
  assumes "ok V w" "tx \<in> txs V w"
  shows "ok V (snd (b_send B tx m w))" "txs V (snd (b_send B tx m w)) = txs V w"
    "rxs V (snd (b_send B tx m w)) = rxs V w"
    "t \<in> txs V w \<Longrightarrow> subs V (snd (b_send B tx m w)) t = subs V w t"
    "t \<in> txs V w \<Longrightarrow> capacity V (snd (b_send B tx m w)) t = capacity V w t"
    "r \<in> rxs V w \<Longrightarrow> r \<notin> subs V w tx \<Longrightarrow>
       unread V (snd (b_send B tx m w)) r = unread V w r \<and> missed V (snd (b_send B tx m w)) r = missed V w r"
proof -
  have "ok V (snd (b_send B tx m w)) \<and> txs V (snd (b_send B tx m w)) = txs V w \<and>
    rxs V (snd (b_send B tx m w)) = rxs V w \<and>
    (\<forall>t\<in>txs V w. subs V (snd (b_send B tx m w)) t = subs V w t \<and>
       capacity V (snd (b_send B tx m w)) t = capacity V w t) \<and>
    (\<forall>r\<in>rxs V w - subs V w tx. unread V (snd (b_send B tx m w)) r = unread V w r \<and>
       missed V (snd (b_send B tx m w)) r = missed V w r)"
  proof (cases "subs V w tx = {}")
    case True
    then show ?thesis using send_none [OF assms] assms(1) by simp
  next
    case False
    from send [OF assms this, of m "fst (b_send B tx m w)" "snd (b_send B tx m w)"]
    show ?thesis by simp
  qed
  then show "ok V (snd (b_send B tx m w))" "txs V (snd (b_send B tx m w)) = txs V w"
    "rxs V (snd (b_send B tx m w)) = rxs V w"
    "t \<in> txs V w \<Longrightarrow> subs V (snd (b_send B tx m w)) t = subs V w t"
    "t \<in> txs V w \<Longrightarrow> capacity V (snd (b_send B tx m w)) t = capacity V w t"
    "r \<in> rxs V w \<Longrightarrow> r \<notin> subs V w tx \<Longrightarrow>
       unread V (snd (b_send B tx m w)) r = unread V w r \<and> missed V (snd (b_send B tx m w)) r = missed V w r"
    by blast+
qed

text \<open>
  What others may do to the queue of a receiver: messages arrive at its end, and only when the
  queue outgrows \<open>c\<close> are the oldest ones overwritten, each of them counted as missed.
\<close>

lemma send_fed:
  assumes "ok V w" "tx \<in> txs V w" "rx \<in> rxs V w" "c \<le> capacity V w tx"
  shows "fed V c w (snd (b_send B tx m w)) rx"
proof (cases "rx \<in> subs V w tx")
  case True
  then have "subs V w tx \<noteq> {}" by blast
  from send [OF assms(1,2) this, of m "fst (b_send B tx m w)" "snd (b_send B tx m w)"] True obtain k where
    "unread V (snd (b_send B tx m w)) rx = drop k (unread V w rx) @ [m]"
    "missed V (snd (b_send B tx m w)) rx = missed V w rx + k" "k \<le> length (unread V w rx)"
    "length (unread V w rx) < capacity V w tx \<longrightarrow> k = 0" by auto
  with assms(4) show ?thesis unfolding fed_def by (intro exI [of _ k] exI [of _ "[m]"]) simp
next
  case False
  then show ?thesis using send_frame(6) [OF assms(1,2,3)] by (simp add: fed_same)
qed

text \<open>A receiver with something to read never waits and does not see the end of the channel.\<close>

lemma recv_progress:
  assumes "ok V w" "rx \<in> rxs V w" "unread V w rx \<noteq> []"
  shows "fst (b_recv B rx w) =
    (if missed V w rx = 0 then RecvOk (hd (unread V w rx)) else RecvLagged (missed V w rx))"
proof (cases "missed V w rx = 0")
  case True
  from assms(3) obtain m ms where "unread V w rx = m # ms" by (cases "unread V w rx") auto
  with recv_ok [OF assms(1,2) True this] True show ?thesis by (metis list.sel(1) prod.collapse)
next
  case False
  with recv_lagged [OF assms(1,2), of "fst (b_recv B rx w)" "snd (b_recv B rx w)"]
  show ?thesis by simp
qed

end

section \<open>A reference implementation\<close>

text \<open>
  A channel keeps the log of everything ever sent, of which the last \<open>rc_cap\<close> messages can still
  be read; a receiver keeps the position of its next message.
\<close>

record rchan =
  rc_cap :: nat
  rc_log :: "message list"
  rc_open :: bool

record rworld =
  rw_next :: nat
  rw_chans :: "(nat, rchan) btree"
  rw_rxs :: "(nat, nat \<times> nat) btree"

definition rw_init :: rworld where
  "rw_init = \<lparr>rw_next = 0, rw_chans = bt_new, rw_rxs = bt_new\<rparr>"

definition rc_base :: "rchan \<Rightarrow> nat" where
  "rc_base c = length (rc_log c) - rc_cap c"

definition rw_channel :: "nat \<Rightarrow> rworld \<Rightarrow> (nat \<times> nat) \<times> rworld" where
  "rw_channel c w =
     ((rw_next w, rw_next w),
      w\<lparr>rw_next := Suc (rw_next w),
        rw_chans := bt_put (rw_next w) \<lparr>rc_cap = c, rc_log = [], rc_open = True\<rparr> (rw_chans w),
        rw_rxs := bt_put (rw_next w) (rw_next w, 0) (rw_rxs w)\<rparr>)"

definition rw_log :: "rworld \<Rightarrow> nat \<Rightarrow> message list" where
  "rw_log w tx = (case bt_get tx (rw_chans w) of None \<Rightarrow> [] | Some c \<Rightarrow> rc_log c)"

definition rw_subscribe :: "nat \<Rightarrow> rworld \<Rightarrow> nat \<times> rworld" where
  "rw_subscribe tx w =
     (rw_next w, w\<lparr>rw_next := Suc (rw_next w),
        rw_rxs := bt_put (rw_next w) (tx, length (rw_log w tx)) (rw_rxs w)\<rparr>)"

definition rw_sub_list :: "rworld \<Rightarrow> nat \<Rightarrow> nat list" where
  "rw_sub_list w tx = map fst (filter (\<lambda>(r, c, p). c = tx) (rw_rxs w))"

definition rw_send :: "nat \<Rightarrow> message \<Rightarrow> rworld \<Rightarrow> (message send_error + nat) \<times> rworld" where
  "rw_send tx m w =
     (if rw_sub_list w tx = [] then (Inl (SendError m), w)
      else (Inr (length (rw_sub_list w tx)),
            w\<lparr>rw_chans := bt_update tx (\<lambda>c. c\<lparr>rc_log := rc_log c @ [m]\<rparr>) (rw_chans w)\<rparr>))"

text \<open>The channel and the position of a receiver; a handle that is not live has none.\<close>

definition rw_cursor :: "rworld \<Rightarrow> nat \<Rightarrow> (rchan \<times> nat) option" where
  "rw_cursor w rx =
     (case bt_get rx (rw_rxs w) of
        None \<Rightarrow> None
      | Some (tx, p) \<Rightarrow> (case bt_get tx (rw_chans w) of None \<Rightarrow> None | Some c \<Rightarrow> Some (c, p)))"

definition rw_unread :: "rworld \<Rightarrow> nat \<Rightarrow> message list" where
  "rw_unread w rx =
     (case rw_cursor w rx of None \<Rightarrow> [] | Some (c, p) \<Rightarrow> drop (max p (rc_base c)) (rc_log c))"

definition rw_missed :: "rworld \<Rightarrow> nat \<Rightarrow> nat" where
  "rw_missed w rx = (case rw_cursor w rx of None \<Rightarrow> 0 | Some (c, p) \<Rightarrow> rc_base c - p)"

definition rw_seek :: "nat \<Rightarrow> nat \<Rightarrow> rworld \<Rightarrow> rworld" where
  "rw_seek rx p w = w\<lparr>rw_rxs := bt_update rx (\<lambda>(tx, _). (tx, p)) (rw_rxs w)\<rparr>"

definition rw_recv :: "nat \<Rightarrow> rworld \<Rightarrow> recv_result \<times> rworld" where
  "rw_recv rx w =
     (case rw_cursor w rx of
        None \<Rightarrow> (RecvPending, w)
      | Some (c, p) \<Rightarrow>
          if p < rc_base c then (RecvLagged (rc_base c - p), rw_seek rx (rc_base c) w)
          else if p < length (rc_log c) then (RecvOk (rc_log c ! p), rw_seek rx (Suc p) w)
          else (if rc_open c then RecvPending else RecvClosed, w))"

definition rw_drop_tx :: "nat \<Rightarrow> rworld \<Rightarrow> rworld" where
  "rw_drop_tx tx w = w\<lparr>rw_chans := bt_update tx (\<lambda>c. c\<lparr>rc_open := False\<rparr>) (rw_chans w)\<rparr>"

definition rw_drop_rx :: "nat \<Rightarrow> rworld \<Rightarrow> rworld" where
  "rw_drop_rx rx w = w\<lparr>rw_rxs := bt_del rx (rw_rxs w)\<rparr>"

definition rw_ops :: "(rworld, nat, nat) broadcast_ops" where
  "rw_ops = \<lparr>b_channel = rw_channel, b_subscribe = rw_subscribe, b_send = rw_send,
     b_is_empty = (\<lambda>rx w. rw_unread w rx = []), b_recv = rw_recv,
     b_drop_tx = rw_drop_tx, b_drop_rx = rw_drop_rx\<rparr>"

definition rw_txs :: "rworld \<Rightarrow> nat set" where
  "rw_txs w = {tx. \<exists>c. bt_get tx (rw_chans w) = Some c \<and> rc_open c}"

definition rw_live :: "rworld \<Rightarrow> nat set" where
  "rw_live w = {rx. bt_get rx (rw_rxs w) \<noteq> None}"

definition rw_subs :: "rworld \<Rightarrow> nat \<Rightarrow> nat set" where
  "rw_subs w tx = {rx. \<exists>p. bt_get rx (rw_rxs w) = Some (tx, p)}"

definition rw_capacity :: "rworld \<Rightarrow> nat \<Rightarrow> nat" where
  "rw_capacity w tx = (case bt_get tx (rw_chans w) of None \<Rightarrow> 0 | Some c \<Rightarrow> rc_cap c)"

definition rw_ok :: "rworld \<Rightarrow> bool" where
  "rw_ok w \<longleftrightarrow> bt_wf (rw_chans w) \<and> bt_wf (rw_rxs w) \<and>
     (\<forall>tx c. bt_get tx (rw_chans w) = Some c \<longrightarrow> tx < rw_next w \<and> 0 < rc_cap c) \<and>
     (\<forall>rx tx p. bt_get rx (rw_rxs w) = Some (tx, p) \<longrightarrow>
        rx < rw_next w \<and> (\<exists>c. bt_get tx (rw_chans w) = Some c \<and> p \<le> length (rc_log c)))"


subsection \<open>It behaves as documented\<close>

lemmas rw_obs_defs = rw_txs_def rw_live_def rw_subs_def rw_capacity_def rw_unread_def rw_missed_def
  rw_cursor_def

lemma rw_okD:
  assumes "rw_ok w"
  shows "bt_wf (rw_chans w)" "bt_wf (rw_rxs w)"
    "bt_get tx (rw_chans w) = Some c \<Longrightarrow> tx < rw_next w \<and> 0 < rc_cap c"
    "bt_get rx (rw_rxs w) = Some (tx, p) \<Longrightarrow>
       rx < rw_next w \<and> (\<exists>c. bt_get tx (rw_chans w) = Some c \<and> p \<le> length (rc_log c))"
  using assms by (auto simp: rw_ok_def)

lemma rw_fresh:
  assumes "rw_ok w"
  shows "bt_get (rw_next w) (rw_chans w) = None" "bt_get (rw_next w) (rw_rxs w) = None"
    "bt_get rx (rw_rxs w) \<noteq> Some (rw_next w, p)"
  using rw_okD [OF assms] by (metis less_irrefl not_Some_eq surj_pair)+

lemma set_rw_sub_list: "rw_ok w \<Longrightarrow> set (rw_sub_list w tx) = rw_subs w tx"
  using bt_get_iff [OF rw_okD(2)]
  by (fastforce simp: rw_sub_list_def rw_subs_def image_iff)

lemma distinct_rw_sub_list: "rw_ok w \<Longrightarrow> distinct (rw_sub_list w tx)"
proof -
  assume "rw_ok w"
  then have "distinct (map fst (rw_rxs w))"
    using rw_okD(2) [of w] by (simp add: bt_wf_def strict_sorted_iff)
  then show ?thesis
    by (simp add: rw_sub_list_def distinct_map_filter)
qed

lemma card_rw_subs: "rw_ok w \<Longrightarrow> card (rw_subs w tx) = length (rw_sub_list w tx)"
  by (metis distinct_card distinct_rw_sub_list set_rw_sub_list)

lemma rw_channel_ok:
  "rw_ok w \<Longrightarrow> 0 < c \<Longrightarrow> rw_channel c w = ((tx, rx), w') \<Longrightarrow> rw_ok w'"
  using rw_fresh(3) [of w]
  by (auto simp: rw_channel_def rw_ok_def bt.get_put less_Suc_eq split: if_splits)
    (metis less_irrefl)

lemma rw_subscribe_ok:
  "rw_ok w \<Longrightarrow> tx \<in> rw_txs w \<Longrightarrow> rw_subscribe tx w = (rx, w') \<Longrightarrow> rw_ok w'"
  by (auto simp: rw_subscribe_def rw_ok_def rw_txs_def rw_log_def bt.get_put less_Suc_eq
      split: if_splits)

lemma rw_send_ok: "rw_ok w \<Longrightarrow> rw_send tx m w = (r, w') \<Longrightarrow> rw_ok w'"
  by (fastforce simp: rw_send_def rw_ok_def bt.get_upd split: if_splits)

lemma rw_seek_ok:
  assumes "rw_ok w" "rw_cursor w rx = Some (c, p')" "p \<le> length (rc_log c)"
  shows "rw_ok (rw_seek rx p w)"
  using assms
  by (auto simp: rw_seek_def rw_ok_def rw_cursor_def bt.get_upd split: option.splits if_splits)

lemma rw_base_le: "rc_base c \<le> length (rc_log c)"
  by (simp add: rc_base_def)

lemma rw_recv_ok: "rw_ok w \<Longrightarrow> rw_recv rx w = (r, w') \<Longrightarrow> rw_ok w'"
  by (auto simp: rw_recv_def rw_base_le intro: rw_seek_ok split: option.splits prod.splits if_splits)

lemma rw_drop_tx_ok: "rw_ok w \<Longrightarrow> rw_ok (rw_drop_tx tx w)"
  by (fastforce simp: rw_drop_tx_def rw_ok_def bt.get_upd split: if_splits)

lemma rw_drop_rx_ok: "rw_ok w \<Longrightarrow> rw_ok (rw_drop_rx rx w)"
  by (auto simp: rw_drop_rx_def rw_ok_def bt.get_del split: if_splits)

text \<open>The window after one more message: at most the oldest message is overwritten.\<close>

lemma window_append:
  fixes c :: rchan and p :: nat and m :: message
  defines "c' \<equiv> c\<lparr>rc_log := rc_log c @ [m]\<rparr>"
  assumes "0 < rc_cap c" "p \<le> length (rc_log c)"
  shows "\<exists>k. drop (max p (rc_base c')) (rc_log c') = drop k (drop (max p (rc_base c)) (rc_log c)) @ [m] \<and>
    rc_base c' - p = (rc_base c - p) + k \<and>
    k \<le> length (drop (max p (rc_base c)) (rc_log c)) \<and> (length (drop (max p (rc_base c)) (rc_log c)) < rc_cap c \<longrightarrow> k = 0)"
proof (rule exI [of _ "max p (rc_base c') - max p (rc_base c)"], intro conjI impI)
  let ?k = "max p (rc_base c') - max p (rc_base c)"
  have mono: "max p (rc_base c) \<le> max p (rc_base c')" "max p (rc_base c') \<le> length (rc_log c)"
    using assms(2,3) by (auto simp: c'_def rc_base_def)
  then show "drop (max p (rc_base c')) (rc_log c') = drop ?k (drop (max p (rc_base c)) (rc_log c)) @ [m]"
    by (simp add: c'_def del: max.bounded_iff)
  show "?k \<le> length (drop (max p (rc_base c)) (rc_log c))" using mono(2) by (simp add: diff_le_mono)
  show "rc_base c' - p = (rc_base c - p) + ?k"
    using assms(2,3) by (auto simp: c'_def rc_base_def max_def)
  show "?k = 0" if "length (drop (max p (rc_base c)) (rc_log c)) < rc_cap c"
    using that assms(2,3) by (auto simp: c'_def rc_base_def max_def split: if_splits)
qed

lemma rw_send_window:
  assumes "rw_ok w" "rx \<in> rw_subs w tx" "rw_send tx m w = (r, w')"
  shows "\<exists>k. rw_unread w' rx = drop k (rw_unread w rx) @ [m] \<and> rw_missed w' rx = rw_missed w rx + k \<and>
    k \<le> length (rw_unread w rx) \<and> (length (rw_unread w rx) < rw_capacity w tx \<longrightarrow> k = 0)"
proof -
  from assms(2) obtain p where rx: "bt_get rx (rw_rxs w) = Some (tx, p)"
    by (auto simp: rw_subs_def)
  with rw_okD(3,4) [OF assms(1)] obtain c
    where c: "bt_get tx (rw_chans w) = Some c" "p \<le> length (rc_log c)" "0 < rc_cap c" by metis
  have "rw_sub_list w tx \<noteq> []"
    using assms(1,2) set_rw_sub_list by (metis empty_iff empty_set)
  with assms(3) have w': "w' = w\<lparr>rw_chans := bt_update tx (\<lambda>c. c\<lparr>rc_log := rc_log c @ [m]\<rparr>) (rw_chans w)\<rparr>"
    by (simp add: rw_send_def)
  show ?thesis
    using window_append [OF c(3,2), of m] rx c(1)
    by (simp add: w' rw_unread_def rw_missed_def rw_cursor_def rw_capacity_def bt.get_upd)
qed

lemma rw_send_other:
  assumes "rx \<notin> rw_subs w tx" "rw_send tx m w = (r, w')"
  shows "rw_unread w' rx = rw_unread w rx" "rw_missed w' rx = rw_missed w rx"
  using assms
  by (auto simp: rw_send_def rw_obs_defs bt.get_upd split: if_splits option.splits)

lemma rw_cursor_seek:
  "rw_cursor (rw_seek rx p w) rx' =
     (if rx = rx' then map_option (\<lambda>(c, _). (c, p)) (rw_cursor w rx') else rw_cursor w rx')"
  by (auto simp: rw_cursor_def rw_seek_def bt.get_upd split: option.splits)

lemma rw_seek_frame:
  "rw_txs (rw_seek rx p w) = rw_txs w" "rw_live (rw_seek rx p w) = rw_live w"
  "rw_subs (rw_seek rx p w) = rw_subs w" "rw_capacity (rw_seek rx p w) = rw_capacity w"
  by (auto simp: rw_seek_def rw_txs_def rw_live_def rw_subs_def rw_capacity_def bt.get_upd fun_eq_iff
      split: if_splits)

lemma rw_channel_cursor:
  assumes "rw_ok w" "rx \<in> rw_live w" "rw_channel c w = ((t, r), w')"
  shows "rw_cursor w' rx = rw_cursor w rx"
proof -
  from assms(2) obtain tx p where rx: "bt_get rx (rw_rxs w) = Some (tx, p)"
    by (auto simp: rw_live_def)
  then have "rx \<noteq> rw_next w" "tx \<noteq> rw_next w" using rw_fresh [OF assms(1)] by auto
  with assms(3) rx rw_okD(1,2) [OF assms(1)] show ?thesis
    by (auto simp: rw_channel_def rw_cursor_def bt.get_put)
qed

lemma rw_channel_law:
  assumes "rw_ok w" "0 < c" "rw_channel c w = ((tx, rx), w')"
  shows "rw_ok w' \<and> tx \<notin> rw_txs w \<and> rx \<notin> rw_live w \<and> rw_txs w' = insert tx (rw_txs w) \<and>
    rw_live w' = insert rx (rw_live w) \<and> rw_subs w' tx = {rx} \<and> rw_unread w' rx = [] \<and>
    rw_missed w' rx = 0 \<and> c \<le> rw_capacity w' tx \<and>
    (\<forall>t\<in>rw_txs w. rw_subs w' t = rw_subs w t \<and> rw_capacity w' t = rw_capacity w t) \<and>
    (\<forall>r\<in>rw_live w. rw_unread w' r = rw_unread w r \<and> rw_missed w' r = rw_missed w r)"
proof -
  note f = rw_fresh [OF assms(1)] and wf = rw_okD(1,2) [OF assms(1)]
  have eq: "tx = rw_next w" "rx = rw_next w"
    "w' = w\<lparr>rw_next := Suc (rw_next w),
        rw_chans := bt_put (rw_next w) \<lparr>rc_cap = c, rc_log = [], rc_open = True\<rparr> (rw_chans w),
        rw_rxs := bt_put (rw_next w) (rw_next w, 0) (rw_rxs w)\<rparr>"
    using assms(3) by (auto simp: rw_channel_def)
  have "rw_ok w'" using rw_channel_ok [OF assms] .
  moreover have "tx \<notin> rw_txs w" "rx \<notin> rw_live w" using f by (auto simp: eq rw_txs_def rw_live_def)
  moreover have "rw_txs w' = insert tx (rw_txs w)" "rw_live w' = insert rx (rw_live w)"
    using wf by (auto simp: eq rw_txs_def rw_live_def bt.get_put)
  moreover have "rw_subs w' tx = {rx}" "rw_unread w' rx = []" "rw_missed w' rx = 0" "c \<le> rw_capacity w' tx"
    using wf f
    by (auto simp: eq rw_subs_def rw_unread_def rw_missed_def rw_cursor_def rw_capacity_def rc_base_def
        bt.get_put split: if_splits)
  moreover have "\<forall>t\<in>rw_txs w. rw_subs w' t = rw_subs w t \<and> rw_capacity w' t = rw_capacity w t"
    using wf f by (auto simp: eq rw_txs_def rw_subs_def rw_capacity_def bt.get_put split: if_splits)
  moreover have "\<forall>r\<in>rw_live w. rw_unread w' r = rw_unread w r \<and> rw_missed w' r = rw_missed w r"
    using rw_channel_cursor [OF assms(1) _ assms(3)] by (simp add: rw_unread_def rw_missed_def)
  ultimately show ?thesis by blast
qed

lemma rw_subscribe_law:
  assumes "rw_ok w" "tx \<in> rw_txs w" "rw_subscribe tx w = (rx, w')"
  shows "rw_ok w' \<and> rx \<notin> rw_live w \<and> rw_txs w' = rw_txs w \<and> rw_live w' = insert rx (rw_live w) \<and>
    rw_subs w' tx = insert rx (rw_subs w tx) \<and> rw_unread w' rx = [] \<and> rw_missed w' rx = 0 \<and>
    (\<forall>t\<in>rw_txs w. (t \<noteq> tx \<longrightarrow> rw_subs w' t = rw_subs w t) \<and> rw_capacity w' t = rw_capacity w t) \<and>
    (\<forall>r\<in>rw_live w. rw_unread w' r = rw_unread w r \<and> rw_missed w' r = rw_missed w r)"
proof -
  note f = rw_fresh [OF assms(1)] and wf = rw_okD(1,2) [OF assms(1)]
  from assms(2) obtain c where c: "bt_get tx (rw_chans w) = Some c" by (auto simp: rw_txs_def)
  have eq: "rx = rw_next w"
    "w' = w\<lparr>rw_next := Suc (rw_next w), rw_rxs := bt_put (rw_next w) (tx, length (rc_log c)) (rw_rxs w)\<rparr>"
    using assms(3) c by (auto simp: rw_subscribe_def rw_log_def)
  have "rw_ok w'" using rw_subscribe_ok [OF assms] .
  moreover have "rx \<notin> rw_live w" using f by (auto simp: eq rw_live_def)
  moreover have "rw_txs w' = rw_txs w" "rw_live w' = insert rx (rw_live w)"
    "rw_subs w' tx = insert rx (rw_subs w tx)"
    using wf f by (auto simp: eq rw_txs_def rw_live_def rw_subs_def bt.get_put split: if_splits)
  moreover have "rw_unread w' rx = []" "rw_missed w' rx = 0"
    using wf c by (auto simp: eq rw_unread_def rw_missed_def rw_cursor_def rc_base_def bt.get_put)
  moreover have "\<forall>t\<in>rw_txs w. (t \<noteq> tx \<longrightarrow> rw_subs w' t = rw_subs w t) \<and> rw_capacity w' t = rw_capacity w t"
    using wf f by (auto simp: eq rw_subs_def rw_capacity_def bt.get_put split: if_splits)
  moreover have "rw_cursor w' r = rw_cursor w r" if "r \<in> rw_live w" for r
    using that wf f by (auto simp: eq rw_live_def rw_cursor_def bt.get_put)
  then have "\<forall>r\<in>rw_live w. rw_unread w' r = rw_unread w r \<and> rw_missed w' r = rw_missed w r"
    by (simp add: rw_unread_def rw_missed_def)
  ultimately show ?thesis by blast
qed

lemma rw_send_frame:
  assumes "rw_send tx m w = (r, w')"
  shows "rw_txs w' = rw_txs w \<and> rw_live w' = rw_live w \<and> rw_subs w' = rw_subs w \<and>
    rw_capacity w' = rw_capacity w"
  using assms
  by (auto simp: rw_send_def rw_txs_def rw_live_def rw_subs_def rw_capacity_def bt.get_upd fun_eq_iff
      split: if_splits option.splits)

lemma rw_recv_seek: "rw_recv rx w = (r, w') \<Longrightarrow> w' = w \<or> (\<exists>p. w' = rw_seek rx p w)"
  by (auto simp: rw_recv_def split: option.splits prod.splits if_splits)

lemma rw_recv_frame:
  assumes "rw_recv rx w = (r, w')"
  shows "rw_txs w' = rw_txs w \<and> rw_live w' = rw_live w \<and> rw_subs w' = rw_subs w \<and>
    rw_capacity w' = rw_capacity w \<and> (\<forall>rx'. rx' \<noteq> rx \<longrightarrow> rw_cursor w' rx' = rw_cursor w rx')"
  using rw_recv_seek [OF assms] by (auto simp: rw_seek_frame rw_cursor_seek)

lemma rw_drop_tx_law:
  "rw_txs (rw_drop_tx tx w) = rw_txs w - {tx}" "rw_live (rw_drop_tx tx w) = rw_live w"
  "rw_subs (rw_drop_tx tx w) = rw_subs w" "rw_capacity (rw_drop_tx tx w) = rw_capacity w"
  "rw_unread (rw_drop_tx tx w) = rw_unread w" "rw_missed (rw_drop_tx tx w) = rw_missed w"
  by (auto simp: rw_drop_tx_def rw_obs_defs rc_base_def bt.get_upd fun_eq_iff
      split: if_splits option.splits)

lemma rw_drop_rx_law:
  assumes "rw_ok w"
  shows "rw_txs (rw_drop_rx rx w) = rw_txs w" "rw_live (rw_drop_rx rx w) = rw_live w - {rx}"
    "rw_subs (rw_drop_rx rx w) tx = rw_subs w tx - {rx}" "rw_capacity (rw_drop_rx rx w) = rw_capacity w"
    "rx' \<noteq> rx \<Longrightarrow> rw_cursor (rw_drop_rx rx w) rx' = rw_cursor w rx'"
  using rw_okD(2) [OF assms]
  by (auto simp: rw_drop_rx_def rw_txs_def rw_live_def rw_subs_def rw_capacity_def rw_cursor_def
      bt.get_del fun_eq_iff split: if_splits option.splits)

definition rw_view :: "(rworld, nat, nat) broadcast_view" where
  "rw_view = \<lparr>ok = rw_ok, txs = rw_txs, rxs = rw_live, subs = rw_subs, unread = rw_unread,
     missed = rw_missed, capacity = rw_capacity\<rparr>"

lemma rw_send_law:
  assumes "rw_ok w" "tx \<in> rw_txs w" "rw_subs w tx \<noteq> {}" "rw_send tx m w = (sr, w')"
  shows "sr = Inr (card (rw_subs w tx))"
  using assms(3,4) set_rw_sub_list [OF assms(1), of tx] card_rw_subs [OF assms(1), of tx]
  by (auto simp: rw_send_def split: if_splits)

lemma rw_recv_law:
  assumes "rw_unread w rx = m # ms" "rw_missed w rx = 0" "rw_recv rx w = (r, w')"
  shows "r = RecvOk m \<and> rw_unread w' rx = ms \<and> rw_missed w' rx = 0"
proof -
  from assms(1) obtain c p where cp: "rw_cursor w rx = Some (c, p)" by (auto simp: rw_unread_def split: option.splits)
  with assms(2) have "rc_base c \<le> p" by (simp add: rw_missed_def)
  moreover from this assms(1) cp have "drop p (rc_log c) = m # ms" by (simp add: rw_unread_def max_absorb1)
  then have "p < length (rc_log c)" "rc_log c ! p = m" "drop (Suc p) (rc_log c) = ms"
    by (simp_all add: drop_eq_ConsD)
  ultimately show ?thesis
    using assms(3) cp by (auto simp: rw_recv_def rw_unread_def rw_missed_def rw_cursor_seek max_absorb1)
qed

interpretation rw: broadcast_channel rw_ops rw_view
proof (unfold_locales, unfold rw_view_def broadcast_view.simps, goal_cases)
  case (1 w tx)
  then show ?case
    using set_rw_sub_list [of w tx] by (auto simp: rw_subs_def rw_live_def) (metis List.finite_set)
next
  case (2 w tx tx')
  then show ?case by (auto simp: rw_subs_def)
next
  case (3 w c tx rx w')
  then show ?case by (intro rw_channel_law) (simp_all add: rw_ops_def)
next
  case (4 w tx rx w')
  then show ?case by (intro rw_subscribe_law) (simp_all add: rw_ops_def)
next
  case (5 w tx m)
  then show ?case
    using set_rw_sub_list [of w tx] by (simp add: rw_ops_def rw_send_def)
next
  case (6 w tx m sr w')
  then have eq: "rw_send tx m w = (sr, w')" by (simp add: rw_ops_def)
  then show ?case
    using rw_send_law [OF 6(1-3) eq] rw_send_ok [OF 6(1) eq] rw_send_frame [OF eq] rw_send_window [OF 6(1) _ eq]
      rw_send_other [OF _ eq] by simp
next
  case (7 w rx)
  then show ?case by (simp add: rw_ops_def)
next
  case (8 w rx r w')
  then have eq: "rw_recv rx w = (r, w')" by (simp add: rw_ops_def)
  then show ?case
    using rw_recv_ok [OF 8(1) eq] rw_recv_frame [OF eq] by (simp add: rw_unread_def rw_missed_def)
next
  case (9 w rx r w')
  then show ?case
    by (auto simp: rw_ops_def rw_recv_def rw_unread_def rw_missed_def rw_cursor_seek
        split: option.splits prod.splits)
next
  case (10 w rx m ms r w')
  then show ?case by (intro rw_recv_law) (simp_all add: rw_ops_def)
next
  case (11 w tx)
  then show ?case by (simp add: rw_ops_def rw_drop_tx_ok rw_drop_tx_law)
next
  case (12 w rx)
  then show ?case by (simp add: rw_ops_def rw_drop_rx_ok rw_drop_rx_law rw_unread_def rw_missed_def)
qed

end
