(* ===== verification/Topics.thy ===== *)
theory Topics
  imports Broadcast
begin

text \<open>
  The topic store of \<open>src/src/topics.rs\<close>: \<open>Topics\<close>, the map from topic names to channels shared by
  all connections, with \<open>add\<close>, \<open>subscribe\<close>, \<open>publish\<close>, \<open>get_retained_message\<close> and the function
  \<open>send_message\<close>. The state \<open>shared\<close> is the map together with the state of all broadcast channels.
  Against the abstract specification of a publish/subscribe store (a partial map from topic
  names to the retained message and the set of subscribers, and a queue per subscriber) the
  operations are shown to be a refinement.
\<close>

section \<open>The store\<close>

record 'tx channel =
  sender :: 'tx
  retained_message :: "publish_packet option"

text \<open>\<open>Channel::new\<close>\<close>

definition channel_new :: "'tx \<Rightarrow> 'tx channel" where
  "channel_new tx = \<lparr>sender = tx, retained_message = None\<rparr>"

record ('w, 'tx) shared =
  topics :: "(string, 'tx channel) btree"
  chans :: 'w

text \<open>\<open>Topics::default()\<close> in a given state of the channel library.\<close>

definition topics_default :: "'w \<Rightarrow> ('w, 'tx) shared" where
  "topics_default w = \<lparr>topics = bt_new, chans = w\<rparr>"

definition on_chans :: "('w, 'e, 'a) io \<Rightarrow> (('w, 'tx) shared, 'e, 'a) io" where
  "on_chans = zoom_io chans (\<lambda>w s. s\<lparr>chans := w\<rparr>)"

section \<open>Operations\<close>

text \<open>
  The new channel is inserted before the test whether the name was taken. When it was, the
  sender of the replaced channel and the new receiver are dropped.
\<close>

definition topics_add :: "('w, 'tx, 'rx) broadcast_ops \<Rightarrow> string \<Rightarrow> (('w, 'tx) shared, mcloud_error, 'rx) io" where
  "topics_add B name s =
     (case b_channel B 1024 (chans s) of ((tx, receiver), w) \<Rightarrow>
        (case bt_insert name (channel_new tx) (topics s) of
           (None, t) \<Rightarrow> (Ok receiver, s\<lparr>topics := t, chans := w\<rparr>)
         | (Some old, t) \<Rightarrow>
             (Err (TopicAlreadyExists name),
              s\<lparr>topics := t, chans := b_drop_rx B receiver (b_drop_tx B (sender old) w)\<rparr>)))"

definition topics_subscribe ::
    "('w, 'tx, 'rx) broadcast_ops \<Rightarrow> string \<Rightarrow> (('w, 'tx) shared, mcloud_error, 'rx) io" where
  "topics_subscribe B name s =
     (case bt_get name (topics s) of
        Some channel \<Rightarrow>
          (case b_subscribe B (sender channel) (chans s) of (rx, w) \<Rightarrow> (Ok rx, s\<lparr>chans := w\<rparr>))
      | None \<Rightarrow> topics_add B name s)"

definition send_message :: "('w, 'tx, 'rx) broadcast_ops \<Rightarrow> 'tx \<Rightarrow> message \<Rightarrow> ('w, mcloud_error, unit) io" where
  "send_message B tx m w =
     (case b_send B tx m w of
        (Inr _, w') \<Rightarrow> (Ok (), w')
      | (Inl _, w') \<Rightarrow> (Err NoReceiversFound, w'))"

text \<open>\<open>self.0.get_mut(name).unwrap()\<close>, and \<open>let _ =\<close> of a \<open>Result\<close>.\<close>

definition get_mut_unwrap :: "string \<Rightarrow> (('w, 'tx) shared, mcloud_error, 'tx channel) io" where
  "get_mut_unwrap name s =
     (case bt_get name (topics s) of
        None \<Rightarrow> (Panic UnwrapNone, s)
      | Some channel \<Rightarrow> (Ok channel, s))"

definition discard :: "('s, 'e, 'a) io \<Rightarrow> ('s, 'e, unit) io" where
  "discard m = match_io m (\<lambda>_. ret_io ())"

definition set_retained :: "string \<Rightarrow> publish_packet \<Rightarrow> ('w, 'tx) shared \<Rightarrow> ('w, 'tx) shared" where
  "set_retained name packet s =
     s\<lparr>topics := bt_update name (\<lambda>ch. ch\<lparr>retained_message := Some packet\<rparr>) (topics s)\<rparr>"

definition topics_publish ::
    "('w, 'tx, 'rx) broadcast_ops \<Rightarrow> publish_packet \<Rightarrow> (('w, 'tx) shared, mcloud_error, unit) io" where
  "topics_publish B packet =
     (let name = topic_name (p_topic packet) in
      then_io
        (bind_io (get_io (\<lambda>s. bt_get name (topics s))) (\<lambda>found.
           case found of
             Some channel \<Rightarrow> discard (on_chans (send_message B (sender channel) (Publish packet)))
           | None \<Rightarrow>
               bind_io (topics_add B name) (\<lambda>receiver.
               then_io (on_chans (modify_io (b_drop_rx B receiver)))
                 (bind_io (get_mut_unwrap name) (\<lambda>channel.
                  discard (on_chans (send_message B (sender channel) (Publish packet))))))))
        (if p_retain packet
         then then_io (get_mut_unwrap name) (modify_io (set_retained name packet))
         else ret_io ()))"

definition get_retained_message :: "string \<Rightarrow> ('w, 'tx) shared \<Rightarrow> publish_packet option" where
  "get_retained_message name s =
     (case bt_get name (topics s) of
        Some channel \<Rightarrow> retained_message channel
      | None \<Rightarrow> None)"

section \<open>Invariant and abstract specification\<close>

text \<open>
  Every topic has a live channel of its own with the capacity it was created with, and what it
  retains was published to it.
\<close>

definition shared_inv :: "('w, 'tx, 'rx) broadcast_view \<Rightarrow> ('w, 'tx) shared \<Rightarrow> bool" where
  "shared_inv V s \<longleftrightarrow>
     bt_wf (topics s) \<and> ok V (chans s) \<and>
     (\<forall>k ch. bt_get k (topics s) = Some ch \<longrightarrow>
        sender ch \<in> txs V (chans s) \<and> 1024 \<le> capacity V (chans s) (sender ch) \<and>
        (\<forall>p. retained_message ch = Some p \<longrightarrow> topic_name (p_topic p) = k)) \<and>
     (\<forall>k k' ch ch'. bt_get k (topics s) = Some ch \<and> bt_get k' (topics s) = Some ch' \<and>
        sender ch = sender ch' \<longrightarrow> k = k')"

text \<open>What a topic is to its users: the retained message and the set of subscribers.\<close>

type_synonym 'rx topic_spec = "string \<Rightarrow> (publish_packet option \<times> 'rx set) option"

definition topic_view :: "('w, 'tx, 'rx) broadcast_view \<Rightarrow> ('w, 'tx) shared \<Rightarrow> 'rx topic_spec" where
  "topic_view V s k =
     map_option (\<lambda>ch. (retained_message ch, subs V (chans s) (sender ch))) (bt_get k (topics s))"

definition spec_publish :: "publish_packet \<Rightarrow> 'rx topic_spec \<Rightarrow> 'rx topic_spec" where
  "spec_publish p T =
     (let name = topic_name (p_topic p);
          (r, S) = (case T name of None \<Rightarrow> (None, {}) | Some x \<Rightarrow> x)
      in T(name \<mapsto> (if p_retain p then Some p else r, S)))"

definition spec_subscribe :: "string \<Rightarrow> 'rx \<Rightarrow> 'rx topic_spec \<Rightarrow> 'rx topic_spec" where
  "spec_subscribe name rx T =
     (case T name of
        None \<Rightarrow> T(name \<mapsto> (None, {rx}))
      | Some (r, S) \<Rightarrow> T(name \<mapsto> (r, insert rx S)))"

definition spec_drop :: "'rx \<Rightarrow> 'rx topic_spec \<Rightarrow> 'rx topic_spec" where
  "spec_drop rx T k = map_option (\<lambda>(r, S). (r, S - {rx})) (T k)"

definition subscribers :: "string \<Rightarrow> 'rx topic_spec \<Rightarrow> 'rx set" where
  "subscribers name T = (case T name of None \<Rightarrow> {} | Some (r, S) \<Rightarrow> S)"

text \<open>The queues of the given receivers are the same in two states of the channel library.\<close>

definition same_queues :: "('w, 'tx, 'rx) broadcast_view \<Rightarrow> 'rx set \<Rightarrow> 'w \<Rightarrow> 'w \<Rightarrow> bool" where
  "same_queues V R w w' \<longleftrightarrow> (\<forall>r\<in>R. unread V w' r = unread V w r \<and> missed V w' r = missed V w r)"

lemmas topics_defs = on_chans_def zoom_io_def discard_def match_io_def send_message_def
  get_mut_unwrap_def set_retained_def

section \<open>The operations in closed form\<close>

lemma add_absent:
  assumes "bt_get name (topics s) = None" "b_channel B 1024 (chans s) = ((tx, rx), w)"
  shows "topics_add B name s =
    (Ok rx, s\<lparr>topics := bt_put name (channel_new tx) (topics s), chans := w\<rparr>)"
  using assms by (simp add: topics_add_def bt_insert_def)

lemma add_present:
  assumes "bt_get name (topics s) = Some old" "b_channel B 1024 (chans s) = ((tx, rx), w)"
  shows "topics_add B name s =
    (Err (TopicAlreadyExists name),
     s\<lparr>topics := bt_put name (channel_new tx) (topics s),
       chans := b_drop_rx B rx (b_drop_tx B (sender old) w)\<rparr>)"
  using assms by (simp add: topics_add_def bt_insert_def)

lemma discard_send:
  "discard (on_chans (send_message B tx m)) s = (Ok (), s\<lparr>chans := snd (b_send B tx m (chans s))\<rparr>)"
  by (simp add: topics_defs split: prod.splits sum.splits)

lemma on_chans_modify: "on_chans (modify_io f) s = (Ok (), s\<lparr>chans := f (chans s)\<rparr>)"
  by (simp add: on_chans_def zoom_io_def)

text \<open>The store with the topic of a packet created if it was missing.\<close>

definition ensure_topic :: "('w, 'tx, 'rx) broadcast_ops \<Rightarrow> string \<Rightarrow> ('w, 'tx) shared \<Rightarrow> ('w, 'tx) shared" where
  "ensure_topic B name s =
     (case bt_get name (topics s) of
        Some _ \<Rightarrow> s
      | None \<Rightarrow>
          (case b_channel B 1024 (chans s) of ((tx, rx), w) \<Rightarrow>
             s\<lparr>topics := bt_put name (channel_new tx) (topics s), chans := b_drop_rx B rx w\<rparr>))"

definition deliver :: "('w, 'tx, 'rx) broadcast_ops \<Rightarrow> publish_packet \<Rightarrow> ('w, 'tx) shared \<Rightarrow> ('w, 'tx) shared" where
  "deliver B p s =
     (case bt_get (topic_name (p_topic p)) (topics s) of
        None \<Rightarrow> s
      | Some ch \<Rightarrow> s\<lparr>chans := snd (b_send B (sender ch) (Publish p) (chans s))\<rparr>)"

definition retain_packet :: "publish_packet \<Rightarrow> ('w, 'tx) shared \<Rightarrow> ('w, 'tx) shared" where
  "retain_packet p s = (if p_retain p then set_retained (topic_name (p_topic p)) p s else s)"

lemma ensure_topic_present:
  "bt_wf (topics s) \<Longrightarrow> \<exists>ch. bt_get name (topics (ensure_topic B name s)) = Some ch"
  by (auto simp: ensure_topic_def bt.get_put split: option.splits prod.splits)

text \<open>
  Publishing creates the topic if needed, sends to its channel whether or not anybody
  listens, retains on demand, and always succeeds.
\<close>

lemma publish_eq:
  assumes "bt_wf (topics s)"
  shows "topics_publish B p s =
    (Ok (), retain_packet p (deliver B p (ensure_topic B (topic_name (p_topic p)) s)))"
proof (cases "bt_get (topic_name (p_topic p)) (topics s)")
  case None
  obtain tx rx w where ch: "b_channel B 1024 (chans s) = ((tx, rx), w)" by (metis surj_pair)
  show ?thesis
    using None assms add_absent [OF None ch] ch
    by (simp add: topics_publish_def Let_def bind_io_def then_io_def discard_send retain_packet_def
        deliver_def ensure_topic_def get_mut_unwrap_def set_retained_def on_chans_modify bt.get_put)
next
  case (Some ch)
  then show ?thesis
    by (simp add: topics_publish_def Let_def bind_io_def then_io_def discard_send retain_packet_def
        deliver_def ensure_topic_def get_mut_unwrap_def set_retained_def)
qed

section \<open>Consequences of the channel contract\<close>

lemma shared_invD:
  assumes "shared_inv V s"
  shows "bt_wf (topics s)" "ok V (chans s)"
    "bt_get k (topics s) = Some ch \<Longrightarrow> sender ch \<in> txs V (chans s)"
    "bt_get k (topics s) = Some ch \<Longrightarrow> 1024 \<le> capacity V (chans s) (sender ch)"
    "bt_get k (topics s) = Some ch \<Longrightarrow> retained_message ch = Some p \<Longrightarrow> topic_name (p_topic p) = k"
    "bt_get k (topics s) = Some ch \<Longrightarrow> bt_get k' (topics s) = Some ch' \<Longrightarrow> sender ch = sender ch' \<Longrightarrow> k = k'"
  using assms unfolding shared_inv_def by blast+

lemma topic_view_Some:
  "bt_get k (topics s) = Some ch \<Longrightarrow>
    topic_view V s k = Some (retained_message ch, subs V (chans s) (sender ch))"
  and topic_view_None: "topic_view V s k = None \<longleftrightarrow> bt_get k (topics s) = None"
  by (simp_all add: topic_view_def)

lemma same_queues_refl [simp]: "same_queues V R w w"
  by (simp add: same_queues_def)

lemma same_queues_trans:
  "same_queues V R w w' \<Longrightarrow> same_queues V R' w' w'' \<Longrightarrow> R \<subseteq> R' \<Longrightarrow> same_queues V R w w''"
  by (auto simp: same_queues_def)

lemma shared_inv_chans:
  assumes "shared_inv V s" "ok V w'" "txs V (chans s) \<subseteq> txs V w'"
    "\<forall>t\<in>txs V (chans s). capacity V w' t = capacity V (chans s) t"
  shows "shared_inv V (s\<lparr>chans := w'\<rparr>)"
  using assms unfolding shared_inv_def by auto

lemma topic_view_chans:
  assumes "shared_inv V s" "\<forall>t\<in>txs V (chans s). subs V w' t = subs V (chans s) t"
  shows "topic_view V (s\<lparr>chans := w'\<rparr>) = topic_view V s"
proof
  fix k show "topic_view V (s\<lparr>chans := w'\<rparr>) k = topic_view V s k"
    using assms shared_invD(3) [OF assms(1), of k]
    by (cases "bt_get k (topics s)") (simp_all add: topic_view_def)
qed

lemma shared_inv_put:
  assumes "shared_inv V s" "tx \<notin> txs V (chans s)" "tx \<in> txs V w'" "ok V w'" "1024 \<le> capacity V w' tx"
    "txs V (chans s) \<subseteq> txs V w'" "\<forall>t\<in>txs V (chans s). capacity V w' t = capacity V (chans s) t"
  shows "shared_inv V (s\<lparr>topics := bt_put name (channel_new tx) (topics s), chans := w'\<rparr>)"
  using assms unfolding shared_inv_def channel_new_def
  by (auto simp: bt.get_put split: if_splits)

lemma shared_inv_retained:
  assumes "shared_inv V s"
  shows "shared_inv V (set_retained (topic_name (p_topic p)) p s)"
  using assms unfolding shared_inv_def set_retained_def
  by (auto simp: bt.get_upd split: if_splits)

lemma topic_view_set_retained:
  "topic_view V (set_retained name p s) =
     (topic_view V s)(name := map_option (\<lambda>(r, S). (Some p, S)) (topic_view V s name))"
  by (auto simp: topic_view_def set_retained_def bt.get_upd fun_eq_iff option.map_comp comp_def)

context broadcast_channel
begin

text \<open>A fresh topic: an empty channel with the one receiver that \<open>add\<close> returns.\<close>

lemma add_law:
  assumes inv: "shared_inv V s" and None: "bt_get name (topics s) = None"
    and add: "topics_add B name s = (r, s')"
  shows "\<exists>rx. r = Ok rx \<and> shared_inv V s' \<and> rx \<notin> rxs V (chans s) \<and>
    rxs V (chans s') = insert rx (rxs V (chans s)) \<and>
    topic_view V s' = (topic_view V s)(name \<mapsto> (None, {rx})) \<and>
    unread V (chans s') rx = [] \<and> missed V (chans s') rx = 0 \<and>
    same_queues V (rxs V (chans s)) (chans s) (chans s')"
proof -
  obtain tx rx w where ch: "b_channel B 1024 (chans s) = ((tx, rx), w)" by (metis surj_pair)
  from add_absent [OF None ch] add
  have r: "r = Ok rx" and s': "s' = s\<lparr>topics := bt_put name (channel_new tx) (topics s), chans := w\<rparr>"
    by auto
  note law = channel [OF shared_invD(2) [OF inv] _ ch, simplified]
  have "shared_inv V s'"
    unfolding s' by (rule shared_inv_put [OF inv]) (use law in auto)
  moreover have "topic_view V s' = (topic_view V s)(name \<mapsto> (None, {rx}))"
    using law shared_invD(1,3) [OF inv]
    by (auto simp: s' topic_view_def bt.get_put channel_new_def fun_eq_iff split: option.splits)
      (metis (no_types, lifting) map_option_cong)
  ultimately show ?thesis
    using law r by (auto simp: s' same_queues_def)
qed

lemma topic_view_live:
  assumes "shared_inv V s" "topic_view V s k = Some (r, S)"
  shows "S \<subseteq> rxs V (chans s)"
proof -
  from assms(2) obtain ch where "bt_get k (topics s) = Some ch" "S = subs V (chans s) (sender ch)"
    by (auto simp: topic_view_def)
  then show ?thesis using subs_live shared_invD(2,3) [OF assms(1)] by blast
qed

text \<open>Dropping a receiver removes it from the subscribers of its topic and changes nothing else.\<close>

lemma drop_law:
  fixes rx :: 'rx
  assumes inv: "shared_inv V s" and rx: "rx \<in> rxs V (chans s)"
  defines "s' \<equiv> s\<lparr>chans := b_drop_rx B rx (chans s)\<rparr>"
  shows "shared_inv V s'" "rxs V (chans s') = rxs V (chans s) - {rx}"
    "topic_view V s' = spec_drop rx (topic_view V s)"
    "same_queues V (rxs V (chans s) - {rx}) (chans s) (chans s')"
proof -
  note dr = drop_rx [OF shared_invD(2) [OF inv] rx]
  show "shared_inv V s'" unfolding s'_def by (rule shared_inv_chans [OF inv]) (use dr in auto)
  show "rxs V (chans s') = rxs V (chans s) - {rx}" using dr by (simp add: s'_def)
  show "same_queues V (rxs V (chans s) - {rx}) (chans s) (chans s')"
    using dr by (simp add: s'_def same_queues_def)
  show "topic_view V s' = spec_drop rx (topic_view V s)"
  proof
    fix k show "topic_view V s' k = spec_drop rx (topic_view V s) k"
      using dr shared_invD(3) [OF inv, of k]
      by (cases "bt_get k (topics s)") (auto simp: s'_def topic_view_def spec_drop_def)
  qed
qed

lemma subscribers_live: "shared_inv V s \<Longrightarrow> subscribers k (topic_view V s) \<subseteq> rxs V (chans s)"
  using topic_view_live [of s k] by (auto simp: subscribers_def split: option.splits)

lemma subscribers_disjoint:
  assumes inv: "shared_inv V s" and "k \<noteq> k'"
  shows "subscribers k (topic_view V s) \<inter> subscribers k' (topic_view V s) = {}"
proof (cases "bt_get k (topics s)")
  case (Some ch)
  show ?thesis
  proof (cases "bt_get k' (topics s)")
    fix ch' assume ch': "bt_get k' (topics s) = Some ch'"
    have "sender ch \<noteq> sender ch'" using shared_invD(6) [OF inv Some ch'] assms(2) by blast
    then show ?thesis
      using subs_disjoint [OF shared_invD(2) [OF inv] shared_invD(3) [OF inv Some] shared_invD(3) [OF inv ch']]
        Some ch' by (simp add: subscribers_def topic_view_def)
  qed (simp add: subscribers_def topic_view_def)
qed (simp add: subscribers_def topic_view_def)

lemma ensure_topic_law:
  fixes name :: string
  assumes inv: "shared_inv V s"
  defines "s' \<equiv> ensure_topic B name s"
  shows "shared_inv V s'" "rxs V (chans s') = rxs V (chans s)"
    "topic_view V s' = (topic_view V s)(name \<mapsto>
       (case topic_view V s name of None \<Rightarrow> (None, {}) | Some x \<Rightarrow> x))"
    "same_queues V (rxs V (chans s)) (chans s) (chans s')"
proof -
  have "shared_inv V s' \<and> rxs V (chans s') = rxs V (chans s) \<and>
    topic_view V s' = (topic_view V s)(name \<mapsto>
       (case topic_view V s name of None \<Rightarrow> (None, {}) | Some x \<Rightarrow> x)) \<and>
    same_queues V (rxs V (chans s)) (chans s) (chans s')"
  proof (cases "bt_get name (topics s)")
    case (Some ch)
    then show ?thesis
      using inv by (auto simp: s'_def ensure_topic_def topic_view_Some fun_eq_iff)
  next
    case None
    obtain tx rx w where ch: "b_channel B 1024 (chans s) = ((tx, rx), w)" by (metis surj_pair)
    define s1 where "s1 = s\<lparr>topics := bt_put name (channel_new tx) (topics s), chans := w\<rparr>"
    note law = add_law [OF inv None add_absent [OF None ch], folded s1_def, simplified]
    have inv1: "shared_inv V s1" and rx: "rx \<in> rxs V (chans s1)" using law by auto
    have s': "s' = s1\<lparr>chans := b_drop_rx B rx (chans s1)\<rparr>"
      using None ch by (simp add: s'_def s1_def ensure_topic_def)
    note d = drop_law [OF inv1 rx, folded s']
    have "spec_drop rx (topic_view V s) = topic_view V s"
      using topic_view_live [OF inv] law
      by (fastforce simp: spec_drop_def fun_eq_iff map_option_case split: option.splits)
    then have "spec_drop rx (topic_view V s1) = (topic_view V s)(name \<mapsto> (None, {}))"
      using law by (auto simp: spec_drop_def fun_eq_iff)
    then show ?thesis
      using law d topic_view_None [of V s name] None by (auto simp: same_queues_def)
  qed
  then show "shared_inv V s'" "rxs V (chans s') = rxs V (chans s)"
    "topic_view V s' = (topic_view V s)(name \<mapsto>
       (case topic_view V s name of None \<Rightarrow> (None, {}) | Some x \<Rightarrow> x))"
    "same_queues V (rxs V (chans s)) (chans s) (chans s')"
    by blast+
qed

lemma deliver_law:
  fixes p :: publish_packet
  assumes inv: "shared_inv V s"
  defines "s' \<equiv> deliver B p s" and "name \<equiv> topic_name (p_topic p)"
  shows "shared_inv V s'" "rxs V (chans s') = rxs V (chans s)" "topic_view V s' = topic_view V s"
    "same_queues V (rxs V (chans s) - subscribers name (topic_view V s)) (chans s) (chans s')"
    "r \<in> subscribers name (topic_view V s) \<Longrightarrow> length (unread V (chans s) r) < 1024 \<Longrightarrow>
       unread V (chans s') r = unread V (chans s) r @ [Publish p] \<and> missed V (chans s') r = missed V (chans s) r"
    "r \<in> rxs V (chans s) \<Longrightarrow> fed V 1024 (chans s) (chans s') r"
proof -
  have "shared_inv V s' \<and> rxs V (chans s') = rxs V (chans s) \<and> topic_view V s' = topic_view V s \<and>
    (r \<in> rxs V (chans s) \<longrightarrow> fed V 1024 (chans s) (chans s') r) \<and>
    same_queues V (rxs V (chans s) - subscribers name (topic_view V s)) (chans s) (chans s') \<and>
    (r \<in> subscribers name (topic_view V s) \<longrightarrow> length (unread V (chans s) r) < 1024 \<longrightarrow>
       unread V (chans s') r = unread V (chans s) r @ [Publish p] \<and>
       missed V (chans s') r = missed V (chans s) r)"
  proof (cases "bt_get name (topics s)")
    case None
    then show ?thesis
      using inv by (simp add: s'_def name_def deliver_def subscribers_def topic_view_def)
  next
    case (Some ch)
    note tx = shared_invD(3) [OF inv Some] and okw = shared_invD(2) [OF inv]
    have s': "s' = s\<lparr>chans := snd (b_send B (sender ch) (Publish p) (chans s))\<rparr>"
      using Some by (simp add: s'_def name_def deliver_def)
    have subs: "subscribers name (topic_view V s) = subs V (chans s) (sender ch)"
      using Some by (simp add: subscribers_def topic_view_Some)
    note fr = send_frame [OF okw tx, where m = "Publish p"]
    have "shared_inv V s'" unfolding s' by (rule shared_inv_chans [OF inv]) (use fr in auto)
    moreover have "topic_view V s' = topic_view V s"
      unfolding s' by (rule topic_view_chans [OF inv]) (use fr in auto)
    moreover have "r \<in> subs V (chans s) (sender ch) \<Longrightarrow> length (unread V (chans s) r) < 1024 \<Longrightarrow>
        unread V (chans s') r = unread V (chans s) r @ [Publish p] \<and> missed V (chans s') r = missed V (chans s) r"
      using send_delivers [OF okw tx, where rx = r and m = "Publish p"] shared_invD(4) [OF inv Some] by (simp add: s')
    moreover have "r \<in> rxs V (chans s) \<Longrightarrow> fed V 1024 (chans s) (chans s') r"
      using send_fed [OF okw tx _ shared_invD(4) [OF inv Some]] by (simp add: s')
    ultimately show ?thesis using fr by (simp add: s' subs same_queues_def)
  qed
  then show "shared_inv V s'" "rxs V (chans s') = rxs V (chans s)" "topic_view V s' = topic_view V s"
    "same_queues V (rxs V (chans s) - subscribers name (topic_view V s)) (chans s) (chans s')"
    "r \<in> subscribers name (topic_view V s) \<Longrightarrow> length (unread V (chans s) r) < 1024 \<Longrightarrow>
       unread V (chans s') r = unread V (chans s) r @ [Publish p] \<and> missed V (chans s') r = missed V (chans s) r"
    "r \<in> rxs V (chans s) \<Longrightarrow> fed V 1024 (chans s) (chans s') r"
    by blast+
qed

text \<open>
  Publishing against the specification: the view of the topics follows \<open>spec_publish\<close>, a
  subscriber of the topic with room in its queue gets exactly this message, nobody else's queue
  changes, and no receiver comes or goes.
\<close>

lemma publish_law:
  fixes p :: publish_packet
  assumes inv: "shared_inv V s"
  defines "s' \<equiv> snd (topics_publish B p s)"
  shows "fst (topics_publish B p s) = Ok ()"
    "shared_inv V s'" "rxs V (chans s') = rxs V (chans s)"
    "topic_view V s' = spec_publish p (topic_view V s)"
    "same_queues V (rxs V (chans s) - subscribers (topic_name (p_topic p)) (topic_view V s)) (chans s) (chans s')"
    "r \<in> subscribers (topic_name (p_topic p)) (topic_view V s) \<Longrightarrow> length (unread V (chans s) r) < 1024 \<Longrightarrow>
       unread V (chans s') r = unread V (chans s) r @ [Publish p] \<and> missed V (chans s') r = missed V (chans s) r"
    "r \<in> rxs V (chans s) \<Longrightarrow> fed V 1024 (chans s) (chans s') r"
proof -
  let ?name = "topic_name (p_topic p)"
  define s1 where "s1 = ensure_topic B ?name s"
  define s2 where "s2 = deliver B p s1"
  note eq = publish_eq [OF shared_invD(1) [OF inv], of B p, folded s1_def, folded s2_def]
  have s': "s' = retain_packet p s2" by (simp add: s'_def eq)
  note e = ensure_topic_law [OF inv, of ?name, folded s1_def]
  note d = deliver_law [OF e(1), where p = p, folded s2_def]
  have same: "chans s' = chans s2" by (simp add: s' retain_packet_def set_retained_def)
  have sub: "subscribers ?name (topic_view V s1) = subscribers ?name (topic_view V s)"
    by (simp add: e(3) subscribers_def split: option.splits)
  show "fst (topics_publish B p s) = Ok ()" by (simp add: eq)
  show "shared_inv V s'" using d(1) shared_inv_retained by (auto simp: s' retain_packet_def)
  show "rxs V (chans s') = rxs V (chans s)" by (simp add: same d(2) e(2))
  show "topic_view V s' = spec_publish p (topic_view V s)"
    by (auto simp: s' retain_packet_def topic_view_set_retained d(3) e(3) spec_publish_def Let_def
        split: option.splits prod.splits)
  show "same_queues V (rxs V (chans s) - subscribers ?name (topic_view V s)) (chans s) (chans s')"
    using e(4) d(4) by (auto simp: same_queues_def same sub e(2))
  show "fed V 1024 (chans s) (chans s') r" if "r \<in> rxs V (chans s)"
    using that e(4) d(6) [where r = r] fed_same [of V "chans s1" r "chans s" 1024]
    by (auto simp: same e(2) same_queues_def intro: fed_trans)
  assume r: "r \<in> subscribers ?name (topic_view V s)" and room: "length (unread V (chans s) r) < 1024"
  have "r \<in> rxs V (chans s)"
    using r topic_view_live [OF inv, of ?name] by (auto simp: subscribers_def split: option.splits)
  then have "unread V (chans s1) r = unread V (chans s) r" "missed V (chans s1) r = missed V (chans s) r"
    using e(4) by (auto simp: same_queues_def)
  then show "unread V (chans s') r = unread V (chans s) r @ [Publish p] \<and> missed V (chans s') r = missed V (chans s) r"
    using d(5) [where r = r] r room by (simp add: same sub)
qed

text \<open>Queues that stay the same are a special case of being fed.\<close>

lemma same_queues_fed: "same_queues V R w w' \<Longrightarrow> r \<in> R \<Longrightarrow> fed V c w w' r"
  by (simp add: same_queues_def fed_same)

text \<open>Subscribing: a fresh, empty receiver joins the subscribers of the topic.\<close>

lemma subscribe_law:
  assumes inv: "shared_inv V s" and eq: "topics_subscribe B name s = (res, s')"
  shows "\<exists>rx. res = Ok rx \<and> shared_inv V s' \<and> rx \<notin> rxs V (chans s) \<and>
    rxs V (chans s') = insert rx (rxs V (chans s)) \<and>
    topic_view V s' = spec_subscribe name rx (topic_view V s) \<and>
    unread V (chans s') rx = [] \<and> missed V (chans s') rx = 0 \<and>
    same_queues V (rxs V (chans s)) (chans s) (chans s')"
proof (cases "bt_get name (topics s)")
  case None
  with eq have "topics_add B name s = (res, s')" by (simp add: topics_subscribe_def)
  from add_law [OF inv None this] show ?thesis
    using None by (auto simp: spec_subscribe_def topic_view_def)
next
  case (Some ch)
  obtain rx w where sub: "b_subscribe B (sender ch) (chans s) = (rx, w)" by (metis surj_pair)
  with eq Some have r: "res = Ok rx" and s': "s' = s\<lparr>chans := w\<rparr>"
    by (auto simp: topics_subscribe_def)
  note law = subscribe [OF shared_invD(2) [OF inv] shared_invD(3) [OF inv Some] sub]
  have "shared_inv V s'" unfolding s' by (rule shared_inv_chans [OF inv]) (use law in auto)
  moreover have "topic_view V s' = spec_subscribe name rx (topic_view V s)"
  proof
    fix k
    show "topic_view V s' k = spec_subscribe name rx (topic_view V s) k"
    proof (cases "bt_get k (topics s)")
      case (Some ch')
      note get = \<open>bt_get name (topics s) = Some ch\<close>
      show ?thesis
      proof (cases "k = name")
        case True
        with law get show ?thesis by (simp add: s' topic_view_def spec_subscribe_def)
      next
        case False
        then have "sender ch' \<noteq> sender ch" using shared_invD(6) [OF inv Some get] by blast
        then have "subs V w (sender ch') = subs V (chans s) (sender ch')"
          using law shared_invD(3) [OF inv Some] by blast
        with False get Some show ?thesis by (simp add: s' topic_view_def spec_subscribe_def)
      qed
    next
      case None
      then show ?thesis using Some by (auto simp: s' topic_view_def spec_subscribe_def)
    qed
  qed
  ultimately show ?thesis using law r by (simp add: s' same_queues_def)
qed

text \<open>
  Adding a topic that exists reports the error, but only after the new channel has taken the
  place of the old one: the subscribers and the retained message of the topic are gone.
\<close>

lemma add_present_law:
  assumes inv: "shared_inv V s" and old: "bt_get name (topics s) = Some old"
    and add: "topics_add B name s = (r, s')"
  shows "r = Err (TopicAlreadyExists name) \<and> topic_view V s' name = Some (None, {}) \<and>
    bt_wf (topics s') \<and> (\<forall>k. k \<noteq> name \<longrightarrow> topic_view V s' k = topic_view V s k)"
proof -
  obtain tx rx w where ch: "b_channel B 1024 (chans s) = ((tx, rx), w)" by (metis surj_pair)
  define w1 where "w1 = b_drop_tx B (sender old) w"
  from add_present [OF old ch] add have r: "r = Err (TopicAlreadyExists name)"
    and s': "s' = s\<lparr>topics := bt_put name (channel_new tx) (topics s), chans := b_drop_rx B rx w1\<rparr>"
    by (auto simp: w1_def)
  note wf = shared_invD(1) [OF inv] and old_tx = shared_invD(3) [OF inv old]
  note c = channel [OF shared_invD(2) [OF inv] _ ch, simplified]
  have ntx: "tx \<noteq> sender old" using c old_tx by blast
  have oldw: "sender old \<in> txs V w" and okw: "ok V w" using c old_tx by auto
  note d = drop_tx [OF okw oldw, folded w1_def]
  have rx1: "rx \<in> rxs V w1" and ok1: "ok V w1" using c d by auto
  note e = drop_rx [OF ok1 rx1]
  have new: "subs V (b_drop_rx B rx w1) tx = {}" using c d e ntx by auto
  have other: "topic_view V s' k = topic_view V s k" if "k \<noteq> name" for k
  proof (cases "bt_get k (topics s)")
    case (Some ch')
    have tx': "sender ch' \<in> txs V (chans s)" "sender ch' \<noteq> sender old"
      using shared_invD(3,6) [OF inv] Some old that by blast+
    then have "sender ch' \<in> txs V w" "sender ch' \<in> txs V w1" using c d by auto
    then have "subs V (b_drop_rx B rx w1) (sender ch') = subs V (chans s) (sender ch') - {rx}"
      using c d e tx' by auto
    moreover have "rx \<notin> subs V (chans s) (sender ch')"
      using c subs_live [OF shared_invD(2) [OF inv] tx'(1)] by blast
    ultimately show ?thesis using Some that wf by (simp add: s' topic_view_def bt.get_put)
  qed (use that wf in \<open>simp add: s' topic_view_def bt.get_put\<close>)
  have "topic_view V s' name = Some (None, {})"
    using wf new by (simp add: s' topic_view_def bt.get_put channel_new_def)
  moreover have "bt_wf (topics s')" using wf by (auto simp: s')
  ultimately show ?thesis using other r by blast
qed

end

section \<open>Properties of the topic store\<close>

lemma shared_inv_default: "ok V w \<Longrightarrow> shared_inv V (topics_default w)"
  by (simp add: shared_inv_def topics_default_def)

text \<open>Publishing a list of packets in turn, for statements about histories.\<close>

fun publish_all :: "('w, 'tx, 'rx) broadcast_ops \<Rightarrow> publish_packet list \<Rightarrow> ('w, 'tx) shared \<Rightarrow> ('w, 'tx) shared" where
  "publish_all B [] s = s"
| "publish_all B (p # ps) s = publish_all B ps (snd (topics_publish B p s))"

lemma publish_wf: "bt_wf (topics s) \<Longrightarrow> bt_wf (topics (snd (topics_publish B p s)))"
  by (auto simp: publish_eq retain_packet_def set_retained_def deliver_def ensure_topic_def
      split: option.splits prod.splits)

lemma get_retained_publish:
  assumes "bt_wf (topics s)"
  shows "get_retained_message k (snd (topics_publish B p s)) =
    (if p_retain p \<and> topic_name (p_topic p) = k then Some p else get_retained_message k s)"
  using assms ensure_topic_present [OF assms, of "topic_name (p_topic p)" B]
  by (auto simp: publish_eq get_retained_message_def retain_packet_def set_retained_def deliver_def
      ensure_topic_def channel_new_def bt.get_upd bt.get_put split: option.splits prod.splits)

text \<open>Concrete stores for the witnesses, on the reference channels.\<close>

definition demo_store :: "(rworld, nat) shared" where
  "demo_store = snd (topics_subscribe rw_ops ''a'' (topics_default rw_init))"

lemma rw_ok_init: "ok rw_view rw_init"
  by (simp add: rw_view_def rw_ok_def rw_init_def)

lemma demo_store_eq:
  "topics_subscribe rw_ops ''a'' (topics_default rw_init) = (Ok 0, demo_store)"
  "demo_store = \<lparr>topics = [(''a'', \<lparr>sender = 0, retained_message = None\<rparr>)],
     chans = \<lparr>rw_next = 1, rw_chans = [(0, \<lparr>rc_cap = 1024, rc_log = [], rc_open = True\<rparr>)],
              rw_rxs = [(0, 0, 0)]\<rparr>\<rparr>"
  by (simp_all add: demo_store_def topics_subscribe_def topics_add_def topics_default_def bt_insert_def
      rw_ops_def rw_channel_def rw_init_def bt_new_def channel_new_def)

lemma demo_store_inv: "shared_inv rw_view demo_store"
  using rw.subscribe_law [OF shared_inv_default [OF rw_ok_init] demo_store_eq(1)] by blast

lemma demo_store_obs:
  "topic_view rw_view demo_store = [''a'' \<mapsto> (None, {0})]"
  "unread rw_view (chans demo_store) 0 = []" "rxs rw_view (chans demo_store) = {0}"
  by (auto simp: demo_store_eq(2) topic_view_def rw_view_def rw_subs_def rw_unread_def rw_cursor_def
      rw_live_def fun_eq_iff split: if_splits)

text \<open>
  C10. Publishing implements the specification of the store: in every well-formed state it succeeds,
  keeps the store well-formed, and changes what the users see of the topics exactly as
  \<open>spec_publish\<close> says: the topic exists afterwards, its retained message is replaced only by a
  packet with the retain flag, and no subscription is gained or lost.
\<close>

theorem publish_refines_spec:
  assumes "broadcast_channel B V" "shared_inv V s"
  shows "fst (topics_publish B p s) = Ok () \<and> shared_inv V (snd (topics_publish B p s)) \<and>
    topic_view V (snd (topics_publish B p s)) = spec_publish p (topic_view V s)"
  using broadcast_channel.publish_law(1,2,4) [OF assms] by blast

theorem publish_refines_spec_witness:
  "shared_inv rw_view demo_store \<and>
   topic_view rw_view (snd (topics_publish rw_ops (plain_publish ''a'' [7] True) demo_store)) =
     [''a'' \<mapsto> (Some (plain_publish ''a'' [7] True), {0})]"
  using publish_refines_spec [OF rw.broadcast_channel_axioms demo_store_inv,
      of "plain_publish ''a'' [7] True"] demo_store_inv
  by (simp add: demo_store_obs spec_publish_def Let_def)

text \<open>
  Delivery: a subscriber of the topic whose queue has room finds the message, once, at the end of
  its queue; the queues of all other receivers are untouched; and a subscriber that had read
  everything reads this message next.
\<close>

theorem publish_delivers:
  assumes "broadcast_channel B V" "shared_inv V s"
    and "r \<in> subscribers (topic_name (p_topic p)) (topic_view V s)"
    and "length (unread V (chans s) r) < 1024"
  shows "unread V (chans (snd (topics_publish B p s))) r = unread V (chans s) r @ [Publish p] \<and>
    (\<forall>r'\<in>rxs V (chans s). r' \<notin> subscribers (topic_name (p_topic p)) (topic_view V s) \<longrightarrow>
       unread V (chans (snd (topics_publish B p s))) r' = unread V (chans s) r')"
  using broadcast_channel.publish_law(5,6) [OF assms(1,2), where p = p] assms(3,4)
  by (simp add: same_queues_def)

theorem publish_delivers_witness:
  "0 \<in> subscribers ''a'' (topic_view rw_view demo_store) \<and>
   unread rw_view (chans (snd (topics_publish rw_ops (plain_publish ''a'' [7] False) demo_store))) 0 =
     [Publish (plain_publish ''a'' [7] False)]"
  using publish_delivers [OF rw.broadcast_channel_axioms demo_store_inv, of 0 "plain_publish ''a'' [7] False"]
  by (simp add: demo_store_obs subscribers_def)

text \<open>
  C30. Subscribing implements the specification: it always succeeds with a receiver that was not in
  use, adds exactly that receiver to the subscribers of exactly that topic (creating it if needed),
  keeps retained messages and the queues of all other receivers.
\<close>

theorem subscribe_refines_spec:
  assumes "broadcast_channel B V" "shared_inv V s"
  shows "\<exists>rx s'. topics_subscribe B name s = (Ok rx, s') \<and> shared_inv V s' \<and> rx \<notin> rxs V (chans s) \<and>
    topic_view V s' = spec_subscribe name rx (topic_view V s) \<and> unread V (chans s') rx = [] \<and>
    same_queues V (rxs V (chans s)) (chans s) (chans s')"
  using broadcast_channel.subscribe_law [OF assms] by (metis surj_pair)

theorem subscribe_refines_spec_witness:
  "\<exists>rx s'. topics_subscribe rw_ops ''a'' demo_store = (Ok rx, s') \<and> rx \<noteq> 0 \<and>
    topic_view rw_view s' ''a'' = Some (None, {0, rx})"
proof -
  from subscribe_refines_spec [OF rw.broadcast_channel_axioms demo_store_inv, of "''a''"]
  obtain rx s' where "topics_subscribe rw_ops ''a'' demo_store = (Ok rx, s')"
    "rx \<notin> {0}" "topic_view rw_view s' = spec_subscribe ''a'' rx [''a'' \<mapsto> (None, {0})]"
    unfolding demo_store_obs by blast
  then show ?thesis by (auto simp: spec_subscribe_def)
qed

text \<open>
  From subscription to reception: whatever the state before, a receiver obtained by subscribing to
  a topic has nothing to read, and after a packet has been published to that topic the next
  receive returns that packet.
\<close>

theorem subscribe_publish_recv:
  assumes "broadcast_channel B V" "shared_inv V s"
    and "topics_subscribe B (topic_name (p_topic p)) s = (Ok rx, s')"
  shows "b_is_empty B rx (chans s') \<and>
    fst (b_recv B rx (chans (snd (topics_publish B p s')))) = RecvOk (Publish p)"
proof -
  let ?s2 = "snd (topics_publish B p s')"
  note sub = broadcast_channel.subscribe_law [OF assms, simplified]
  from sub have inv: "shared_inv V s'" and rx: "rx \<in> rxs V (chans s')"
    and q: "unread V (chans s') rx = []" "missed V (chans s') rx = 0" by auto
  have "rx \<in> subscribers (topic_name (p_topic p)) (topic_view V s')"
    using sub by (auto simp: spec_subscribe_def subscribers_def split: option.splits)
  then have q2: "unread V (chans ?s2) rx = [Publish p]" "missed V (chans ?s2) rx = 0"
    using broadcast_channel.publish_law(6) [OF assms(1) inv, of rx p] q by auto
  have "ok V (chans ?s2)" "rx \<in> rxs V (chans ?s2)"
    using broadcast_channel.publish_law(2,3) [OF assms(1) inv, where p = p] rx shared_invD(2) by auto
  then show ?thesis
    using broadcast_channel.recv_progress [OF assms(1), of "chans ?s2" rx] q2
      broadcast_channel.is_empty [OF assms(1) shared_invD(2) [OF inv] rx] q by simp
qed

theorem subscribe_publish_recv_witness:
  "b_is_empty rw_ops 0 (chans demo_store) \<and>
   fst (b_recv rw_ops 0 (chans (snd (topics_publish rw_ops (plain_publish ''a'' [7] False) demo_store)))) =
     RecvOk (Publish (plain_publish ''a'' [7] False))"
  using subscribe_publish_recv [OF rw.broadcast_channel_axioms shared_inv_default [OF rw_ok_init],
      of "plain_publish ''a'' [7] False" 0 demo_store] demo_store_eq(1)
  by simp

text \<open>
  C29. Retention over a whole history: after any sequence of publications the store returns, for every
  topic, the last packet with the retain flag that was published to it, or what it held before if
  there was none.
\<close>

theorem retained_is_last_retained_publish:
  assumes "bt_wf (topics s)"
  shows "get_retained_message k (publish_all B ps s) =
    (let kept = filter (\<lambda>p. p_retain p \<and> topic_name (p_topic p) = k) ps
     in if kept = [] then get_retained_message k s else Some (last kept))"
  using assms
proof (induction ps arbitrary: s)
  case (Cons p ps)
  from Cons.IH [OF publish_wf [OF Cons.prems], of B p] show ?case
    by (simp add: get_retained_publish [OF Cons.prems] Let_def)
qed simp

theorem retained_is_last_retained_publish_witness:
  "get_retained_message ''a'' (publish_all rw_ops
     [plain_publish ''a'' [1] True, plain_publish ''a'' [2] True, plain_publish ''a'' [3] False,
      plain_publish ''b'' [4] True] demo_store) = Some (plain_publish ''a'' [2] True)"
proof -
  have "bt_wf (topics demo_store)" by (rule shared_invD(1) [OF demo_store_inv])
  then show ?thesis
    by (simp add: retained_is_last_retained_publish Let_def del: publish_all.simps)
qed

text \<open>
  The error path of \<open>add\<close>: on a topic that exists the call returns the error \<open>TopicAlreadyExists\<close>,
  and by then the topic has been replaced by an empty one without subscribers and without a
  retained message; all other topics are as before.
\<close>

theorem add_existing_resets_topic:
  assumes "broadcast_channel B V" "shared_inv V s" "bt_get name (topics s) = Some old"
  shows "fst (topics_add B name s) = Err (TopicAlreadyExists name) \<and>
    topic_view V (snd (topics_add B name s)) = (topic_view V s)(name \<mapsto> (None, {}))"
  using broadcast_channel.add_present_law [OF assms, of "fst (topics_add B name s)" "snd (topics_add B name s)"]
  by (auto simp: fun_eq_iff)

theorem add_existing_resets_topic_witness:
  "fst (topics_add rw_ops ''a'' demo_store) = Err (TopicAlreadyExists ''a'') \<and>
   topic_view rw_view demo_store ''a'' = Some (None, {0}) \<and>
   topic_view rw_view (snd (topics_add rw_ops ''a'' demo_store)) ''a'' = Some (None, {})"
proof -
  have "bt_get ''a'' (topics demo_store) = Some \<lparr>sender = 0, retained_message = None\<rparr>"
    by (simp add: demo_store_eq(2))
  from add_existing_resets_topic [OF rw.broadcast_channel_axioms demo_store_inv this]
  show ?thesis by (simp add: demo_store_obs)
qed

end
