(* ===== verification/Configuration.thy ===== *)
theory Configuration
  imports Errors
begin

text \<open>
  The configuration of \<open>src/src/config.rs\<close>: its structs, and \<open>Configuration::load\<close>, which reads
  \<open>config.toml\<close> and then the environment. Reading and deserialising belong to the crates \<open>config\<close> and
  \<open>serde\<close> and are arguments. The Cargo features are the record \<open>features\<close>; a field that exists
  only with its feature is an option.
\<close>

record features =
  feat_secure :: bool
  feat_docker :: bool
  feat_bq_logging :: bool
  feat_redis :: bool
  feat_tokio_console :: bool

text \<open>The default features of \<open>Cargo.toml\<close>.\<close>

definition default_features :: features where
  "default_features = \<lparr>feat_secure = True, feat_docker = False, feat_bq_logging = False,
     feat_redis = False, feat_tokio_console = False\<rparr>"

record ports =
  tcp :: u16
  ws :: u16

record tls =
  certfile :: string
  keyfile :: string

record general =
  websocket :: bool
  timeout :: u16

record big_query =
  project_id :: string
  dataset_id :: string
  table_id :: string
  credentials_path :: string

record redis_settings =
  redis_host :: string
  redis_port :: u16

record configuration =
  cfg_ports :: ports
  cfg_tls :: tls
  cfg_general :: general
  cfg_bigquery :: "big_query option"
  cfg_redis :: "redis_settings option"

datatype config_source = ConfigFile string | EnvironmentPrefix string

text \<open>
  \<open>'c\<close> is the merged configuration tree; a later source overrides an earlier one when the crate
  builds it.
\<close>

record 'c config_lib =
  config_build :: "config_source list \<Rightarrow> string + 'c"
  try_deserialize :: "'c \<Rightarrow> string + configuration"

definition load :: "'c config_lib \<Rightarrow> configuration result" where
  "load C =
     (case config_build C [ConfigFile ''config.toml'', EnvironmentPrefix ''mcloudtt''] of
        Inl e \<Rightarrow> Err (from_config_error e)
      | Inr c \<Rightarrow>
          (case try_deserialize C c of
             Inl e \<Rightarrow> Err (from_config_error e)
           | Inr settings \<Rightarrow> Ok settings))"

text \<open>The lazily initialised global \<open>SETTINGS\<close> unwraps the loaded configuration.\<close>

definition SETTINGS :: "(mcloud_error \<Rightarrow> string) \<Rightarrow> 'c config_lib \<Rightarrow> configuration result" where
  "SETTINGS dbg C =
     (case load C of
        Ok settings \<Rightarrow> Ok settings
      | Err e \<Rightarrow> Panic (UnwrapErr (dbg e))
      | Panic p \<Rightarrow> Panic p)"

lemma load_never_panics: "load C \<noteq> Panic p"
  by (simp add: load_def split: sum.splits)

end
