(* ===== verification/Platform.thy ===== *)
theory Platform
  imports Topics Configuration
begin

text \<open>
  What surrounds a connection. Calls to the outside (writing to the client's stream, sending on the
  channel to the Redis task, the BigQuery client) are entries of a log; what such a call returns
  is decided by the record \<open>env\<close> of answer functions, each of which may depend on everything that
  was called before. The record \<open>platform\<close> collects the libraries, the features the broker is
  compiled with, the loaded settings and whether arithmetic overflow is checked.
  The theory also models \<open>src/src/bigquery.rs\<close>.
\<close>

section \<open>External calls\<close>

type_synonym mpsc_id = nat

text \<open>The row of \<open>src/src/bigquery.rs\<close>.\<close>

record log_entry =
  le_topic :: string
  le_message :: string
  le_datetime :: string

datatype io_call =
    WriteAll bytes "io_error option"
  | Shutdown "io_error option"
  | MpscSend mpsc_id publish_packet bool
  | BqKeyFile string "string option"
  | BqInsertAll string string string log_entry "string option"

text \<open>
  Answers: \<open>None\<close> is success, \<open>Some\<close> the error. A send on an \<open>mpsc\<close> channel fails only when the
  receiver is gone; the answer is whether it was accepted.
\<close>

record env =
  env_write_all :: "io_call list \<Rightarrow> bytes \<Rightarrow> io_error option"
  env_shutdown :: "io_call list \<Rightarrow> io_error option"
  env_mpsc_send :: "io_call list \<Rightarrow> mpsc_id \<Rightarrow> publish_packet \<Rightarrow> bool"
  env_utc_now :: "io_call list \<Rightarrow> string"
  env_key_file :: "io_call list \<Rightarrow> string \<Rightarrow> string option"
  env_insert_all :: "io_call list \<Rightarrow> string \<Rightarrow> string \<Rightarrow> string \<Rightarrow> log_entry \<Rightarrow> string option"

record ('w, 'tx, 'rx, 'will) platform =
  bc :: "('w, 'tx, 'rx) broadcast_ops"
  mqtt :: "'will mqtt_lib"
  env :: env
  feat :: features
  settings :: configuration
  overflow_checks :: bool

section \<open>UTF-8\<close>

text \<open>
  The validity check of \<open>str::from_utf8\<close>: no overlong form, no surrogate, nothing above U+10FFFF.
\<close>

definition in_range :: "u8 \<Rightarrow> u8 \<Rightarrow> u8 \<Rightarrow> bool" where
  "in_range lo hi b \<longleftrightarrow> lo \<le> b \<and> b \<le> hi"

abbreviation utf8_tail :: "u8 \<Rightarrow> bool" where
  "utf8_tail \<equiv> in_range 0x80 0xBF"

definition utf8_lead3 :: "u8 \<Rightarrow> u8 \<Rightarrow> bool" where
  "utf8_lead3 b c \<longleftrightarrow>
     b = 0xE0 \<and> in_range 0xA0 0xBF c \<or> in_range 0xE1 0xEC b \<and> utf8_tail c \<or>
     b = 0xED \<and> in_range 0x80 0x9F c \<or> in_range 0xEE 0xEF b \<and> utf8_tail c"

definition utf8_lead4 :: "u8 \<Rightarrow> u8 \<Rightarrow> bool" where
  "utf8_lead4 b c \<longleftrightarrow>
     b = 0xF0 \<and> in_range 0x90 0xBF c \<or> in_range 0xF1 0xF3 b \<and> utf8_tail c \<or>
     b = 0xF4 \<and> in_range 0x80 0x8F c"

fun valid_utf8 :: "bytes \<Rightarrow> bool" where
  "valid_utf8 [] = True"
| "valid_utf8 (b # bs) =
     (if b < 0x80 then valid_utf8 bs
      else if in_range 0xC2 0xDF b then
        (case bs of c # bs' \<Rightarrow> utf8_tail c \<and> valid_utf8 bs' | _ \<Rightarrow> False)
      else if in_range 0xE0 0xEF b then
        (case bs of c # d # bs' \<Rightarrow> utf8_lead3 b c \<and> utf8_tail d \<and> valid_utf8 bs' | _ \<Rightarrow> False)
      else if in_range 0xF0 0xF4 b then
        (case bs of
           c # d # e # bs' \<Rightarrow> utf8_lead4 b c \<and> utf8_tail d \<and> utf8_tail e \<and> valid_utf8 bs'
         | _ \<Rightarrow> False)
      else False)"

definition from_utf8 :: "bytes \<Rightarrow> string option" where
  "from_utf8 bs = (if valid_utf8 bs then Some (map (char_of \<circ> unat) bs) else None)"

section \<open>BigQuery logging\<close>

text \<open>
  \<open>log_in_bq\<close>: the key file is unwrapped, a failed insertion is only reported to the log.
\<close>

definition log_in_bq :: "env \<Rightarrow> big_query \<Rightarrow> string \<Rightarrow> string \<Rightarrow> (io_call list, mcloud_error, unit) io" where
  "log_in_bq E config topic message l =
     (let log_entry = \<lparr>le_topic = topic, le_message = message, le_datetime = env_utc_now E l\<rparr>;
          k = env_key_file E l (credentials_path config);
          l1 = l @ [BqKeyFile (credentials_path config) k]
      in case k of
           Some e \<Rightarrow> (Panic (UnwrapErr e), l1)
         | None \<Rightarrow>
             let r = env_insert_all E l1 (project_id config) (dataset_id config) (table_id config) log_entry
             in (Ok (), l1 @ [BqInsertAll (project_id config) (dataset_id config) (table_id config) log_entry r]))"

lemma log_in_bq_appends: "\<exists>l'. snd (log_in_bq E config topic message l) = l @ l'"
  by (simp add: log_in_bq_def Let_def split: option.splits)

lemma log_in_bq_no_err: "fst (log_in_bq E config topic message l) \<noteq> Err e"
  by (simp add: log_in_bq_def Let_def split: option.splits)

end
