(* ===== verification/Client.thy ===== *)
theory Client
  imports Platform
begin

text \<open>
  The packet handlers of \<open>src/src/tcp_handling.rs\<close>: the struct \<open>Client\<close>, \<open>Client::new\<close>, one
  definition per handler, \<open>write_to_stream\<close>, \<open>publish_will\<close> and the dispatcher \<open>handle_packet\<close>. A
  handler works on \<open>conn\<close>: the client's own fields, the topic store shared with all other
  connections, and the log of external calls. The select loop that calls them is in theory
  \<open>Connection\<close>.
\<close>

section \<open>State\<close>

record outgoing_message =
  om_packet :: publish_packet
  om_counter :: message_expiry_interval

record ('rx, 'will) client =
  cl_sender :: mpsc_id
  receivers :: "(string, 'rx) btree"
  will :: "'will option"
  outgoing_messages :: "outgoing_message list"
  redis_sender :: mpsc_id
  client_id :: assigned_client_identifier

record ('w, 'tx, 'rx, 'will) conn =
  client :: "('rx, 'will) client"
  shared :: "('w, 'tx) shared"
  iolog :: "io_call list"

type_synonym ('w, 'tx, 'rx, 'will, 'a) handler = "(('w, 'tx, 'rx, 'will) conn, mcloud_error, 'a) io"

text \<open>\<open>rng\<close> is the sequence of characters that the random generator samples.\<close>

definition client_new :: "(nat \<Rightarrow> char) \<Rightarrow> mpsc_id \<Rightarrow> mpsc_id \<Rightarrow> ('rx, 'will) client" where
  "client_new rng snd_id redis_id =
     \<lparr>cl_sender = snd_id, receivers = bt_new, will = None, outgoing_messages = [],
      redis_sender = redis_id, client_id = map rng [0..<16]\<rparr>"

definition on_shared ::
    "(('w, 'tx) shared, mcloud_error, 'a) io \<Rightarrow> ('w, 'tx, 'rx, 'will, 'a) handler" where
  "on_shared = zoom_io shared (\<lambda>x s. s\<lparr>shared := x\<rparr>)"

definition on_iolog ::
    "(io_call list, mcloud_error, 'a) io \<Rightarrow> ('w, 'tx, 'rx, 'will, 'a) handler" where
  "on_iolog = zoom_io iolog (\<lambda>x s. s\<lparr>iolog := x\<rparr>)"

definition update_client ::
    "(('rx, 'will) client \<Rightarrow> ('rx, 'will) client) \<Rightarrow> ('w, 'tx, 'rx, 'will, unit) handler" where
  "update_client f = modify_io (\<lambda>s. s\<lparr>client := f (client s)\<rparr>)"

section \<open>Writing to the stream\<close>

definition write_to_stream ::
    "('w, 'tx, 'rx, 'will) platform \<Rightarrow> 'will packet \<Rightarrow> ('w, 'tx, 'rx, 'will, unit) handler" where
  "write_to_stream P packet s =
     (let buf = encode_mqtt (mqtt P) packet V500;
          r = env_write_all (env P) (iolog s) buf;
          s' = s\<lparr>iolog := iolog s @ [WriteAll buf r]\<rparr>
      in case r of
           None \<Rightarrow> (Ok (), s')
         | Some e \<Rightarrow> (Err (CouldNotWriteToStream (ioe_text e)), s'))"

section \<open>Handlers\<close>

definition handle_pingreq_packet ::
    "('w, 'tx, 'rx, 'will) platform \<Rightarrow> ('w, 'tx, 'rx, 'will, unit) handler" where
  "handle_pingreq_packet P = write_to_stream P PingResponse"

text \<open>\<open>self.redis_sender.send(packet.clone()).await.expect(..)\<close>\<close>

definition send_to_redis ::
    "('w, 'tx, 'rx, 'will) platform \<Rightarrow> publish_packet \<Rightarrow> ('w, 'tx, 'rx, 'will, unit) handler" where
  "send_to_redis P packet s =
     (let ch = redis_sender (client s);
          accepted = env_mpsc_send (env P) (iolog s) ch packet;
          s' = s\<lparr>iolog := iolog s @ [MpscSend ch packet accepted]\<rparr>
      in if accepted then (Ok (), s')
         else (Panic (ExpectFailed ''Could not send message to redis''), s'))"

text \<open>
  \<open>log_in_bq\<close> of the topic name and the payload as a string, which is unwrapped. The settings have the
  BigQuery section whenever the broker is compiled with the feature, so the last case does not arise.
\<close>

definition log_publish ::
    "('w, 'tx, 'rx, 'will) platform \<Rightarrow> publish_packet \<Rightarrow> ('w, 'tx, 'rx, 'will, unit) handler" where
  "log_publish P packet =
     (case (from_utf8 (p_payload packet), cfg_bigquery (settings P)) of
        (Some text, Some config) \<Rightarrow> on_iolog (log_in_bq (env P) config (topic_name (p_topic packet)) text)
      | (None, _) \<Rightarrow> panic_io (UnwrapErr ''Utf8Error'')
      | (Some _, None) \<Rightarrow> ret_io ())"

definition puback_for :: "u16 \<Rightarrow> publish_ack_reason \<Rightarrow> publish_ack_packet" where
  "puback_for pid reason_code =
     \<lparr>pa_packet_id = pid, pa_reason_code = reason_code, pa_reason_string = None,
      pa_user_properties = []\<rparr>"

definition handle_publish_packet ::
    "('w, 'tx, 'rx, 'will) platform \<Rightarrow> publish_packet \<Rightarrow> ('w, 'tx, 'rx, 'will, unit) handler" where
  "handle_publish_packet P packet =
     bind_io
       (match_io (on_shared (topics_publish (bc P) packet)) (\<lambda>r.
          ret_io (case r of Inr _ \<Rightarrow> PublishSuccess | Inl _ \<Rightarrow> UnspecifiedError)))
       (\<lambda>reason_code.
     then_io (if feat_redis (feat P) then send_to_redis P packet else ret_io ())
     (then_io
       (case p_qos packet of
          AtMostOnce \<Rightarrow> ret_io ()
        | AtLeastOnce \<Rightarrow>
            (case p_packet_id packet of
               None \<Rightarrow> panic_io UnwrapNone
             | Some pid \<Rightarrow> write_to_stream P (PublishAck (puback_for pid reason_code)))
        | ExactlyOnce \<Rightarrow> ret_io ())
       (if feat_bq_logging (feat P) then log_publish P packet else ret_io ())))"

definition handle_publishack_packet :: "publish_ack_packet \<Rightarrow> ('w, 'tx, 'rx, 'will, unit) handler" where
  "handle_publishack_packet packet =
     update_client (\<lambda>c. c\<lparr>outgoing_messages :=
       filter (\<lambda>p. p_packet_id (om_packet p) \<noteq> Some (pa_packet_id packet)) (outgoing_messages c)\<rparr>)"

text \<open>
  \<open>self.receivers.insert(f, receiver)\<close>: a receiver that was stored under the same filter is dropped.
\<close>

definition insert_receiver ::
    "('w, 'tx, 'rx, 'will) platform \<Rightarrow> string \<Rightarrow> 'rx \<Rightarrow> ('w, 'tx, 'rx, 'will, unit) handler" where
  "insert_receiver P f rx s =
     (case bt_insert f rx (receivers (client s)) of (old, m) \<Rightarrow>
        let s' = s\<lparr>client := (client s)\<lparr>receivers := m\<rparr>\<rparr>
        in case old of
             None \<Rightarrow> (Ok (), s')
           | Some rx' \<Rightarrow>
               (Ok (), s'\<lparr>shared := (shared s)\<lparr>chans := b_drop_rx (bc P) rx' (chans (shared s))\<rparr>\<rparr>))"

definition register_receiver ::
    "('w, 'tx, 'rx, 'will) platform \<Rightarrow> string \<Rightarrow> ('w, 'tx, 'rx, 'will, unit) handler" where
  "register_receiver P f = bind_io (on_shared (topics_subscribe (bc P) f)) (insert_receiver P f)"

definition send_retained ::
    "('w, 'tx, 'rx, 'will) platform \<Rightarrow> string \<Rightarrow> ('w, 'tx, 'rx, 'will, unit) handler" where
  "send_retained P f =
     bind_io (get_io (\<lambda>s. get_retained_message f (shared s))) (\<lambda>retained.
       case retained of
         Some msg \<Rightarrow> write_to_stream P (PublishP msg)
       | None \<Rightarrow> ret_io ())"

definition subscribe_concrete ::
    "('w, 'tx, 'rx, 'will) platform \<Rightarrow> string \<Rightarrow> ('w, 'tx, 'rx, 'will, unit) handler" where
  "subscribe_concrete P f = then_io (register_receiver P f) (send_retained P f)"

text \<open>The \<open>for\<close> loop of \<open>handle_subscribe_packet\<close>, with the reason codes pushed so far.\<close>

fun subscribe_loop ::
    "('w, 'tx, 'rx, 'will) platform \<Rightarrow> subscription_topic list \<Rightarrow> subscribe_ack_reason list \<Rightarrow>
     ('w, 'tx, 'rx, 'will, subscribe_ack_reason list) handler" where
  "subscribe_loop P [] codes = ret_io codes"
| "subscribe_loop P (t # ts) codes =
     (case st_topic_filter t of
        Concrete f _ \<Rightarrow>
          then_io (subscribe_concrete P f) (subscribe_loop P ts (codes @ [GrantedQoSZero]))
      | Wildcard _ _ \<Rightarrow> subscribe_loop P ts (codes @ [WildcardSubscriptionsNotSupported])
      | SharedConcrete _ \<Rightarrow> subscribe_loop P ts (codes @ [SharedSubscriptionsNotSupported])
      | SharedWildcard _ \<Rightarrow> subscribe_loop P ts (codes @ [SharedSubscriptionsNotSupported]))"

definition suback_for :: "subscribe_packet \<Rightarrow> subscribe_ack_reason list \<Rightarrow> subscribe_ack_packet" where
  "suback_for packet codes =
     \<lparr>sa_packet_id = s_packet_id packet, sa_reason_string = None, sa_user_properties = [],
      sa_reason_codes = codes\<rparr>"

definition handle_subscribe_packet ::
    "('w, 'tx, 'rx, 'will) platform \<Rightarrow> subscribe_packet \<Rightarrow> ('w, 'tx, 'rx, 'will, unit) handler" where
  "handle_subscribe_packet P packet =
     bind_io (subscribe_loop P (s_subscription_topics packet) []) (\<lambda>codes.
     write_to_stream P (SubscribeAck (suback_for packet codes)))"

definition connack_for :: "('w, 'tx, 'rx, 'will) platform \<Rightarrow> assigned_client_identifier \<Rightarrow> connect_ack_packet" where
  "connack_for P cid =
     \<lparr>ca_session_present = False, ca_reason_code = ConnectSuccess, ca_session_expiry_interval = None,
      ca_receive_maximum = None, ca_maximum_qos = Some AtLeastOnce, ca_retain_available = None,
      ca_maximum_packet_size = Some 1024, ca_assigned_client_identifier = Some cid,
      ca_topic_alias_maximum = None, ca_reason_string = None, ca_user_properties = [],
      ca_wildcard_subscription_available = None, ca_subscription_identifiers_available = None,
      ca_shared_subscription_available = None,
      ca_server_keep_alive = Some (timeout (cfg_general (settings P))),
      ca_response_information = None, ca_server_reference = None, ca_authentication_method = None,
      ca_authentication_data = None\<rparr>"

definition handle_connect_packet ::
    "('w, 'tx, 'rx, 'will) platform \<Rightarrow> 'will connect_packet \<Rightarrow> ('w, 'tx, 'rx, 'will, unit) handler" where
  "handle_connect_packet P packet =
     then_io
       (case c_will packet of
          Some w \<Rightarrow> update_client (\<lambda>c. c\<lparr>will := Some w\<rparr>)
        | None \<Rightarrow> ret_io ())
       (bind_io (get_io (\<lambda>s. client_id (client s))) (\<lambda>cid.
        write_to_stream P (ConnectAck (connack_for P cid))))"

definition publish_will :: "('w, 'tx, 'rx, 'will) platform \<Rightarrow> ('w, 'tx, 'rx, 'will, unit) handler" where
  "publish_will P =
     bind_io (get_io (\<lambda>s. will (client s))) (\<lambda>w.
       case w of
         None \<Rightarrow> ret_io ()
       | Some w \<Rightarrow> handle_publish_packet P (publish_from_will (mqtt P) w))"

definition handle_disconnect_packet ::
    "('w, 'tx, 'rx, 'will) platform \<Rightarrow> string \<Rightarrow> disconnect_packet \<Rightarrow> ('w, 'tx, 'rx, 'will, unit) handler" where
  "handle_disconnect_packet P peer packet =
     then_io
       (if d_reason_code packet = DisconnectWithWillMessage then publish_will P else ret_io ())
       (err_io (ClientDisconnected peer))"

text \<open>The closure of \<open>for_each\<close> over the filters; a removed receiver is dropped.\<close>

fun unsubscribe_loop ::
    "('w, 'tx, 'rx, 'will) platform \<Rightarrow> topic_filter list \<Rightarrow> unsubscribe_ack_reason list \<Rightarrow>
     ('w, 'tx, 'rx, 'will, unsubscribe_ack_reason list) handler" where
  "unsubscribe_loop P [] codes s = (Ok codes, s)"
| "unsubscribe_loop P (Concrete f l # ts) codes s =
     (case bt_remove f (receivers (client s)) of
        (Some rx, m) \<Rightarrow>
          unsubscribe_loop P ts (codes @ [UnsubscribeSuccess])
            (s\<lparr>client := (client s)\<lparr>receivers := m\<rparr>,
               shared := (shared s)\<lparr>chans := b_drop_rx (bc P) rx (chans (shared s))\<rparr>\<rparr>)
      | (None, m) \<Rightarrow>
          unsubscribe_loop P ts (codes @ [NoSubscriptionExisted])
            (s\<lparr>client := (client s)\<lparr>receivers := m\<rparr>\<rparr>))"
| "unsubscribe_loop P (t # ts) codes s = unsubscribe_loop P ts (codes @ [ImplementationSpecificError]) s"

definition unsuback_for :: "unsubscribe_packet \<Rightarrow> unsubscribe_ack_reason list \<Rightarrow> unsubscribe_ack_packet" where
  "unsuback_for packet codes =
     \<lparr>ua_packet_id = u_packet_id packet, ua_reason_codes = codes, ua_user_properties = [],
      ua_reason_string = None\<rparr>"

definition handle_unsubscribe_packet ::
    "('w, 'tx, 'rx, 'will) platform \<Rightarrow> unsubscribe_packet \<Rightarrow> ('w, 'tx, 'rx, 'will, unit) handler" where
  "handle_unsubscribe_packet P packet =
     bind_io (unsubscribe_loop P (u_topic_filters packet) []) (\<lambda>codes.
     write_to_stream P (UnsubscribeAck (unsuback_for packet codes)))"

text \<open>\<open>handle_packet\<close> decodes the buffer and dispatches on the packet.\<close>

definition dispatch ::
    "('w, 'tx, 'rx, 'will) platform \<Rightarrow> string \<Rightarrow> 'will packet option \<Rightarrow> ('w, 'tx, 'rx, 'will, unit) handler" where
  "dispatch P peer packet =
     (case packet of
        Some (Connect p) \<Rightarrow> handle_connect_packet P p
      | Some PingRequest \<Rightarrow> handle_pingreq_packet P
      | Some (PublishP p) \<Rightarrow> handle_publish_packet P p
      | Some (Subscribe p) \<Rightarrow> handle_subscribe_packet P p
      | Some (Disconnect p) \<Rightarrow> handle_disconnect_packet P peer p
      | Some (Unsubscribe p) \<Rightarrow> handle_unsubscribe_packet P p
      | Some (PublishAck p) \<Rightarrow> handle_publishack_packet p
      | _ \<Rightarrow> err_io UnknownPacketType)"

definition handle_packet ::
    "('w, 'tx, 'rx, 'will) platform \<Rightarrow> bytes \<Rightarrow> string \<Rightarrow> ('w, 'tx, 'rx, 'will, unit) handler" where
  "handle_packet P buf peer =
     (case decode_mqtt (mqtt P) buf V500 of
        Inl e \<Rightarrow> err_io (DecodePacketError e)
      | Inr packet \<Rightarrow> dispatch P peer packet)"

section \<open>Invariant and what a connection may do to the others\<close>

definition owned :: "('rx, 'will) client \<Rightarrow> 'rx set" where
  "owned c = {rx. \<exists>k. bt_get k (receivers c) = Some rx}"

text \<open>The topics a client is subscribed to, and the receivers it holds for them.\<close>

definition subscribed :: "('rx, 'will) client \<Rightarrow> string set" where
  "subscribed c = {k. bt_get k (receivers c) \<noteq> None}"

text \<open>Each stored receiver is subscribed to the topic it is stored under.\<close>

definition client_inv ::
    "('w, 'tx, 'rx) broadcast_view \<Rightarrow> ('rx, 'will) client \<Rightarrow> ('w, 'tx) shared \<Rightarrow> bool" where
  "client_inv V c sh \<longleftrightarrow> bt_wf (receivers c) \<and>
     (\<forall>k rx. bt_get k (receivers c) = Some rx \<longrightarrow> rx \<in> subscribers k (topic_view V sh))"

definition conn_inv :: "('w, 'tx, 'rx) broadcast_view \<Rightarrow> ('w, 'tx, 'rx, 'will) conn \<Rightarrow> bool" where
  "conn_inv V s \<longleftrightarrow> shared_inv V (shared s) \<and> client_inv V (client s) (shared s)"

text \<open>
  \<open>behaves V s s'\<close>: the step keeps the invariant of the connection, and every receiver that belongs
  to somebody else stays alive, is not taken over, keeps all its subscriptions, and has its queue
  at most added to.
\<close>

definition others_kept ::
    "('w, 'tx, 'rx) broadcast_view \<Rightarrow> 'rx set \<Rightarrow> ('w, 'tx) shared \<Rightarrow> ('w, 'tx) shared \<Rightarrow> bool" where
  "others_kept V R sh sh' \<longleftrightarrow>
     (\<forall>r\<in>rxs V (chans sh) - R. r \<in> rxs V (chans sh') \<and> fed V 1024 (chans sh) (chans sh') r \<and>
        (\<forall>k. r \<in> subscribers k (topic_view V sh) \<longrightarrow> r \<in> subscribers k (topic_view V sh')))"

definition behaves ::
    "('w, 'tx, 'rx) broadcast_view \<Rightarrow> ('w, 'tx, 'rx, 'will) conn \<Rightarrow> ('w, 'tx, 'rx, 'will) conn \<Rightarrow> bool" where
  "behaves V s s' \<longleftrightarrow> (conn_inv V s \<longrightarrow> conn_inv V s' \<and>
     others_kept V (owned (client s)) (shared s) (shared s') \<and>
     owned (client s') \<inter> rxs V (chans (shared s)) \<subseteq> owned (client s))"

interpretation behaves: io_preorder "behaves V" for V :: "('w, 'tx, 'rx) broadcast_view"
proof
  fix s :: "('w, 'tx, 'rx, 'will) conn"
  show "behaves V s s" by (auto simp: behaves_def others_kept_def)
next
  fix s t u :: "('w, 'tx, 'rx, 'will) conn"
  assume "behaves V s t" "behaves V t u"
  then show "behaves V s u" unfolding behaves_def others_kept_def by (blast intro: fed_trans)
qed

lemma behaves_same:
  "owned (client s') = owned (client s) \<Longrightarrow> bt_wf (receivers (client s')) = bt_wf (receivers (client s)) \<Longrightarrow>
   (\<And>k. bt_get k (receivers (client s')) = bt_get k (receivers (client s))) \<Longrightarrow>
   shared s' = shared s \<Longrightarrow> behaves V s s'"
  by (auto simp: behaves_def conn_inv_def client_inv_def others_kept_def)

lemma behaves_iolog: "behaves V s (s\<lparr>iolog := l\<rparr>)"
  by (rule behaves_same) simp_all

lemma tracks_write: "tracks (behaves V) (write_to_stream P packet)"
  by (rule tracksI) (simp add: write_to_stream_def Let_def behaves_iolog split: option.splits)

lemma tracks_send_to_redis: "tracks (behaves V) (send_to_redis P packet)"
  by (rule tracksI) (simp add: send_to_redis_def Let_def behaves_iolog)

lemma tracks_on_iolog: "tracks (behaves V) (on_iolog m)"
  by (rule tracksI) (simp add: on_iolog_def zoom_io_def behaves_iolog split: prod.splits)

lemma tracks_log_publish: "tracks (behaves V) (log_publish P packet)"
  by (simp add: log_publish_def tracks_on_iolog behaves.rules split: option.splits)

lemma tracks_update_client:
  assumes "\<And>c. receivers (f c) = receivers c"
  shows "tracks (behaves V) (update_client f)"
  by (rule tracksI) (auto simp: update_client_def assms owned_def intro: behaves_same)

lemma subscribers_publish:
  "subscribers k (spec_publish p T) = subscribers k T"
  by (auto simp: subscribers_def spec_publish_def Let_def split: option.splits prod.splits)

lemma subscribers_subscribe:
  "subscribers k (spec_subscribe f rx T) = (if k = f then insert rx (subscribers k T) else subscribers k T)"
  by (auto simp: subscribers_def spec_subscribe_def split: option.splits prod.splits)

lemma subscribers_drop: "subscribers k (spec_drop rx T) = subscribers k T - {rx}"
  by (auto simp: subscribers_def spec_drop_def split: option.splits prod.splits)

lemmas subscribers_specs = subscribers_publish subscribers_subscribe subscribers_drop

context broadcast_channel
begin

lemma tracks_publish:
  "tracks (behaves V :: ('w, 'tx, 'rx, 'will) conn \<Rightarrow> _) (on_shared (topics_publish B p))"
proof (rule tracksI)
  fix s :: "('w, 'tx, 'rx, 'will) conn"
  obtain r sh where eq: "topics_publish B p (shared s) = (r, sh)" by (metis surj_pair)
  have "behaves V s (s\<lparr>shared := sh\<rparr>)"
  proof (unfold behaves_def, intro impI)
    assume "conn_inv V s"
    then have inv: "shared_inv V (shared s)" and c: "client_inv V (client s) (shared s)"
      by (auto simp: conn_inv_def)
    note law = publish_law [OF inv, where p = p, unfolded eq, simplified]
    show "conn_inv V (s\<lparr>shared := sh\<rparr>) \<and>
      others_kept V (owned (client s)) (shared s) (shared (s\<lparr>shared := sh\<rparr>)) \<and>
      owned (client (s\<lparr>shared := sh\<rparr>)) \<inter> rxs V (chans (shared s)) \<subseteq> owned (client s)"
      using law(2,3,4,7) c by (simp add: conn_inv_def client_inv_def others_kept_def subscribers_specs)
  qed
  then show "behaves V s (snd (on_shared (topics_publish B p) s))"
    by (simp add: on_shared_def zoom_io_def eq)
qed

lemma tracks_handle_publish:
  assumes bcP: "bc P = B"
  shows "tracks (behaves V) (handle_publish_packet P p)"
  unfolding handle_publish_packet_def bcP
  by (intro behaves.rules) (auto intro: tracks_publish tracks_send_to_redis tracks_log_publish
      tracks_write behaves.rules split: qos.splits option.splits)

text \<open>Storing a fresh subscription, and dropping the receiver it replaces.\<close>

lemma client_inv_put:
  assumes c: "client_inv V c sh" and inv: "shared_inv V sh" "shared_inv V sh'"
    and view: "topic_view V sh' = spec_subscribe f rx (topic_view V sh)"
  shows "client_inv V (c\<lparr>receivers := bt_put f rx (receivers c)\<rparr>) sh'"
  using c by (auto simp: client_inv_def view subscribers_specs bt.get_put split: if_splits)

lemma client_inv_other:
  assumes c: "client_inv V c sh" and inv: "shared_inv V sh" and rx: "bt_get f (receivers c) = Some rx"
    and "k \<noteq> f" "bt_get k (receivers c) = Some r"
  shows "r \<noteq> rx"
proof -
  have "rx \<in> subscribers f (topic_view V sh)" "r \<in> subscribers k (topic_view V sh)"
    using assms by (auto simp: client_inv_def)
  then show ?thesis using subscribers_disjoint [OF inv, of k f] assms(4) by blast
qed

lemma owned_live: "client_inv V c sh \<Longrightarrow> shared_inv V sh \<Longrightarrow> owned c \<subseteq> rxs V (chans sh)"
  using subscribers_live by (fastforce simp: client_inv_def owned_def)

text \<open>
  A fresh receiver of a topic stored in the client's map, and the one it replaces, if any, dropped.
\<close>

lemma behaves_put:
  fixes s :: "('w, 'tx, 'rx, 'will) conn"
  assumes inv: "conn_inv V s" and inv': "shared_inv V sh" and fresh: "rx \<notin> rxs V (chans (shared s))"
    and live: "rxs V (chans sh) = insert rx (rxs V (chans (shared s)))"
    and view: "topic_view V sh = spec_subscribe f rx (topic_view V (shared s))"
    and queues: "same_queues V (rxs V (chans (shared s))) (chans (shared s)) (chans sh)"
  defines "c \<equiv> (client s)\<lparr>receivers := bt_put f rx (receivers (client s))\<rparr>"
  shows "behaves V s (s\<lparr>client := c, shared := sh\<rparr>)"
    "bt_get f (receivers (client s)) = Some rx' \<Longrightarrow>
       behaves V s (s\<lparr>client := c, shared := sh\<lparr>chans := b_drop_rx B rx' (chans sh)\<rparr>\<rparr>)"
proof -
  have sinv: "shared_inv V (shared s)" and c: "client_inv V (client s) (shared s)"
    using inv by (auto simp: conn_inv_def)
  have wf: "bt_wf (receivers (client s))" using c by (simp add: client_inv_def)
  have c': "client_inv V c sh" unfolding c_def by (rule client_inv_put [OF c sinv inv' view])
  have own: "owned c \<subseteq> insert rx (owned (client s))"
    using wf by (auto simp: c_def owned_def bt.get_put split: if_splits)
  show "behaves V s (s\<lparr>client := c, shared := sh\<rparr>)"
    using c' inv' own fresh same_queues_fed [OF queues]
    by (auto simp: behaves_def conn_inv_def others_kept_def live view subscribers_specs)
  assume old: "bt_get f (receivers (client s)) = Some rx'"
  have own': "rx' \<in> owned (client s)" using old by (auto simp: owned_def)
  then have "rx' \<in> rxs V (chans sh)" and neq: "rx \<noteq> rx'" using owned_live [OF c sinv] live fresh by auto
  note d = drop_law [OF inv' this(1)]
  have "client_inv V c (sh\<lparr>chans := b_drop_rx B rx' (chans sh)\<rparr>)"
    using c' client_inv_other [OF c sinv old] neq wf
    by (auto simp: client_inv_def c_def d(3) subscribers_specs bt.get_put split: if_splits)
  then show "behaves V s (s\<lparr>client := c, shared := sh\<lparr>chans := b_drop_rx B rx' (chans sh)\<rparr>\<rparr>)"
    using d own own' fresh fed_trans [OF same_queues_fed [OF queues] same_queues_fed [OF d(4)]]
    by (auto simp: behaves_def conn_inv_def others_kept_def live view subscribers_specs)
qed

lemma behaves_register:
  fixes s :: "('w, 'tx, 'rx, 'will) conn"
  assumes inv: "conn_inv V s" and bcP: "bc P = B"
  shows "\<exists>rx s2. register_receiver P f s = (Ok (), s2) \<and> behaves V s s2 \<and>
    rx \<notin> rxs V (chans (shared s)) \<and> rx \<in> rxs V (chans (shared s2)) \<and>
    client s2 = (client s)\<lparr>receivers := bt_put f rx (receivers (client s))\<rparr> \<and>
    unread V (chans (shared s2)) rx = [] \<and> missed V (chans (shared s2)) rx = 0 \<and>
    iolog s2 = iolog s \<and> topics (shared s2) = topics (snd (topics_subscribe B f (shared s)))"
proof -
  have sinv: "shared_inv V (shared s)" and c: "client_inv V (client s) (shared s)"
    using inv by (auto simp: conn_inv_def)
  obtain res sh where sub: "topics_subscribe B f (shared s) = (res, sh)" by (metis surj_pair)
  from subscribe_law [OF sinv sub] obtain rx where res: "res = Ok rx" and inv': "shared_inv V sh"
    and fresh: "rx \<notin> rxs V (chans (shared s))" and live: "rxs V (chans sh) = insert rx (rxs V (chans (shared s)))"
    and view: "topic_view V sh = spec_subscribe f rx (topic_view V (shared s))"
    and q: "unread V (chans sh) rx = []" "missed V (chans sh) rx = 0"
    and queues: "same_queues V (rxs V (chans (shared s))) (chans (shared s)) (chans sh)" by blast
  note put = behaves_put [OF inv inv' fresh live view queues]
  note reg = register_receiver_def on_shared_def zoom_io_def bind_io_def insert_receiver_def bt_insert_def
  show ?thesis
  proof (cases "bt_get f (receivers (client s))")
    case None
    have "register_receiver P f s = (Ok (), s\<lparr>client := (client s)\<lparr>receivers := bt_put f rx (receivers (client s))\<rparr>, shared := sh\<rparr>)"
      using sub res None bcP by (simp add: reg)
    then show ?thesis using put(1) fresh q live sub by (intro exI [of _ rx]) simp
  next
    case (Some rx')
    then have "rx' \<in> rxs V (chans (shared s))" using owned_live [OF c sinv] by (auto simp: owned_def)
    then have "rx' \<in> rxs V (chans sh)" and neq: "rx \<noteq> rx'" using live fresh by auto
    note d = drop_law [OF inv' this(1)]
    have "register_receiver P f s = (Ok (), s\<lparr>client := (client s)\<lparr>receivers := bt_put f rx (receivers (client s))\<rparr>,
        shared := sh\<lparr>chans := b_drop_rx B rx' (chans sh)\<rparr>\<rparr>)"
      using sub res Some bcP by (simp add: reg)
    moreover have "unread V (b_drop_rx B rx' (chans sh)) rx = []" "missed V (b_drop_rx B rx' (chans sh)) rx = 0"
      using d(4) q neq live by (auto simp: same_queues_def)
    ultimately show ?thesis using put(2) [OF Some] fresh neq live sub d(2) by (intro exI [of _ rx]) simp
  qed
qed

lemma tracks_register: "bc P = B \<Longrightarrow> tracks (behaves V) (register_receiver P f)"
  using behaves_register by (metis behaves_def snd_conv tracksI)

lemma tracks_subscribe_concrete: "bc P = B \<Longrightarrow> tracks (behaves V) (subscribe_concrete P f)"
  unfolding subscribe_concrete_def send_retained_def
  by (intro behaves.rules tracks_register) (auto intro: tracks_write behaves.rules split: option.splits)

lemma tracks_subscribe_loop: "bc P = B \<Longrightarrow> tracks (behaves V) (subscribe_loop P ts codes)"
  by (induction ts arbitrary: codes)
    (auto intro: behaves.rules tracks_subscribe_concrete split: topic_filter.splits)

lemma behaves_unsubscribe:
  fixes s :: "('w, 'tx, 'rx, 'will) conn"
  assumes inv: "conn_inv V s" and rx: "bt_get f (receivers (client s)) = Some rx"
  defines "s' \<equiv> s\<lparr>client := (client s)\<lparr>receivers := bt_del f (receivers (client s))\<rparr>,
    shared := (shared s)\<lparr>chans := b_drop_rx B rx (chans (shared s))\<rparr>\<rparr>"
  shows "behaves V s s'"
proof -
  have sinv: "shared_inv V (shared s)" and c: "client_inv V (client s) (shared s)"
    using inv by (auto simp: conn_inv_def)
  have own: "rx \<in> owned (client s)" using rx by (auto simp: owned_def)
  then have "rx \<in> rxs V (chans (shared s))" using owned_live [OF c sinv] by blast
  note d = drop_law [OF sinv this]
  have wf: "bt_wf (receivers (client s))" using c by (simp add: client_inv_def)
  have "client_inv V (client s') (shared s')"
    using c client_inv_other [OF c sinv rx] wf
    by (auto simp: client_inv_def s'_def d(3) subscribers_specs bt.get_del split: if_splits)
  then show ?thesis
    using d own wf same_queues_fed [OF d(4)]
    by (auto simp: behaves_def conn_inv_def s'_def others_kept_def subscribers_specs owned_def bt.get_del
        split: if_splits)
qed

lemma bt_del_absent: "bt_get k m = None \<Longrightarrow> bt_del k m = m"
  by (induction k m rule: bt_del.induct) (auto split: if_splits)

lemma behaves_unsubscribe_loop:
  "bc P = B \<Longrightarrow> behaves V s (snd (unsubscribe_loop P ts codes s))"
proof (induction P ts codes s rule: unsubscribe_loop.induct)
  case (2 P f l ts codes s)
  show ?case
  proof (cases "bt_get f (receivers (client s))")
    case None
    with 2 show ?thesis by (simp add: bt_remove_def bt_del_absent)
  next
    case (Some rx)
    have "behaves V s (s\<lparr>client := (client s)\<lparr>receivers := bt_del f (receivers (client s))\<rparr>,
        shared := (shared s)\<lparr>chans := b_drop_rx B rx (chans (shared s))\<rparr>\<rparr>)"
      using behaves_unsubscribe [OF _ Some] by (auto simp: behaves_def)
    with 2 Some show ?thesis by (auto simp: bt_remove_def intro: behaves.trans)
  qed
qed (simp_all add: behaves.refl)

lemma tracks_publish_will: "bc P = B \<Longrightarrow> tracks (behaves V) (publish_will P)"
  unfolding publish_will_def
  by (intro behaves.rules) (auto intro: tracks_handle_publish behaves.rules split: option.splits)

lemma tracks_dispatch: "bc P = B \<Longrightarrow> tracks (behaves V) (dispatch P peer packet)"
  unfolding dispatch_def handle_connect_packet_def handle_pingreq_packet_def handle_subscribe_packet_def
    handle_disconnect_packet_def handle_unsubscribe_packet_def handle_publishack_packet_def
  by (auto intro!: behaves.rules tracks_handle_publish tracks_write tracks_subscribe_loop
      tracks_publish_will tracks_update_client behaves_unsubscribe_loop tracksI [of _ "unsubscribe_loop _ _ _"]
      split: option.splits packet.splits)

lemma tracks_handle_packet: "bc P = B \<Longrightarrow> tracks (behaves V) (handle_packet P buf peer)"
  unfolding handle_packet_def by (auto intro: tracks_dispatch behaves.rules split: sum.splits)

end

section \<open>Functional behaviour of the handlers\<close>

text \<open>A stream on which every write succeeds.\<close>

definition writes_ok :: "('w, 'tx, 'rx, 'will) platform \<Rightarrow> bool" where
  "writes_ok P \<longleftrightarrow> (\<forall>l b. env_write_all (env P) l b = None)"

abbreviation written :: "('w, 'tx, 'rx, 'will) platform \<Rightarrow> 'will packet \<Rightarrow> io_call" where
  "written P packet \<equiv> WriteAll (encode_mqtt (mqtt P) packet V500) None"

lemma write_ok:
  "writes_ok P \<Longrightarrow> write_to_stream P packet s = (Ok (), s\<lparr>iolog := iolog s @ [written P packet]\<rparr>)"
  by (simp add: write_to_stream_def writes_ok_def Let_def)

lemma write_frame:
  "client (snd (write_to_stream P packet s)) = client s" "shared (snd (write_to_stream P packet s)) = shared s"
  by (simp_all add: write_to_stream_def Let_def split: option.splits)

lemma publish_on_shared:
  "bt_wf (topics (shared s)) \<Longrightarrow>
    on_shared (topics_publish B p) s = (Ok (), s\<lparr>shared := snd (topics_publish B p (shared s))\<rparr>)"
  by (simp add: on_shared_def zoom_io_def publish_eq)

lemma handle_publish_eq:
  assumes "bt_wf (topics (shared s))"
  shows "handle_publish_packet P packet s =
    then_io (if feat_redis (feat P) then send_to_redis P packet else ret_io ())
     (then_io
       (case p_qos packet of
          AtMostOnce \<Rightarrow> ret_io ()
        | AtLeastOnce \<Rightarrow>
            (case p_packet_id packet of
               None \<Rightarrow> panic_io UnwrapNone
             | Some pid \<Rightarrow> write_to_stream P (PublishAck (puback_for pid PublishSuccess)))
        | ExactlyOnce \<Rightarrow> ret_io ())
       (if feat_bq_logging (feat P) then log_publish P packet else ret_io ()))
     (s\<lparr>shared := snd (topics_publish (bc P) packet (shared s))\<rparr>)"
  using publish_on_shared [OF assms(1), of "bc P" packet]
  by (simp add: handle_publish_packet_def bind_io_def match_io_def)

fun sub_reason :: "topic_filter \<Rightarrow> subscribe_ack_reason" where
  "sub_reason (Concrete _ _) = GrantedQoSZero"
| "sub_reason (Wildcard _ _) = WildcardSubscriptionsNotSupported"
| "sub_reason (SharedConcrete _) = SharedSubscriptionsNotSupported"
| "sub_reason (SharedWildcard _) = SharedSubscriptionsNotSupported"

fun filter_name :: "topic_filter \<Rightarrow> string option" where
  "filter_name (Concrete f _) = Some f"
| "filter_name _ = None"

text \<open>The retained messages that a list of filters asks for, in order.\<close>

definition retained_for :: "('w, 'tx) shared \<Rightarrow> topic_filter list \<Rightarrow> publish_packet list" where
  "retained_for sh fs =
     List.map_filter (\<lambda>t. Option.bind (filter_name t) (\<lambda>f. get_retained_message f sh)) fs"

lemma retained_for_simps [simp]:
  "retained_for sh [] = []"
  "retained_for sh (Concrete f l # fs) =
     (case get_retained_message f sh of None \<Rightarrow> [] | Some m \<Rightarrow> [m]) @ retained_for sh fs"
  "filter_name t = None \<Longrightarrow> retained_for sh (t # fs) = retained_for sh fs"
  by (simp_all add: retained_for_def map_filter_simps split: option.splits)

lemma get_retained_subscribe:
  "bt_wf (topics sh) \<Longrightarrow> get_retained_message k (snd (topics_subscribe B f sh)) = get_retained_message k sh"
  by (auto simp: get_retained_message_def topics_subscribe_def topics_add_def bt_insert_def channel_new_def
      bt.get_put split: option.splits prod.splits)

lemma retained_for_cong:
  "(\<And>k. get_retained_message k sh = get_retained_message k sh') \<Longrightarrow> retained_for sh = retained_for sh'"
  by (simp add: retained_for_def fun_eq_iff)

context broadcast_channel
begin

lemma subscribe_concrete_effect:
  fixes s :: "('w, 'tx, 'rx, 'will) conn"
  assumes inv: "conn_inv V s" and bcP: "bc P = B" and ok: "writes_ok P"
  shows "\<exists>s2. subscribe_concrete P f s = (Ok (), s2) \<and> conn_inv V s2 \<and>
    subscribed (client s2) = insert f (subscribed (client s)) \<and>
    (\<forall>k. get_retained_message k (shared s2) = get_retained_message k (shared s)) \<and>
    iolog s2 = iolog s @ map (\<lambda>m. written P (PublishP m)) (retained_for (shared s) [Concrete f l])"
proof -
  from behaves_register [OF inv bcP, of f] obtain rx s1
    where reg: "register_receiver P f s = (Ok (), s1)" and b: "behaves V s s1"
      and c: "client s1 = (client s)\<lparr>receivers := bt_put f rx (receivers (client s))\<rparr>"
      and l: "iolog s1 = iolog s" and t: "topics (shared s1) = topics (snd (topics_subscribe B f (shared s)))"
    by blast
  have inv1: "conn_inv V s1" using b inv by (simp add: behaves_def)
  have wf: "bt_wf (receivers (client s))" "bt_wf (topics (shared s))"
    using inv by (auto simp: conn_inv_def client_inv_def shared_invD)
  have ret: "get_retained_message k (shared s1) = get_retained_message k (shared s)" for k
    using get_retained_subscribe [OF wf(2), of k B f] t by (simp add: get_retained_message_def)
  have keys: "subscribed (client s1) = insert f (subscribed (client s))"
    using wf by (auto simp: subscribed_def c bt.get_put)
  show ?thesis
    using reg inv1 ret keys l
    by (cases "get_retained_message f (shared s)")
      (simp_all add: subscribe_concrete_def send_retained_def then_io_def bind_io_def write_ok [OF ok]
        conn_inv_def)
qed

lemma subscribe_loop_effect:
  fixes s :: "('w, 'tx, 'rx, 'will) conn"
  assumes "conn_inv V s" and bcP: "bc P = B" and ok: "writes_ok P"
  shows "\<exists>s2. subscribe_loop P ts codes s = (Ok (codes @ map (sub_reason \<circ> st_topic_filter) ts), s2) \<and>
    conn_inv V s2 \<and>
    subscribed (client s2) =
      subscribed (client s) \<union> set (List.map_filter (filter_name \<circ> st_topic_filter) ts) \<and>
    iolog s2 = iolog s @ map (\<lambda>m. written P (PublishP m)) (retained_for (shared s) (map st_topic_filter ts))"
  using assms(1)
proof (induction ts arbitrary: s codes)
  case (Cons t ts)
  show ?case
  proof (cases "filter_name (st_topic_filter t)")
    case None
    from Cons.IH [OF Cons.prems, of "codes @ [sub_reason (st_topic_filter t)]"] None
    show ?thesis by (cases "st_topic_filter t") (auto simp: map_filter_simps)
  next
    case (Some f)
    then obtain l where t: "st_topic_filter t = Concrete f l" by (cases "st_topic_filter t") auto
    from subscribe_concrete_effect [OF Cons.prems bcP ok, of f l] obtain s1
      where c: "subscribe_concrete P f s = (Ok (), s1)" and inv1: "conn_inv V s1"
        and k1: "subscribed (client s1) = insert f (subscribed (client s))"
        and r1: "\<And>k. get_retained_message k (shared s1) = get_retained_message k (shared s)"
        and l1: "iolog s1 = iolog s @ map (\<lambda>m. written P (PublishP m)) (retained_for (shared s) [Concrete f l])"
      by blast
    from Cons.IH [OF inv1, of "codes @ [GrantedQoSZero]"] retained_for_cong [of "shared s1" "shared s", OF r1]
    show ?thesis
      by (auto simp: t c k1 l1 map_filter_simps)
  qed
qed (simp add: map_filter_simps)

end

text \<open>The codes of an unsubscription: a filter that occurs twice succeeds only the first time.\<close>

fun unsub_codes :: "string set \<Rightarrow> topic_filter list \<Rightarrow> unsubscribe_ack_reason list" where
  "unsub_codes K [] = []"
| "unsub_codes K (Concrete f l # ts) =
     (if f \<in> K then UnsubscribeSuccess else NoSubscriptionExisted) # unsub_codes (K - {f}) ts"
| "unsub_codes K (t # ts) = ImplementationSpecificError # unsub_codes K ts"

lemma subscribed_del: "bt_wf m \<Longrightarrow> subscribed (c\<lparr>receivers := bt_del f m\<rparr>) = {k. bt_get k m \<noteq> None} - {f}"
  by (auto simp: subscribed_def bt.get_del)

lemma unsubscribe_loop_effect:
  "bt_wf (receivers (client s)) \<Longrightarrow>
   \<exists>s2. unsubscribe_loop P ts codes s = (Ok (codes @ unsub_codes (subscribed (client s)) ts), s2) \<and>
     subscribed (client s2) = subscribed (client s) - set (List.map_filter filter_name ts) \<and>
     iolog s2 = iolog s \<and> topics (shared s2) = topics (shared s)"
proof (induction ts arbitrary: codes s)
  case (Cons t ts)
  show ?case
  proof (cases t)
    case (Concrete f l)
    define m where "m = bt_del f (receivers (client s))"
    have wf: "bt_wf m" using Cons.prems by (auto simp: m_def)
    have sub: "subscribed ((client s)\<lparr>receivers := m\<rparr>) = subscribed (client s) - {f}"
      using Cons.prems by (simp add: m_def subscribed_del) (simp add: subscribed_def)
    have "f \<in> subscribed (client s) \<longleftrightarrow> bt_get f (receivers (client s)) \<noteq> None"
      by (simp add: subscribed_def)
    with Concrete show ?thesis
      using Cons.IH [of "s\<lparr>client := (client s)\<lparr>receivers := m\<rparr>\<rparr>" "codes @ [NoSubscriptionExisted]"]
        Cons.IH [of "s\<lparr>client := (client s)\<lparr>receivers := m\<rparr>,
          shared := (shared s)\<lparr>chans := b_drop_rx (bc P) (the (bt_get f (receivers (client s)))) (chans (shared s))\<rparr>\<rparr>"
          "codes @ [UnsubscribeSuccess]"] wf sub
      by (cases "bt_get f (receivers (client s))")
        (auto simp: bt_remove_def map_filter_simps simp flip: m_def)
  qed (use Cons.IH [OF Cons.prems, of "codes @ [ImplementationSpecificError]"]
      in \<open>simp_all add: map_filter_simps\<close>)
qed (simp add: map_filter_simps)

section \<open>A concrete platform\<close>

text \<open>
  The instance used by the witnesses: the reference channels, a library that tells packets apart by
  their first byte and stores a will as the packet to publish, and an environment in which
  every call succeeds.
\<close>

fun demo_tag :: "'will packet \<Rightarrow> u8" where
  "demo_tag (ConnectAck _) = 0x20"
| "demo_tag (PublishP _) = 0x30"
| "demo_tag (PublishAck _) = 0x40"
| "demo_tag (SubscribeAck _) = 0x90"
| "demo_tag (UnsubscribeAck _) = 0xB0"
| "demo_tag PingResponse = 0xD0"
| "demo_tag _ = 0"

definition demo_lib :: "publish_packet mqtt_lib" where
  "demo_lib = \<lparr>encode_mqtt = (\<lambda>p v. [demo_tag p]),
     decode_mqtt = (\<lambda>buf v. case buf of
        [] \<Rightarrow> Inr None
      | b # _ \<Rightarrow>
          if b = 0xC0 then Inr (Some PingRequest)
          else if b = 0x30 then Inr (Some (PublishP (plain_publish ''a'' [7] False)))
          else if b = 0xF0 then Inr (Some (OtherPacket 15))
          else Inl ''InvalidPacketType''),
     publish_from_will = (\<lambda>w. w), build_publish = plain_builder\<rparr>"

definition demo_env :: env where
  "demo_env = \<lparr>env_write_all = (\<lambda>l b. None), env_shutdown = (\<lambda>l. None), env_mpsc_send = (\<lambda>l c p. True),
     env_utc_now = (\<lambda>l. ''2023-05-01T00:00:00''), env_key_file = (\<lambda>l p. None),
     env_insert_all = (\<lambda>l a b c e. None)\<rparr>"

definition demo_settings :: configuration where
  "demo_settings = \<lparr>cfg_ports = \<lparr>tcp = 1883, ws = 8080\<rparr>,
     cfg_tls = \<lparr>certfile = ''certs/server.crt'', keyfile = ''certs/server.key''\<rparr>,
     cfg_general = \<lparr>websocket = True, timeout = 30\<rparr>,
     cfg_bigquery = Some \<lparr>project_id = ''p'', dataset_id = ''d'', table_id = ''t'', credentials_path = ''sa.key''\<rparr>,
     cfg_redis = Some \<lparr>redis_host = ''redis'', redis_port = 6379\<rparr>\<rparr>"

definition demo_platform :: "features \<Rightarrow> (rworld, nat, nat, publish_packet) platform" where
  "demo_platform F = \<lparr>bc = rw_ops, mqtt = demo_lib, env = demo_env, feat = F, settings = demo_settings,
     overflow_checks = False\<rparr>"

text \<open>A connection that has just been accepted, next to one subscriber of the topic \<open>a\<close>.\<close>

definition demo_conn :: "(rworld, nat, nat, publish_packet) conn" where
  "demo_conn = \<lparr>client = client_new (\<lambda>_. CHR ''x'') 0 1, shared = demo_store, iolog = []\<rparr>"

lemma client_inv_new: "client_inv V (client_new rng a b) sh"
  by (simp add: client_inv_def client_new_def)

lemma demo_conn_inv: "conn_inv rw_view demo_conn"
  by (simp add: conn_inv_def demo_conn_def demo_store_inv client_inv_new)

lemma demo_wf: "bt_wf (topics (shared demo_conn))"
  using demo_conn_inv shared_invD(1) by (auto simp: conn_inv_def)

lemma demo_platform_sel [simp]:
  "bc (demo_platform F) = rw_ops" "mqtt (demo_platform F) = demo_lib" "env (demo_platform F) = demo_env"
  "feat (demo_platform F) = F" "settings (demo_platform F) = demo_settings"
  "overflow_checks (demo_platform F) = False"
  by (simp_all add: demo_platform_def)

lemma demo_writes_ok: "writes_ok (demo_platform F)"
  by (simp add: writes_ok_def demo_env_def)

section \<open>Properties of the packet handlers\<close>

text \<open>
  Acknowledgement of a publication, in a broker without the Redis and BigQuery features: the packet
  is published to its topic; with QoS 1 the one packet written back is a PUBACK with the same packet
  identifier and the reason code Success, and the handler succeeds exactly when that write does;
  with QoS 0 and QoS 2 nothing is written.
\<close>

theorem publish_acknowledged:
  assumes "bt_wf (topics (shared s))" "\<not> feat_redis (feat P)" "\<not> feat_bq_logging (feat P)"
    and "p_qos packet = AtLeastOnce \<longrightarrow> p_packet_id packet = Some pid"
  shows "handle_publish_packet P packet s =
    (if p_qos packet = AtLeastOnce
     then write_to_stream P (PublishAck (puback_for pid PublishSuccess))
       (s\<lparr>shared := snd (topics_publish (bc P) packet (shared s))\<rparr>)
     else (Ok (), s\<lparr>shared := snd (topics_publish (bc P) packet (shared s))\<rparr>))"
  using assms(2-4) by (cases "p_qos packet") (simp_all add: handle_publish_eq [OF assms(1)])

theorem publish_acknowledged_witness:
  "iolog (snd (handle_publish_packet (demo_platform default_features)
      ((plain_publish ''a'' [7] False)\<lparr>p_qos := AtLeastOnce, p_packet_id := Some 5\<rparr>) demo_conn)) =
    [WriteAll [0x40] None]"
  using publish_acknowledged [OF demo_wf, of "demo_platform default_features"
      "(plain_publish ''a'' [7] False)\<lparr>p_qos := AtLeastOnce, p_packet_id := Some 5\<rparr>" 5]
  by (simp add: default_features_def write_ok [OF demo_writes_ok] demo_lib_def demo_conn_def)



text \<open>
  A publication with QoS 1 but without a packet identifier ends in a panic of the connection task,
  and only after the packet has been delivered to the subscribers. This is the path a will with QoS 1
  takes whenever its conversion yields a packet without an identifier.
\<close>

theorem qos1_will_without_id_panics:
  assumes "bt_wf (topics (shared s))" "\<not> feat_redis (feat P)" "will (client s) = Some w"
    and "p_qos (publish_from_will (mqtt P) w) = AtLeastOnce"
    and "p_packet_id (publish_from_will (mqtt P) w) = None"
  shows "publish_will P s =
    (Panic UnwrapNone, s\<lparr>shared := snd (topics_publish (bc P) (publish_from_will (mqtt P) w) (shared s))\<rparr>)"
  using assms(2-5)
  by (simp add: publish_will_def bind_io_def handle_publish_eq [OF assms(1)] then_io_def)

theorem qos1_will_without_id_panics_witness:
  "fst (publish_will (demo_platform default_features)
     (demo_conn\<lparr>client := (client demo_conn)\<lparr>will := Some ((plain_publish ''a'' [7] False)\<lparr>p_qos := AtLeastOnce\<rparr>)\<rparr>\<rparr>))
   = Panic UnwrapNone"
proof -
  let ?s = "demo_conn\<lparr>client := (client demo_conn)\<lparr>will := Some ((plain_publish ''a'' [7] False)\<lparr>p_qos := AtLeastOnce\<rparr>)\<rparr>\<rparr>"
  have "bt_wf (topics (shared ?s))" using demo_wf by simp
  from qos1_will_without_id_panics [OF this, of "demo_platform default_features"]
  show ?thesis by (simp add: default_features_def demo_lib_def)
qed

text \<open>
  C21. A subscription request on a working stream succeeds. The reason codes of the SUBACK answer the
  requested filters one by one, in order: granted with QoS 0 for a plain topic name, refused for
  wildcards and for shared subscriptions. The client is then subscribed to exactly the topics
  it was subscribed to before and the plain names of the request, and what is written is the
  retained message of each of these names, in order, followed by the SUBACK.
\<close>

theorem subscribe_acknowledged:
  assumes "broadcast_channel (bc P) V" "conn_inv V s" "writes_ok P"
  shows "\<exists>s'. handle_subscribe_packet P packet s = (Ok (), s') \<and> conn_inv V s' \<and>
    subscribed (client s') = subscribed (client s) \<union>
      set (List.map_filter (filter_name \<circ> st_topic_filter) (s_subscription_topics packet)) \<and>
    iolog s' = iolog s
      @ map (\<lambda>m. written P (PublishP m)) (retained_for (shared s) (map st_topic_filter (s_subscription_topics packet)))
      @ [written P (SubscribeAck (suback_for packet (map (sub_reason \<circ> st_topic_filter) (s_subscription_topics packet))))]"
proof -
  from broadcast_channel.subscribe_loop_effect [OF assms(1,2) refl assms(3),
      of "s_subscription_topics packet" "[]"]
  obtain s2 where loop: "subscribe_loop P (s_subscription_topics packet) [] s =
      (Ok (map (sub_reason \<circ> st_topic_filter) (s_subscription_topics packet)), s2)"
    and "conn_inv V s2" "subscribed (client s2) = subscribed (client s) \<union>
      set (List.map_filter (filter_name \<circ> st_topic_filter) (s_subscription_topics packet))"
    "iolog s2 = iolog s @ map (\<lambda>m. written P (PublishP m))
      (retained_for (shared s) (map st_topic_filter (s_subscription_topics packet)))"
    by auto
  then show ?thesis
    by (simp add: handle_subscribe_packet_def write_ok [OF assms(3)] conn_inv_def)
qed

theorem subscribe_acknowledged_witness:
  "\<exists>s'. handle_subscribe_packet (demo_platform default_features)
      \<lparr>s_packet_id = 9, s_subscription_topics = [\<lparr>st_topic_filter = Concrete ''b'' 1\<rparr>,
         \<lparr>st_topic_filter = Wildcard ''c/#'' 2\<rparr>]\<rparr> demo_conn = (Ok (), s') \<and>
    subscribed (client s') = {''b''} \<and> iolog s' = [WriteAll [0x90] None]"
proof -
  have bc: "broadcast_channel (bc (demo_platform default_features)) rw_view"
    by (simp add: rw.broadcast_channel_axioms)
  have "subscribed (client demo_conn) = {}" "iolog demo_conn = []"
    "get_retained_message ''b'' (shared demo_conn) = None"
    by (simp_all add: subscribed_def demo_conn_def client_new_def get_retained_message_def demo_store_eq(2))
  with subscribe_acknowledged [OF bc demo_conn_inv demo_writes_ok,
      of "\<lparr>s_packet_id = 9, s_subscription_topics = [\<lparr>st_topic_filter = Concrete ''b'' 1\<rparr>,
         \<lparr>st_topic_filter = Wildcard ''c/#'' 2\<rparr>]\<rparr>"]
  show ?thesis by (auto simp: map_filter_simps demo_lib_def)
qed

text \<open>
  C22. An unsubscription request on a working stream succeeds. The codes answer the filters in order:
  Success for a plain name the client is subscribed to at that point, NoSubscriptionExisted for any
  other plain name, ImplementationSpecificError for every other kind of filter. Afterwards the
  client has lost exactly the named subscriptions; the topics themselves stay.
\<close>

theorem unsubscribe_acknowledged:
  assumes "bt_wf (receivers (client s))" "writes_ok P"
  shows "\<exists>s'. handle_unsubscribe_packet P packet s = (Ok (), s') \<and>
    subscribed (client s') = subscribed (client s) - set (List.map_filter filter_name (u_topic_filters packet)) \<and>
    topics (shared s') = topics (shared s) \<and>
    iolog s' = iolog s @ [written P (UnsubscribeAck (unsuback_for packet
      (unsub_codes (subscribed (client s)) (u_topic_filters packet))))]"
  using unsubscribe_loop_effect [OF assms(1), of P "u_topic_filters packet" "[]"]
  by (auto simp: handle_unsubscribe_packet_def write_ok [OF assms(2)] bind_io_def)

theorem unsubscribe_acknowledged_witness:
  "\<exists>s'. handle_unsubscribe_packet (demo_platform default_features)
      \<lparr>u_packet_id = 3, u_topic_filters = [Concrete ''a'' 1]\<rparr>
      (demo_conn\<lparr>client := (client demo_conn)\<lparr>receivers := [(''a'', 0)]\<rparr>\<rparr>) = (Ok (), s') \<and>
    subscribed (client s') = {} \<and> iolog s' = [WriteAll [0xB0] None]"
proof -
  let ?s = "demo_conn\<lparr>client := (client demo_conn)\<lparr>receivers := [(''a'', 0)]\<rparr>\<rparr>"
  have "bt_wf (receivers (client ?s))" "subscribed (client ?s) = {''a''}" "iolog ?s = []"
    by (auto simp: bt_wf_def subscribed_def demo_conn_def)
  with unsubscribe_acknowledged [OF this(1) demo_writes_ok, of default_features
      "\<lparr>u_packet_id = 3, u_topic_filters = [Concrete ''a'' 1]\<rparr>"]
  show ?thesis by (auto simp: map_filter_simps demo_lib_def)
qed

text \<open>
  Connecting: the packet written is a CONNACK with reason Success, the client's assigned
  identifier, a maximum QoS of 1, a maximum packet size of 1024 and the configured keep-alive. The
  client's will becomes the will of the packet if it has one and is kept otherwise; nothing
  else of the client and nothing of the topics changes.
\<close>

theorem connect_acknowledged:
  "let (r, s') = handle_connect_packet P packet s
   in (\<exists>a e. iolog s' = iolog s @ [WriteAll (encode_mqtt (mqtt P) (ConnectAck a) V500) e] \<and>
        (r = Ok () \<longleftrightarrow> e = None) \<and>
        ca_reason_code a = ConnectSuccess \<and> ca_assigned_client_identifier a = Some (client_id (client s)) \<and>
        ca_maximum_qos a = Some AtLeastOnce \<and> ca_maximum_packet_size a = Some 1024 \<and>
        ca_server_keep_alive a = Some (timeout (cfg_general (settings P)))) \<and>
      client s' = (client s)\<lparr>will := (case c_will packet of None \<Rightarrow> will (client s) | w \<Rightarrow> w)\<rparr> \<and>
      shared s' = shared s"
  by (auto simp: handle_connect_packet_def then_io_def bind_io_def update_client_def write_to_stream_def
      Let_def connack_for_def split: option.splits)

text \<open>
  A DISCONNECT packet always ends the connection: the handler never returns normally. Only the
  reason DisconnectWithWillMessage publishes the will; with any other reason the error
  ClientDisconnected is returned and nothing has changed.
\<close>

theorem disconnect_ends_connection:
  "fst (handle_disconnect_packet P peer packet s) \<noteq> Ok () \<and>
   (if d_reason_code packet = DisconnectWithWillMessage
    then snd (handle_disconnect_packet P peer packet s) = snd (publish_will P s)
    else handle_disconnect_packet P peer packet s = (Err (ClientDisconnected peer), s))"
  by (auto simp: handle_disconnect_packet_def then_io_def bind_io_def split: prod.splits outcome.splits)

text \<open>
  C33. Input that is not a request the broker knows is rejected without any effect: a decoding error is
  passed on, and an incomplete packet as well as every packet type without a handler gives
  UnknownPacketType, with the state unchanged and nothing written.
\<close>

theorem unknown_input_rejected:
  assumes "case decode_mqtt (mqtt P) buf V500 of
      Inl e \<Rightarrow> err = DecodePacketError e
    | Inr None \<Rightarrow> err = UnknownPacketType
    | Inr (Some p) \<Rightarrow> err = UnknownPacketType \<and>
        (is_OtherPacket p \<or> is_ConnectAck p \<or> is_SubscribeAck p \<or> is_UnsubscribeAck p \<or> p = PingResponse)"
  shows "handle_packet P buf peer s = (Err err, s)"
  using assms
  by (auto simp: handle_packet_def dispatch_def split: sum.splits option.splits packet.splits)

theorem unknown_input_rejected_witness:
  "handle_packet (demo_platform default_features) [0xF0] ''peer'' demo_conn = (Err UnknownPacketType, demo_conn)"
proof -
  have "case decode_mqtt (mqtt (demo_platform default_features)) [0xF0] V500 of
      Inl e \<Rightarrow> UnknownPacketType = DecodePacketError e
    | Inr None \<Rightarrow> UnknownPacketType = UnknownPacketType
    | Inr (Some p) \<Rightarrow> UnknownPacketType = UnknownPacketType \<and>
        (is_OtherPacket p \<or> is_ConnectAck p \<or> is_SubscribeAck p \<or> is_UnsubscribeAck p \<or> p = PingResponse)"
    by (simp add: demo_lib_def)
  then show ?thesis by (rule unknown_input_rejected)
qed

end
