(* ===== verification/Connection.thy ===== *)
theory Connection
  imports Client
begin

text \<open>
  The select loop \<open>Client::handle_raw_tcp_stream\<close> of \<open>src/src/tcp_handling.rs\<close> and the future
  \<open>ReceiverFuture\<close> it waits on. One iteration takes the branch of the \<open>select!\<close> that completed, an
  \<open>event\<close>; which one it is belongs to the scheduler, so statements about the loop quantify over events.
  The outcome \<open>Ok\<close> of an iteration means that the loop goes on, \<open>Err\<close> that the method returns
  this error; the method never returns \<open>Ok\<close>.
\<close>

section \<open>Events\<close>

text \<open>
  \<open>ReadBytes\<close>: \<open>stream.read\<close> returned this many bytes, at most the size of the buffer;
  \<open>ReadBytes []\<close> is \<open>Ok(0)\<close>. \<open>WillTimeout\<close> and \<open>RetryTick\<close> are the two timers.
\<close>

datatype event =
    ReadBytes bytes
  | ReadError io_error
  | ReceiverReady
  | WillTimeout
  | RetryTick

text \<open>The buffer is a fresh array of 1024 zero bytes in every iteration.\<close>

definition fill_buffer :: "bytes \<Rightarrow> bytes" where
  "fill_buffer data = data @ replicate (1024 - length data) 0"

text \<open>\<open>ReceiverFuture::poll\<close>: the first topic in key order with something to receive.\<close>

definition receiver_poll :: "('w, 'tx, 'rx) broadcast_ops \<Rightarrow> (string, 'rx) btree \<Rightarrow> 'w \<Rightarrow> string option" where
  "receiver_poll B receiver w =
     map_option fst (find (\<lambda>(k, recv). \<not> b_is_empty B recv w) (bt_iter receiver))"

text \<open>The guards of the branches.\<close>

definition enabled :: "('w, 'tx, 'rx, 'will) platform \<Rightarrow> ('w, 'tx, 'rx, 'will) conn \<Rightarrow> event \<Rightarrow> bool" where
  "enabled P s ev =
     (case ev of
        ReadBytes data \<Rightarrow> length data \<le> 1024
      | ReadError _ \<Rightarrow> True
      | ReceiverReady \<Rightarrow> receiver_poll (bc P) (receivers (client s)) (chans (shared s)) \<noteq> None
      | WillTimeout \<Rightarrow> True
      | RetryTick \<Rightarrow> outgoing_messages (client s) \<noteq> [])"

section \<open>The branches\<close>

definition on_read ::
    "('w, 'tx, 'rx, 'will) platform \<Rightarrow> string \<Rightarrow> bytes \<Rightarrow> ('w, 'tx, 'rx, 'will, unit) handler" where
  "on_read P addr data =
     (if data = [] then err_io (UnexpectedClientDisconnected addr)
      else match_io (handle_packet P (fill_buffer data) addr) (\<lambda>r.
             case r of
               Inr _ \<Rightarrow> ret_io ()
             | Inl _ \<Rightarrow> err_io (ClientError addr)))"

text \<open>A received publication: remembered for retransmission with QoS 1, then written.\<close>

definition forward_publish ::
    "('w, 'tx, 'rx, 'will) platform \<Rightarrow> publish_packet \<Rightarrow> ('w, 'tx, 'rx, 'will, unit) handler" where
  "forward_publish P packet =
     then_io
       (if p_qos packet = AtLeastOnce
        then update_client (\<lambda>c. c\<lparr>outgoing_messages := outgoing_messages c @
               [\<lparr>om_packet = packet,
                 om_counter = (case p_message_expiry_interval packet of Some n \<Rightarrow> n | None \<Rightarrow> 1)\<rparr>]\<rparr>)
        else ret_io ())
       (write_to_stream P (PublishP packet))"

definition recv_on :: "('w, 'tx, 'rx, 'will) platform \<Rightarrow> 'rx \<Rightarrow> ('w, 'tx, 'rx, 'will, recv_result) handler" where
  "recv_on P rx s =
     (case b_recv (bc P) rx (chans (shared s)) of
        (r, w) \<Rightarrow> (Ok r, s\<lparr>shared := (shared s)\<lparr>chans := w\<rparr>\<rparr>))"

text \<open>
  The branch runs only when \<open>ReceiverFuture\<close> is ready. \<open>RecvPending\<close> would mean that \<open>recv().await\<close>
  waits; a receiver with something to read does not (\<open>receiver_ready_step\<close> below).
\<close>

definition on_receiver_ready :: "('w, 'tx, 'rx, 'will) platform \<Rightarrow> ('w, 'tx, 'rx, 'will, unit) handler" where
  "on_receiver_ready P =
     bind_io (get_io (\<lambda>s. (receiver_poll (bc P) (receivers (client s)) (chans (shared s)),
                           receivers (client s)))) (\<lambda>(key, recvs).
       case key of
         None \<Rightarrow> ret_io ()
       | Some k \<Rightarrow>
           (case bt_get k recvs of
              None \<Rightarrow> panic_io UnwrapNone
            | Some rx \<Rightarrow>
                bind_io (recv_on P rx) (\<lambda>message.
                  case message of
                    RecvOk (Publish packet) \<Rightarrow> forward_publish P packet
                  | _ \<Rightarrow> ret_io ())))"

definition shutdown_stream :: "('w, 'tx, 'rx, 'will) platform \<Rightarrow> ('w, 'tx, 'rx, 'will, unit) handler" where
  "shutdown_stream P s =
     (let r = env_shutdown (env P) (iolog s);
          s' = s\<lparr>iolog := iolog s @ [Shutdown r]\<rparr>
      in case r of None \<Rightarrow> (Ok (), s') | Some e \<Rightarrow> (Err (from_io_error e), s'))"

definition on_will_timeout :: "('w, 'tx, 'rx, 'will) platform \<Rightarrow> ('w, 'tx, 'rx, 'will, unit) handler" where
  "on_will_timeout P = then_io (publish_will P) (shutdown_stream P)"

definition set_outgoing :: "outgoing_message list \<Rightarrow> ('w, 'tx, 'rx, 'will, unit) handler" where
  "set_outgoing ms = update_client (\<lambda>c. c\<lparr>outgoing_messages := ms\<rparr>)"

text \<open>
  The loop over \<open>outgoing_messages.iter_mut()\<close>, with the messages already visited. A failed write
  leaves the loop with the counters changed so far.
\<close>

fun retry_loop ::
    "('w, 'tx, 'rx, 'will) platform \<Rightarrow> outgoing_message list \<Rightarrow> outgoing_message list \<Rightarrow>
     ('w, 'tx, 'rx, 'will, unit) handler" where
  "retry_loop P visited [] = set_outgoing visited"
| "retry_loop P visited (m # ms) =
     (case checked_sub (overflow_checks P) (om_counter m) 1 of
        None \<Rightarrow> then_io (set_outgoing (visited @ m # ms)) (panic_io ArithmeticOverflow)
      | Some c \<Rightarrow>
          let m' = m\<lparr>om_counter := c\<rparr> in
          if c = 0 then retry_loop P (visited @ [m']) ms
          else then_io (set_outgoing (visited @ m' # ms))
                 (then_io (write_to_stream P (PublishP (om_packet m)))
                   (retry_loop P (visited @ [m']) ms)))"

definition on_retry_tick :: "('w, 'tx, 'rx, 'will) platform \<Rightarrow> ('w, 'tx, 'rx, 'will, unit) handler" where
  "on_retry_tick P =
     bind_io (get_io (\<lambda>s. outgoing_messages (client s))) (\<lambda>ms.
     then_io (retry_loop P [] ms)
       (update_client (\<lambda>c. c\<lparr>outgoing_messages := filter (\<lambda>m. om_counter m \<noteq> 0) (outgoing_messages c)\<rparr>)))"

section \<open>The loop\<close>

text \<open>The duration of the keep-alive timer is computed anew in every iteration, before any branch runs.\<close>

definition will_delay :: "('w, 'tx, 'rx, 'will) platform \<Rightarrow> u16 option" where
  "will_delay P = checked_plus (overflow_checks P) (timeout (cfg_general (settings P))) 2"

definition serve ::
    "('w, 'tx, 'rx, 'will) platform \<Rightarrow> string \<Rightarrow> event \<Rightarrow> ('w, 'tx, 'rx, 'will, unit) handler" where
  "serve P addr ev =
     (case will_delay P of
        None \<Rightarrow> panic_io ArithmeticOverflow
      | Some _ \<Rightarrow>
          (case ev of
             ReadBytes data \<Rightarrow> on_read P addr data
           | ReadError e \<Rightarrow> err_io (ClientError addr)
           | ReceiverReady \<Rightarrow> on_receiver_ready P
           | WillTimeout \<Rightarrow> on_will_timeout P
           | RetryTick \<Rightarrow> on_retry_tick P))"

definition handle_raw_tcp_stream ::
    "('w, 'tx, 'rx, 'will) platform \<Rightarrow> string \<Rightarrow> event list \<Rightarrow> ('w, 'tx, 'rx, 'will, unit) handler" where
  "handle_raw_tcp_stream P addr = for_io (serve P addr)"

text \<open>When the task of a connection ends, its client and with it all its receivers are dropped.\<close>

definition drop_client ::
    "('w, 'tx, 'rx) broadcast_ops \<Rightarrow> ('rx, 'will) client \<Rightarrow> ('w, 'tx) shared \<Rightarrow> ('w, 'tx) shared" where
  "drop_client B c sh = sh\<lparr>chans := fold (\<lambda>(k, rx). b_drop_rx B rx) (bt_iter (receivers c)) (chans sh)\<rparr>"

section \<open>The loop keeps the invariant\<close>

lemma tracks_set_outgoing: "tracks (behaves V) (set_outgoing ms)"
  unfolding set_outgoing_def by (rule tracks_update_client) simp

lemma tracks_retry_loop: "tracks (behaves V) (retry_loop P visited ms)"
  by (induction ms arbitrary: visited)
    (auto simp: Let_def intro!: behaves.rules tracks_set_outgoing tracks_write split: option.splits)

lemma tracks_retry_tick: "tracks (behaves V) (on_retry_tick P)"
  unfolding on_retry_tick_def
  by (intro behaves.rules tracks_retry_loop tracks_update_client) simp

lemma tracks_shutdown: "tracks (behaves V) (shutdown_stream P)"
  by (rule tracksI) (simp add: shutdown_stream_def Let_def behaves_iolog split: option.splits)

lemma tracks_forward: "tracks (behaves V) (forward_publish P packet)"
  unfolding forward_publish_def by (auto intro!: behaves.rules tracks_write tracks_update_client)

context broadcast_channel
begin

lemma recv_law:
  assumes inv: "shared_inv V sh" and rx: "rx \<in> rxs V (chans sh)" and eq: "b_recv B rx (chans sh) = (r, w)"
  shows "shared_inv V (sh\<lparr>chans := w\<rparr>)" "topic_view V (sh\<lparr>chans := w\<rparr>) = topic_view V sh"
    "rxs V w = rxs V (chans sh)" "same_queues V (rxs V (chans sh) - {rx}) (chans sh) w"
proof -
  note law = recv [OF shared_invD(2) [OF inv] rx eq]
  show "shared_inv V (sh\<lparr>chans := w\<rparr>)" by (rule shared_inv_chans [OF inv]) (use law in auto)
  show "topic_view V (sh\<lparr>chans := w\<rparr>) = topic_view V sh" by (rule topic_view_chans [OF inv]) (use law in auto)
  show "rxs V w = rxs V (chans sh)" "same_queues V (rxs V (chans sh) - {rx}) (chans sh) w"
    using law by (auto simp: same_queues_def)
qed

lemma behaves_recv:
  fixes s :: "('w, 'tx, 'rx, 'will) conn"
  assumes "bt_get k (receivers (client s)) = Some rx" and "bc P = B"
  shows "behaves V s (snd (recv_on P rx s))"
proof (unfold behaves_def, intro impI)
  assume "conn_inv V s"
  then have inv: "shared_inv V (shared s)" and c: "client_inv V (client s) (shared s)"
    by (auto simp: conn_inv_def)
  have "rx \<in> rxs V (chans (shared s))"
    using owned_live [OF c inv] assms(1) by (auto simp: owned_def)
  moreover obtain r w where eq: "b_recv B rx (chans (shared s)) = (r, w)" by (metis surj_pair)
  ultimately show "conn_inv V (snd (recv_on P rx s)) \<and>
    others_kept V (owned (client s)) (shared s) (shared (snd (recv_on P rx s))) \<and>
    owned (client (snd (recv_on P rx s))) \<inter> rxs V (chans (shared s)) \<subseteq> owned (client s)"
    using recv_law [OF inv _ eq] same_queues_fed [OF recv_law(4) [OF inv _ eq]] c assms(1,2)
    by (auto simp: recv_on_def conn_inv_def client_inv_def others_kept_def owned_def)
qed

lemma tracks_receiver_ready:
  assumes "bc P = B"
  shows "tracks (behaves V :: ('w, 'tx, 'rx, 'will) conn \<Rightarrow> _) (on_receiver_ready P)"
proof (rule tracksI)
  fix s :: "('w, 'tx, 'rx, 'will) conn"
  show "behaves V s (snd (on_receiver_ready P s))"
  proof (cases "receiver_poll (bc P) (receivers (client s)) (chans (shared s))")
    case (Some k)
    show ?thesis
    proof (cases "bt_get k (receivers (client s))")
      fix rx assume rx: "bt_get k (receivers (client s)) = Some rx"
      obtain r s1 where r: "recv_on P rx s = (Ok r, s1)"
        by (cases "b_recv (bc P) rx (chans (shared s))") (auto simp: recv_on_def)
      have "behaves V s s1" using behaves_recv [OF rx assms] r by simp
      moreover have "behaves V s1 (snd (forward_publish P p s1))" for p
        using tracks_forward [of V P p] by (simp add: tracks_def)
      ultimately show ?thesis
        using Some rx r
        by (cases r) (auto simp: on_receiver_ready_def bind_io_def intro: behaves.trans split: message.splits)
    qed (use Some in \<open>simp add: on_receiver_ready_def bind_io_def behaves.refl\<close>)
  qed (simp add: on_receiver_ready_def bind_io_def behaves.refl)
qed

lemma tracks_serve: "bc P = B \<Longrightarrow> tracks (behaves V) (serve P addr ev)"
  unfolding serve_def on_read_def on_will_timeout_def
  by (auto intro!: behaves.rules tracks_handle_packet tracks_receiver_ready tracks_publish_will tracks_shutdown
      tracks_retry_tick split: option.splits event.splits sum.splits)

lemma tracks_connection: "bc P = B \<Longrightarrow> tracks (behaves V) (handle_raw_tcp_stream P addr evs)"
  unfolding handle_raw_tcp_stream_def by (intro behaves.rules tracks_serve)

text \<open>The topic that the future picks is the first in key order with something to read.\<close>

lemma receiver_live:
  assumes "conn_inv V s" "bt_get k (receivers (client s)) = Some rx"
  shows "rx \<in> rxs V (chans (shared s))" "ok V (chans (shared s))" "rx \<in> subscribers k (topic_view V (shared s))"
  using assms owned_live [of "client s" "shared s"] shared_invD(2) [of V "shared s"]
  by (auto simp: conn_inv_def client_inv_def owned_def)

lemma poll_Some:
  assumes inv: "conn_inv V s" and poll: "receiver_poll B (receivers (client s)) (chans (shared s)) = Some k"
  shows "\<exists>rx. bt_get k (receivers (client s)) = Some rx \<and> unread V (chans (shared s)) rx \<noteq> [] \<and>
    (\<forall>k' rx'. bt_get k' (receivers (client s)) = Some rx' \<and> unread V (chans (shared s)) rx' \<noteq> [] \<longrightarrow> k \<le> k')"
proof -
  have wf: "bt_wf (receivers (client s))" using inv by (simp add: conn_inv_def client_inv_def)
  from poll obtain rx where
    "find (\<lambda>(k, rx). \<not> b_is_empty B rx (chans (shared s))) (bt_iter (receivers (client s))) = Some (k, rx)"
    by (auto simp: receiver_poll_def)
  note least = bt.find_iter_least [OF wf this]
  have "b_is_empty B r (chans (shared s)) \<longleftrightarrow> unread V (chans (shared s)) r = []"
    if "bt_get k' (receivers (client s)) = Some r" for k' r
    using is_empty receiver_live [OF inv that] by blast
  with least show ?thesis by metis
qed

lemma poll_None:
  assumes inv: "conn_inv V s"
  shows "receiver_poll B (receivers (client s)) (chans (shared s)) = None \<longleftrightarrow>
    (\<forall>k rx. bt_get k (receivers (client s)) = Some rx \<longrightarrow> unread V (chans (shared s)) rx = [])"
proof -
  have wf: "bt_wf (receivers (client s))" using inv by (simp add: conn_inv_def client_inv_def)
  show ?thesis
    using is_empty receiver_live [OF inv] unfolding receiver_poll_def
    by (simp add: bt.find_iter_None [OF wf])
qed

text \<open>
  The branch neither waits nor panics: it forwards the oldest unread message of that topic, or, when
  the receiver has fallen behind, forwards nothing and goes on.
\<close>

lemma receiver_ready_step:
  fixes s :: "('w, 'tx, 'rx, 'will) conn"
  assumes inv: "conn_inv V s" and bcP: "bc P = B"
    and poll: "receiver_poll B (receivers (client s)) (chans (shared s)) = Some k"
  shows "\<exists>rx p ms s1. bt_get k (receivers (client s)) = Some rx \<and>
    unread V (chans (shared s)) rx = Publish p # ms \<and> conn_inv V s1 \<and>
    client s1 = client s \<and> iolog s1 = iolog s \<and> topics (shared s1) = topics (shared s) \<and>
    same_queues V (rxs V (chans (shared s)) - {rx}) (chans (shared s)) (chans (shared s1)) \<and>
    missed V (chans (shared s1)) rx = 0 \<and>
    (if missed V (chans (shared s)) rx = 0
     then unread V (chans (shared s1)) rx = ms \<and> on_receiver_ready P s = forward_publish P p s1
     else unread V (chans (shared s1)) rx = Publish p # ms \<and> on_receiver_ready P s = (Ok (), s1))"
proof -
  from poll_Some [OF inv poll] obtain rx where rx: "bt_get k (receivers (client s)) = Some rx"
    and ne: "unread V (chans (shared s)) rx \<noteq> []" by blast
  from ne obtain m ms where q: "unread V (chans (shared s)) rx = m # ms" by (cases "unread V (chans (shared s)) rx") auto
  obtain p where m: "m = Publish p" by (cases m)
  note live = receiver_live [OF inv rx]
  obtain r w where eq: "b_recv B rx (chans (shared s)) = (r, w)" by (metis surj_pair)
  define s1 where "s1 = s\<lparr>shared := (shared s)\<lparr>chans := w\<rparr>\<rparr>"
  have rec: "recv_on P rx s = (Ok r, s1)" by (simp add: recv_on_def bcP eq s1_def)
  have inv1: "conn_inv V s1" using behaves_recv [OF rx bcP] rec inv by (simp add: behaves_def)
  have sh: "shared_inv V (shared s)" using inv by (simp add: conn_inv_def)
  have sq: "same_queues V (rxs V (chans (shared s)) - {rx}) (chans (shared s)) (chans (shared s1))"
    using recv_law(4) [OF sh live(1) eq] by (simp add: s1_def)
  have br: "on_receiver_ready P s =
      (case r of RecvOk (Publish p) \<Rightarrow> forward_publish P p s1 | _ \<Rightarrow> (Ok (), s1))"
    using poll rx rec bcP
    by (simp add: on_receiver_ready_def bind_io_def split: recv_result.splits message.splits)
  show ?thesis
  proof (cases "missed V (chans (shared s)) rx = 0")
    case True
    from recv_ok [OF live(2,1) True q eq] True q m inv1 rx sq br show ?thesis
      by (intro exI [of _ rx] exI [of _ p] exI [of _ ms] exI [of _ s1]) (simp add: s1_def)
  next
    case False
    from recv_lagged [OF live(2,1) _ eq] False q m inv1 rx sq br show ?thesis
      by (intro exI [of _ rx] exI [of _ p] exI [of _ ms] exI [of _ s1]) (simp add: s1_def)
  qed
qed

text \<open>Dropping the receivers of a client one after the other.\<close>

lemma drop_list_law:
  assumes "shared_inv V sh" "distinct (map snd xs)" "snd ` set xs \<subseteq> rxs V (chans sh)"
  defines "sh' \<equiv> sh\<lparr>chans := fold (\<lambda>(k, rx). b_drop_rx B rx) xs (chans sh)\<rparr>"
  shows "shared_inv V sh' \<and> rxs V (chans sh') = rxs V (chans sh) - snd ` set xs \<and>
    (\<forall>k. subscribers k (topic_view V sh') = subscribers k (topic_view V sh) - snd ` set xs) \<and>
    same_queues V (rxs V (chans sh) - snd ` set xs) (chans sh) (chans sh')"
  using assms(1-3) unfolding sh'_def
proof (induction xs arbitrary: sh)
  case (Cons x xs)
  obtain k rx where x: "x = (k, rx)" by (cases x)
  define sh1 where "sh1 = sh\<lparr>chans := b_drop_rx B rx (chans sh)\<rparr>"
  have "rx \<in> rxs V (chans sh)" using Cons.prems(3) x by simp
  note d = drop_law [OF Cons.prems(1) this, folded sh1_def]
  have "snd ` set xs \<subseteq> rxs V (chans sh1)" using Cons.prems(2,3) x by (auto simp: d(2))
  from Cons.IH [OF d(1) _ this] Cons.prems(2)
  have IH: "shared_inv V (sh1\<lparr>chans := fold (\<lambda>(k, rx). b_drop_rx B rx) xs (chans sh1)\<rparr>)"
    "rxs V (fold (\<lambda>(k, rx). b_drop_rx B rx) xs (chans sh1)) = rxs V (chans sh1) - snd ` set xs"
    "\<And>k. subscribers k (topic_view V (sh1\<lparr>chans := fold (\<lambda>(k, rx). b_drop_rx B rx) xs (chans sh1)\<rparr>)) =
       subscribers k (topic_view V sh1) - snd ` set xs"
    "same_queues V (rxs V (chans sh1) - snd ` set xs) (chans sh1) (fold (\<lambda>(k, rx). b_drop_rx B rx) xs (chans sh1))"
    by simp_all
  have sq: "same_queues V (rxs V (chans sh) - snd ` set (x # xs)) (chans sh)
      (fold (\<lambda>(k, rx). b_drop_rx B rx) xs (chans sh1))"
    using d(4) IH(4) x by (auto simp: same_queues_def d(2))
  have eq: "sh\<lparr>chans := fold (\<lambda>(k, rx). b_drop_rx B rx) (x # xs) (chans sh)\<rparr> =
      sh1\<lparr>chans := fold (\<lambda>(k, rx). b_drop_rx B rx) xs (chans sh1)\<rparr>"
    by (simp add: x sh1_def)
  show ?case unfolding eq
    using IH(1-3) sq x by (auto simp: d(2,3) subscribers_specs)
qed simp

lemma drop_client_law:
  assumes inv: "shared_inv V sh" and c: "client_inv V c sh"
  shows "shared_inv V (drop_client B c sh) \<and> topics (drop_client B c sh) = topics sh \<and>
    rxs V (chans (drop_client B c sh)) = rxs V (chans sh) - owned c \<and>
    (\<forall>k. subscribers k (topic_view V (drop_client B c sh)) = subscribers k (topic_view V sh) - owned c) \<and>
    same_queues V (rxs V (chans sh) - owned c) (chans sh) (chans (drop_client B c sh))"
proof -
  have wf: "bt_wf (receivers c)" using c by (simp add: client_inv_def)
  have own: "snd ` set (bt_iter (receivers c)) = owned c"
    using bt_get_iff [OF wf] by (force simp: bt_iter_def owned_def)
  have "inj_on snd (set (receivers c))"
  proof (rule inj_onI)
    fix x y assume xy: "x \<in> set (receivers c)" "y \<in> set (receivers c)" "snd x = snd y"
    then have "bt_get (fst x) (receivers c) = Some (snd x)" "bt_get (fst y) (receivers c) = Some (snd x)"
      using bt_get_iff [OF wf] by (metis prod.collapse)+
    with client_inv_other [OF c inv] have "fst x = fst y" by metis
    with xy(3) show "x = y" by (simp add: prod_eq_iff)
  qed
  moreover have "distinct (receivers c)" using wf by (auto simp: bt_wf_def strict_sorted_iff distinct_map)
  ultimately have dist: "distinct (map snd (bt_iter (receivers c)))" by (simp add: bt_iter_def distinct_map)
  have "snd ` set (bt_iter (receivers c)) \<subseteq> rxs V (chans sh)"
    using owned_live [OF c inv] by (simp add: own)
  from drop_list_law [OF inv dist this] show ?thesis by (simp add: drop_client_def own)
qed

end

section \<open>Retransmission\<close>

definition tick :: "outgoing_message \<Rightarrow> outgoing_message" where
  "tick m = m\<lparr>om_counter := om_counter m - 1\<rparr>"

abbreviation resent :: "('w, 'tx, 'rx, 'will) platform \<Rightarrow> outgoing_message \<Rightarrow> io_call" where
  "resent P m \<equiv> written P (PublishP (om_packet m))"

lemma set_outgoing_apply [simp]:
  "set_outgoing ms s = (Ok (), s\<lparr>client := (client s)\<lparr>outgoing_messages := ms\<rparr>\<rparr>)"
  by (simp add: set_outgoing_def update_client_def)

lemma retry_loop_effect:
  assumes w: "writes_ok P"
  shows "\<forall>m\<in>set ms. 0 < om_counter m \<Longrightarrow> retry_loop P visited ms s =
    (Ok (), s\<lparr>client := (client s)\<lparr>outgoing_messages := visited @ map tick ms\<rparr>,
       iolog := iolog s @ map (resent P) (filter (\<lambda>m. om_counter m \<noteq> 1) ms)\<rparr>)"
proof (induction ms arbitrary: visited s)
  case (Cons m ms)
  then have sub: "checked_sub (overflow_checks P) (om_counter m) 1 = Some (om_counter m - 1)"
    by (simp add: checked_sub_one_pos)
  with Cons show ?case
    by (auto simp: Let_def tick_def write_ok [OF w] then_io_def bind_io_def)
qed simp

lemma retry_tick_effect:
  assumes w: "writes_ok P" and pos: "\<forall>m\<in>set (outgoing_messages (client s)). 0 < om_counter m"
  shows "on_retry_tick P s =
    (Ok (), s\<lparr>client := (client s)\<lparr>outgoing_messages :=
        filter (\<lambda>m. om_counter m \<noteq> 0) (map tick (outgoing_messages (client s)))\<rparr>,
      iolog := iolog s @ map (resent P) (filter (\<lambda>m. om_counter m \<noteq> 1) (outgoing_messages (client s)))\<rparr>)"
  using retry_loop_effect [OF w pos, of "[]" s]
  by (simp add: on_retry_tick_def bind_io_def then_io_def update_client_def)

text \<open>The queue after \<open>k\<close> seconds without an acknowledgement.\<close>

definition outgoing_after :: "nat \<Rightarrow> outgoing_message list \<Rightarrow> outgoing_message list" where
  "outgoing_after k ms =
     map (\<lambda>m. m\<lparr>om_counter := om_counter m - of_nat k\<rparr>) (filter (\<lambda>m. k < unat (om_counter m)) ms)"

lemma unat_minus_of_nat:
  fixes c :: "'a::len word"
  assumes "k < unat c"
  shows "unat (c - of_nat k) = unat c - k"
proof -
  have "k < 2 ^ LENGTH('a)" using assms unsigned_less [of c] by (rule less_trans)
  then have k: "unat (of_nat k :: 'a word) = k" by (simp add: unat_of_nat)
  with assms have "of_nat k \<le> c" by (simp add: word_le_nat_alt)
  with k show ?thesis by (simp add: unat_sub)
qed

lemma minus_of_nat_eq_iff:
  fixes c :: "'a::len word"
  assumes "k < unat c"
  shows "c - of_nat k - 1 = 0 \<longleftrightarrow> unat c = Suc k" and "c - of_nat k = 1 \<longleftrightarrow> unat c = Suc k"
proof -
  have "c - of_nat k = 1 \<longleftrightarrow> unat (c - of_nat k) = 1" by (metis unat_1 word_unat_eq_iff)
  then show "c - of_nat k = 1 \<longleftrightarrow> unat c = Suc k"
    using assms unat_minus_of_nat [OF assms] by auto
  then show "c - of_nat k - 1 = 0 \<longleftrightarrow> unat c = Suc k" by simp
qed

lemma minus_of_nat_Suc: "(c :: 'a::len word) - of_nat (Suc k) = c - of_nat k - 1"
  by simp

lemma outgoing_after_0: "\<forall>m\<in>set ms. 0 < om_counter m \<Longrightarrow> outgoing_after 0 ms = ms"
  by (simp add: outgoing_after_def word_gt_0 unat_gt_0 map_idI)

lemma outgoing_after_pos: "m \<in> set (outgoing_after k ms) \<Longrightarrow> 0 < om_counter m"
  by (auto simp: outgoing_after_def word_gt_0 unat_eq_zero [symmetric] unat_minus_of_nat simp del: unat_eq_zero)

lemma outgoing_after_Suc:
  "filter (\<lambda>m. om_counter m \<noteq> 0) (map tick (outgoing_after k ms)) = outgoing_after (Suc k) ms"
  by (induction ms)
    (auto simp: outgoing_after_def tick_def minus_of_nat_eq_iff minus_of_nat_Suc simp del: of_nat_Suc)

lemma resent_after:
  "map (resent P) (filter (\<lambda>m. om_counter m \<noteq> 1) (outgoing_after k ms)) =
   map (resent P) (filter (\<lambda>m. Suc k < unat (om_counter m)) ms)"
  by (induction ms) (auto simp: outgoing_after_def minus_of_nat_eq_iff)

lemma serve_branch:
  assumes "will_delay P = Some d"
  shows "serve P addr ReceiverReady = on_receiver_ready P" "serve P addr RetryTick = on_retry_tick P"
    "serve P addr WillTimeout = on_will_timeout P" "serve P addr (ReadBytes data) = on_read P addr data"
  using assms by (simp_all add: serve_def)

lemma retry_run:
  fixes s :: "('w, 'tx, 'rx, 'will) conn"
  assumes w: "writes_ok P" and d: "will_delay P = Some d"
    and pos: "\<forall>m\<in>set (outgoing_messages (client s)). 0 < om_counter m"
  shows "handle_raw_tcp_stream P addr (replicate k RetryTick) s =
    (Ok (), s\<lparr>client := (client s)\<lparr>outgoing_messages := outgoing_after k (outgoing_messages (client s))\<rparr>,
       iolog := iolog s @ concat (map (\<lambda>j. map (resent P)
         (filter (\<lambda>m. Suc j < unat (om_counter m)) (outgoing_messages (client s)))) [0..<k])\<rparr>)"
proof (induction k)
  case 0
  then show ?case by (simp add: handle_raw_tcp_stream_def outgoing_after_0 [OF pos])
next
  case (Suc k)
  let ?s = "s\<lparr>client := (client s)\<lparr>outgoing_messages := outgoing_after k (outgoing_messages (client s))\<rparr>,
       iolog := iolog s @ concat (map (\<lambda>j. map (resent P)
         (filter (\<lambda>m. Suc j < unat (om_counter m)) (outgoing_messages (client s)))) [0..<k])\<rparr>"
  have snoc: "replicate (Suc k) RetryTick = replicate k RetryTick @ [RetryTick]"
    by (simp add: replicate_append_same)
  have "handle_raw_tcp_stream P addr (replicate (Suc k) RetryTick) s = on_retry_tick P ?s"
    using Suc by (simp add: handle_raw_tcp_stream_def snoc for_io_append serve_branch [OF d]
        del: replicate.simps)
  also have "\<dots> = (Ok (), ?s\<lparr>client := (client ?s)\<lparr>outgoing_messages :=
        filter (\<lambda>m. om_counter m \<noteq> 0) (map tick (outgoing_messages (client ?s)))\<rparr>,
      iolog := iolog ?s @ map (resent P) (filter (\<lambda>m. om_counter m \<noteq> 1) (outgoing_messages (client ?s)))\<rparr>)"
    by (rule retry_tick_effect [OF w]) (simp add: outgoing_after_pos)
  finally show ?case by (simp add: outgoing_after_Suc resent_after)
qed

text \<open>Publishing changes the shared store in the same way however the rest of the handler ends.\<close>

lemma handle_publish_shared:
  fixes s :: "('w, 'tx, 'rx, 'will) conn"
  assumes "bt_wf (topics (shared s))"
  shows "shared (snd (handle_publish_packet P p s)) = snd (topics_publish (bc P) p (shared s))"
proof -
  let ?R = "\<lambda>s s' :: ('w, 'tx, 'rx, 'will) conn. shared s' = shared s"
  have w: "tracks ?R (write_to_stream P q)" for q
    by (rule tracksI) (simp add: write_frame)
  have r: "tracks ?R (send_to_redis P q)" for q
    by (rule tracksI) (simp add: send_to_redis_def Let_def)
  have l: "tracks ?R (log_publish P q)" for q
    by (rule tracksI) (simp add: log_publish_def on_iolog_def zoom_io_def split: option.splits prod.splits)
  have "tracks ?R (then_io (if feat_redis (feat P) then send_to_redis P p else ret_io ())
     (then_io
       (case p_qos p of
          AtMostOnce \<Rightarrow> ret_io ()
        | AtLeastOnce \<Rightarrow>
            (case p_packet_id p of
               None \<Rightarrow> panic_io UnwrapNone
             | Some pid \<Rightarrow> write_to_stream P (PublishAck (puback_for pid PublishSuccess)))
        | ExactlyOnce \<Rightarrow> ret_io ())
       (if feat_bq_logging (feat P) then log_publish P p else ret_io ())))"
    by (auto intro!: frame.rules w r l split: qos.splits option.splits)
  then show ?thesis by (simp add: handle_publish_eq [OF assms] tracks_def)
qed

text \<open>All queues of the client are empty.\<close>

definition nothing_unread :: "('w, 'tx, 'rx) broadcast_view \<Rightarrow> ('w, 'tx, 'rx, 'will) conn \<Rightarrow> bool" where
  "nothing_unread V t \<longleftrightarrow> (\<forall>k r. bt_get k (receivers (client t)) = Some r \<longrightarrow> unread V (chans (shared t)) r = [])"

text \<open>A subscriber with nothing else to read forwards what was just published.\<close>

lemma receive_after_publish:
  assumes B: "broadcast_channel (bc P) V" "bc Q = bc P" and inv: "conn_inv V t"
    and sub: "bt_get (topic_name (p_topic p)) (receivers (client t)) = Some rx"
    and quiet: "nothing_unread V t"
    and fresh: "missed V (chans (shared t)) rx = 0"
    and w: "writes_ok Q" and d: "will_delay Q = Some d"
  shows "\<exists>t'. serve Q addr ReceiverReady (t\<lparr>shared := snd (topics_publish (bc P) p (shared t))\<rparr>) = (Ok (), t') \<and>
    iolog t' = iolog t @ [written Q (PublishP p)] \<and> unread V (chans (shared t')) rx = []"
proof -
  let ?name = "topic_name (p_topic p)" and ?B = "bc P"
  have idle: "\<And>k r. bt_get k (receivers (client t)) = Some r \<Longrightarrow> unread V (chans (shared t)) r = []"
    using quiet by (simp add: nothing_unread_def)
  define sh1 where "sh1 = snd (topics_publish ?B p (shared t))"
  define t1 where "t1 = t\<lparr>shared := sh1\<rparr>"
  have sinv: "shared_inv V (shared t)" using inv by (simp add: conn_inv_def)
  have t1: "t1 = t\<lparr>shared := snd (topics_publish (bc P) p (shared t))\<rparr>" by (simp add: t1_def sh1_def)
  note law = broadcast_channel.publish_law [OF B(1) sinv, where p = p, folded sh1_def]
  have inv1: "conn_inv V t1"
    using tracksD [OF broadcast_channel.tracks_publish [OF B(1)], of p t "Ok ()" t1] inv
      publish_on_shared [of t ?B p] shared_invD(1) [OF sinv]
    by (simp add: t1_def sh1_def behaves_def)
  have rx: "rx \<in> subscribers ?name (topic_view V (shared t))"
    using inv sub by (simp add: conn_inv_def client_inv_def)
  have q: "unread V (chans sh1) rx = [Publish p]" "missed V (chans sh1) rx = 0"
    using law(6) [OF rx] idle [OF sub] fresh by simp_all
  have other: "unread V (chans sh1) r = []" if "bt_get k (receivers (client t)) = Some r" "k \<noteq> ?name" for k r
  proof -
    note live = broadcast_channel.receiver_live [OF B(1) inv that(1)]
    with broadcast_channel.subscribers_disjoint [OF B(1) sinv that(2)] rx
    have "r \<in> rxs V (chans (shared t)) - subscribers ?name (topic_view V (shared t))" by blast
    then show ?thesis using law(5) idle [OF that(1)] by (simp add: same_queues_def)
  qed
  have "receiver_poll ?B (receivers (client t1)) (chans (shared t1)) \<noteq> None"
    using broadcast_channel.poll_None [OF B(1) inv1] sub q(1) by (force simp: t1_def)
  then obtain k where k: "receiver_poll ?B (receivers (client t1)) (chans (shared t1)) = Some k" by blast
  with broadcast_channel.poll_Some [OF B(1) inv1 k] other have name: "k = ?name"
    by (auto simp: t1_def)
  from broadcast_channel.receiver_ready_step [OF B(1) inv1 B(2) k] name sub q
  obtain t2 where "on_receiver_ready Q t1 = forward_publish Q p t2" "client t2 = client t" "iolog t2 = iolog t"
    "unread V (chans (shared t2)) rx = []"
    by (auto simp: t1_def)
  then show ?thesis
    by (auto simp: serve_branch [OF d] t1 [symmetric] forward_publish_def then_io_def bind_io_def
        update_client_def write_ok [OF w])
qed

section \<open>Properties of the connection loop\<close>

definition demo_sub :: "(rworld, nat, nat, publish_packet) conn" where
  "demo_sub = demo_conn\<lparr>client := (client demo_conn)\<lparr>receivers := [(''a'', 0)]\<rparr>\<rparr>"

lemma demo_sub_inv: "conn_inv rw_view demo_sub"
  using demo_store_inv demo_store_obs(1)
  by (simp add: conn_inv_def demo_sub_def demo_conn_def client_inv_def bt_wf_def subscribers_def)

lemma demo_delay: "will_delay (demo_platform F) = Some 32"
  by (simp add: will_delay_def checked_plus_def demo_settings_def)

lemma demo_idle: "nothing_unread rw_view demo_sub" "missed rw_view (chans (shared demo_sub)) 0 = 0"
  using demo_store_obs(2)
  by (auto simp: nothing_unread_def demo_sub_def demo_conn_def demo_store_eq(2) rw_view_def rw_missed_def
      rw_cursor_def rc_base_def split: if_splits)

lemma demo_bc: "broadcast_channel (bc (demo_platform F)) rw_view"
  by (simp add: rw.broadcast_channel_axioms)

text \<open>
  Every run of a connection, for any sequence of inputs and timer events and however it ends, keeps
  the topic store and the client's subscriptions consistent and leaves the other connections alone:
  a receiver that the client does not own stays alive, keeps its subscriptions, is not taken over, and
  its queue is only added to, with nothing lost unless it outgrows 1024 messages.
\<close>

theorem connection_keeps_invariant:
  assumes "broadcast_channel (bc P) V" "conn_inv V s" "handle_raw_tcp_stream P addr evs s = (r, s')"
  shows "conn_inv V s' \<and> others_kept V (owned (client s)) (shared s) (shared s') \<and>
    owned (client s') \<inter> rxs V (chans (shared s)) \<subseteq> owned (client s)"
  using tracksD [OF broadcast_channel.tracks_connection [OF assms(1) refl] assms(3)] assms(2)
  by (simp add: behaves_def)

theorem connection_keeps_invariant_witness:
  "conn_inv rw_view (snd (handle_raw_tcp_stream (demo_platform default_features) ''peer''
     [ReadBytes [0x30], ReceiverReady, ReadBytes [0xF0]] demo_sub))"
proof -
  obtain r s' where eq: "handle_raw_tcp_stream (demo_platform default_features) ''peer''
     [ReadBytes [0x30], ReceiverReady, ReadBytes [0xF0]] demo_sub = (r, s')" by (metis surj_pair)
  from connection_keeps_invariant [OF demo_bc demo_sub_inv eq] show ?thesis by (simp add: eq)
qed

text \<open>
  C18. From publisher to subscriber: when one connection handles a publication, however that handler
  ends, a connection subscribed to the topic with nothing else to read takes the message from its
  receiver in its next receiving iteration and writes exactly this packet to its own stream.
\<close>

theorem published_reaches_subscriber:
  assumes B: "broadcast_channel (bc P) V" "bc Q = bc P" and inv: "conn_inv V t"
    and sh: "shared s = shared t"
    and sub: "bt_get (topic_name (p_topic p)) (receivers (client t)) = Some rx"
    and quiet: "nothing_unread V t"
    and fresh: "missed V (chans (shared t)) rx = 0"
    and w: "writes_ok Q" and d: "will_delay Q = Some d"
  shows "\<exists>t'. serve Q addr ReceiverReady (t\<lparr>shared := shared (snd (handle_publish_packet P p s))\<rparr>) = (Ok (), t') \<and>
    iolog t' = iolog t @ [written Q (PublishP p)] \<and> unread V (chans (shared t')) rx = []"
proof -
  have "bt_wf (topics (shared s))" using inv sh shared_invD(1) by (auto simp: conn_inv_def)
  from handle_publish_shared [OF this, of P p]
  have "shared (snd (handle_publish_packet P p s)) = snd (topics_publish (bc P) p (shared t))" by (simp add: sh)
  then show ?thesis using receive_after_publish [OF B inv sub quiet fresh w d, of addr] by simp
qed

theorem published_reaches_subscriber_witness:
  "\<exists>t'. serve (demo_platform default_features) ''peer'' ReceiverReady
     (demo_sub\<lparr>shared := shared (snd (handle_publish_packet (demo_platform default_features)
        (plain_publish ''a'' [7] False) demo_conn))\<rparr>) = (Ok (), t') \<and> iolog t' = [WriteAll [0x30] None]"
proof -
  have sub: "bt_get (topic_name (p_topic (plain_publish ''a'' [7] False))) (receivers (client demo_sub)) = Some 0"
    by (simp add: demo_sub_def)
  have sh: "shared demo_conn = shared demo_sub" by (simp add: demo_sub_def)
  let ?P = "demo_platform default_features" and ?p = "plain_publish ''a'' [7] False"
  from published_reaches_subscriber [OF demo_bc refl demo_sub_inv sh sub demo_idle demo_writes_ok demo_delay]
  show ?thesis by (auto simp: demo_lib_def demo_sub_def demo_conn_def)
qed

text \<open>
  C28. Receiving is ordered and makes progress: when some queue of a client is not empty the receiving
  branch is enabled, picks the first such topic in key order, and takes the oldest message of that
  queue; it neither waits nor panics. If the receiver has not fallen behind, that packet is written
  to the stream, and with QoS 1 it is also queued for retransmission with its expiry interval (or 1)
  as the counter; if it has fallen behind, nothing is lost beyond what was overwritten.
\<close>

theorem receiver_branch_forwards_oldest:
  assumes B: "broadcast_channel (bc P) V" and inv: "conn_inv V s" and w: "writes_ok P"
    and some: "bt_get k0 (receivers (client s)) = Some rx0" "unread V (chans (shared s)) rx0 \<noteq> []"
  shows "enabled P s ReceiverReady \<and> (\<exists>k rx p ms s'.
    bt_get k (receivers (client s)) = Some rx \<and> unread V (chans (shared s)) rx = Publish p # ms \<and>
    (\<forall>k' rx'. bt_get k' (receivers (client s)) = Some rx' \<and> unread V (chans (shared s)) rx' \<noteq> [] \<longrightarrow> k \<le> k') \<and>
    on_receiver_ready P s = (Ok (), s') \<and>
    (if missed V (chans (shared s)) rx = 0
     then unread V (chans (shared s')) rx = ms \<and> iolog s' = iolog s @ [written P (PublishP p)] \<and>
       outgoing_messages (client s') = outgoing_messages (client s) @
         (if p_qos p = AtLeastOnce
          then [\<lparr>om_packet = p, om_counter = (case p_message_expiry_interval p of Some n \<Rightarrow> n | None \<Rightarrow> 1)\<rparr>]
          else [])
     else unread V (chans (shared s')) rx = Publish p # ms \<and> missed V (chans (shared s')) rx = 0 \<and>
       iolog s' = iolog s))"
proof -
  have "receiver_poll (bc P) (receivers (client s)) (chans (shared s)) \<noteq> None"
    using broadcast_channel.poll_None [OF B inv] some by blast
  then obtain k where k: "receiver_poll (bc P) (receivers (client s)) (chans (shared s)) = Some k" by blast
  have least: "\<forall>k' rx'. bt_get k' (receivers (client s)) = Some rx' \<and> unread V (chans (shared s)) rx' \<noteq> [] \<longrightarrow> k \<le> k'"
    using broadcast_channel.poll_Some [OF B inv k] by blast
  from broadcast_channel.receiver_ready_step [OF B inv refl k]
  obtain rx p ms s1 where st: "bt_get k (receivers (client s)) = Some rx"
    "unread V (chans (shared s)) rx = Publish p # ms" "client s1 = client s" "iolog s1 = iolog s"
    "missed V (chans (shared s1)) rx = 0"
    "if missed V (chans (shared s)) rx = 0
     then unread V (chans (shared s1)) rx = ms \<and> on_receiver_ready P s = forward_publish P p s1
     else unread V (chans (shared s1)) rx = Publish p # ms \<and> on_receiver_ready P s = (Ok (), s1)" by blast
  have fwd: "forward_publish P p s1 = (Ok (), s1\<lparr>client := (client s1)\<lparr>outgoing_messages := outgoing_messages (client s1) @
         (if p_qos p = AtLeastOnce
          then [\<lparr>om_packet = p, om_counter = (case p_message_expiry_interval p of Some n \<Rightarrow> n | None \<Rightarrow> 1)\<rparr>]
          else [])\<rparr>, iolog := iolog s1 @ [written P (PublishP p)]\<rparr>)"
    by (simp add: forward_publish_def then_io_def bind_io_def update_client_def write_ok [OF w])
  have "enabled P s ReceiverReady" by (simp add: enabled_def k)
  then show ?thesis
    using st least fwd
    by (intro conjI exI [of _ k] exI [of _ rx] exI [of _ p] exI [of _ ms]
        exI [of _ "snd (on_receiver_ready P s)"]) (simp_all split: if_splits)
qed

definition demo_pending :: "(rworld, nat, nat, publish_packet) conn" where
  "demo_pending = demo_sub\<lparr>shared := snd (topics_publish rw_ops (plain_publish ''a'' [7] False) demo_store)\<rparr>"

lemma demo_pending_facts:
  "conn_inv rw_view demo_pending" "bt_get ''a'' (receivers (client demo_pending)) = Some 0"
  "unread rw_view (chans (shared demo_pending)) 0 = [Publish (plain_publish ''a'' [7] False)]"
proof -
  have sh: "shared demo_sub = demo_store" by (simp add: demo_sub_def demo_conn_def)
  from tracksD [OF rw.tracks_publish, of "plain_publish ''a'' [7] False" demo_sub "Ok ()" demo_pending] demo_sub_inv
  show "conn_inv rw_view demo_pending"
    using publish_on_shared [of demo_sub rw_ops "plain_publish ''a'' [7] False"] shared_invD(1) [OF demo_store_inv]
    by (simp add: behaves_def demo_pending_def sh)
  show "bt_get ''a'' (receivers (client demo_pending)) = Some 0"
    by (simp add: demo_pending_def demo_sub_def)
  show "unread rw_view (chans (shared demo_pending)) 0 = [Publish (plain_publish ''a'' [7] False)]"
    using rw.publish_law(6) [OF demo_store_inv, of 0 "plain_publish ''a'' [7] False"]
    by (simp add: demo_pending_def demo_store_obs subscribers_def)
qed

theorem receiver_branch_forwards_oldest_witness:
  "enabled (demo_platform default_features) demo_pending ReceiverReady"
  using receiver_branch_forwards_oldest [OF demo_bc demo_pending_facts(1) demo_writes_ok demo_pending_facts(2)]
    demo_pending_facts(3) by simp

text \<open>
  C19. Retransmission: from a queue in which no counter is zero, \<open>k\<close> retry ticks in a row on a working
  stream always succeed. In tick number \<open>j\<close> (from 0) exactly the messages with a counter above
  \<open>j + 1\<close> are written again, in queue order; afterwards exactly the messages with a counter above
  \<open>k\<close> remain, with the counter lowered by \<open>k\<close>. So a message with expiry interval \<open>n\<close> that is never
  acknowledged is retransmitted \<open>n - 1\<close> times and is gone after \<open>n\<close> seconds.
\<close>

theorem retransmission_schedule:
  assumes "writes_ok P" "will_delay P = Some d"
    and "\<forall>m\<in>set (outgoing_messages (client s)). 0 < om_counter m"
  shows "\<exists>s'. handle_raw_tcp_stream P addr (replicate k RetryTick) s = (Ok (), s') \<and>
    outgoing_messages (client s') =
      map (\<lambda>m. m\<lparr>om_counter := om_counter m - of_nat k\<rparr>)
        (filter (\<lambda>m. k < unat (om_counter m)) (outgoing_messages (client s))) \<and>
    iolog s' = iolog s @ concat (map (\<lambda>j. map (resent P)
      (filter (\<lambda>m. j + 1 < unat (om_counter m)) (outgoing_messages (client s)))) [0..<k])"
  using retry_run [OF assms, of addr k] by (simp add: outgoing_after_def)

definition demo_retry :: "(rworld, nat, nat, publish_packet) conn" where
  "demo_retry = demo_sub\<lparr>client := (client demo_sub)\<lparr>outgoing_messages :=
     [\<lparr>om_packet = (plain_publish ''a'' [7] False)\<lparr>p_qos := AtLeastOnce, p_packet_id := Some 4\<rparr>, om_counter = 3\<rparr>]\<rparr>\<rparr>"

theorem retransmission_schedule_witness:
  "\<exists>s'. handle_raw_tcp_stream (demo_platform default_features) ''peer'' (replicate 3 RetryTick) demo_retry = (Ok (), s') \<and>
    outgoing_messages (client s') = [] \<and> iolog s' = [WriteAll [0x30] None, WriteAll [0x30] None]"
  using retransmission_schedule [OF demo_writes_ok demo_delay, of demo_retry default_features "''peer''" 3]
  by (simp add: demo_retry_def demo_sub_def demo_conn_def demo_lib_def upt_rec)

definition unacked :: "publish_ack_packet \<Rightarrow> outgoing_message list \<Rightarrow> outgoing_message list" where
  "unacked a ms = filter (\<lambda>m. p_packet_id (om_packet m) \<noteq> Some (pa_packet_id a)) ms"

text \<open>Only forwarding a message puts it into the queue: every other branch leaves packets out at most.\<close>

abbreviation queued :: "('w, 'tx, 'rx, 'will) conn \<Rightarrow> publish_packet set" where
  "queued s \<equiv> om_packet ` set (outgoing_messages (client s))"

abbreviation queues_nothing :: "publish_packet set \<Rightarrow> ('w, 'tx, 'rx, 'will, 'a) handler \<Rightarrow> bool" where
  "queues_nothing X \<equiv> tracks (\<lambda>s s'. queued s \<subseteq> X \<longrightarrow> queued s' \<subseteq> X)"

lemma queue_calls:
  "queues_nothing X (write_to_stream P packet)" "queues_nothing X (on_shared m)" "queues_nothing X (send_to_redis P q)"
  "queues_nothing X (on_iolog l)" "queues_nothing X (shutdown_stream P)" "queues_nothing X (handle_publishack_packet a)"
  "queues_nothing X (insert_receiver P k rx)" "queues_nothing X (update_client (\<lambda>c. c\<lparr>will := w\<rparr>))"
  "queues_nothing X (update_client (\<lambda>c. c\<lparr>outgoing_messages := filter F (outgoing_messages c)\<rparr>))"
  by (rule tracksI, auto simp: write_to_stream_def on_shared_def zoom_io_def send_to_redis_def on_iolog_def shutdown_stream_def
      handle_publishack_packet_def update_client_def insert_receiver_def Let_def split: prod.split outcome.split option.split)+

lemmas queue_rules = keep_inv.rules queue_calls

lemma queue_publish: "queues_nothing X (handle_publish_packet P p)"
  unfolding handle_publish_packet_def log_publish_def
  by (intro queue_rules) (auto intro!: queue_rules split: qos.split option.split)

lemma queue_publish_will: "queues_nothing X (publish_will P)"
  unfolding publish_will_def by (auto intro!: queue_rules queue_publish split: option.split)

lemma queue_subscribe: "queues_nothing X (subscribe_loop P ts codes)"
  by (induction ts arbitrary: codes)
    (auto simp: subscribe_concrete_def register_receiver_def send_retained_def intro!: queue_rules split: topic_filter.split option.split)

lemma queue_unsubscribe: "queues_nothing X (unsubscribe_loop P ts codes)"
proof (rule tracksI)
  fix s
  show "queued s \<subseteq> X \<longrightarrow> queued (snd (unsubscribe_loop P ts codes s)) \<subseteq> X"
    by (induction P ts codes s rule: unsubscribe_loop.induct) (simp_all split: option.split prod.split)
qed

lemma queue_dispatch: "queues_nothing X (dispatch P addr packet)"
  unfolding dispatch_def handle_connect_packet_def handle_pingreq_packet_def handle_subscribe_packet_def handle_disconnect_packet_def
    handle_unsubscribe_packet_def
  by (auto intro!: queue_rules queue_publish queue_publish_will queue_subscribe queue_unsubscribe split: option.split packet.split)

lemma queue_retry:
  "om_packet ` set (visited @ ms) \<subseteq> X \<Longrightarrow> queued (snd (retry_loop P visited ms s)) \<subseteq> X"
  by (induction ms arbitrary: visited s)
    (auto simp: then_io_def bind_io_def write_to_stream_def Let_def split: option.split)

lemma queue_retry_tick: "queues_nothing X (on_retry_tick P)"
proof (rule tracksI)
  fix s
  show "queued s \<subseteq> X \<longrightarrow> queued (snd (on_retry_tick P s)) \<subseteq> X"
    using queue_retry [of "[]" "outgoing_messages (client s)" X P s]
    by (auto simp: on_retry_tick_def bind_io_def then_io_def update_client_def image_subset_iff split: prod.split outcome.split)
qed

lemma queue_serve:
  assumes "ev \<noteq> ReceiverReady"
  shows "queues_nothing X (serve P addr ev)"
  unfolding serve_def on_read_def handle_packet_def on_will_timeout_def
  using assms by (auto intro!: queue_rules queue_dispatch queue_publish_will queue_retry_tick split: option.split event.split sum.split)

lemma queue_run:
  assumes "ReceiverReady \<notin> set evs"
  shows "queued (snd (handle_raw_tcp_stream P addr evs s)) \<subseteq> queued s"
proof -
  have "queues_nothing (queued s) (for_io (serve P addr) evs)"
    using assms by (induction evs) (auto intro!: keep_inv.ret keep_inv.seq queue_serve)
  then show ?thesis by (simp add: tracks_def handle_raw_tcp_stream_def)
qed

text \<open>A retry tick writes nothing but packets of the queue, whatever the stream answers.\<close>

definition writes_of :: "('w, 'tx, 'rx, 'will) platform \<Rightarrow> publish_packet set \<Rightarrow> io_call set" where
  "writes_of P M = {WriteAll (encode_mqtt (mqtt P) (PublishP p) V500) r | p r. p \<in> M}"

lemma writes_of_mono: "M \<subseteq> N \<Longrightarrow> writes_of P M \<subseteq> writes_of P N"
  by (auto simp: writes_of_def)

lemma retry_writes:
  "om_packet ` set ms \<subseteq> M \<Longrightarrow> \<exists>l. iolog (snd (retry_loop P visited ms s)) = iolog s @ l \<and> set l \<subseteq> writes_of P M"
proof (induction ms arbitrary: visited s)
  case (Cons m ms)
  show ?case
  proof (cases "checked_sub (overflow_checks P) (om_counter m) 1")
    case None
    then show ?thesis by (simp add: then_io_def bind_io_def)
  next
    case (Some c)
    let ?m = "m\<lparr>om_counter := c\<rparr>"
    obtain o1 s1 where wr: "write_to_stream P (PublishP (om_packet m)) (s\<lparr>client := (client s)\<lparr>outgoing_messages := visited @ ?m # ms\<rparr>\<rparr>) = (o1, s1)"
      by (meson surj_pair)
    then obtain r where r: "iolog s1 = iolog s @ [WriteAll (encode_mqtt (mqtt P) (PublishP (om_packet m)) V500) r]"
      by (auto simp: write_to_stream_def Let_def split: option.splits)
    have "WriteAll (encode_mqtt (mqtt P) (PublishP (om_packet m)) V500) r \<in> writes_of P M"
      using Cons.prems by (auto simp: writes_of_def)
    with r wr Some show ?thesis
      using Cons.IH [of "visited @ [?m]" s1] Cons.IH [of "visited @ [?m]" s] Cons.prems
      by (cases o1; cases "c = 0") (auto simp: then_io_def bind_io_def update_client_def Let_def)
  qed
qed simp

lemma retry_tick_writes: "\<exists>l. iolog (snd (on_retry_tick P s)) = iolog s @ l \<and> set l \<subseteq> writes_of P (queued s)"
  using retry_writes [of "outgoing_messages (client s)" "queued s" P "[]" s]
  by (auto simp: on_retry_tick_def bind_io_def then_io_def update_client_def split: prod.split outcome.split)

text \<open>
  C20. An acknowledged message is not sent again, unless a message with its identifier is forwarded anew: after a PUBACK for a packet
  identifier no queued message has that identifier, and all other queued messages are still there in the same order.
  Whatever happens then, as long as the connection forwards nothing: the queue holds only packets of those others,
  and the next retry tick writes only packets of those others, whatever the stream answers. On a working stream, any number of retry ticks in a
  row succeeds.
\<close>

theorem acknowledged_not_resent:
  assumes "writes_ok P" "will_delay P = Some d"
    and "\<forall>m\<in>set (outgoing_messages (client s)). 0 < om_counter m"
  shows "\<exists>s1. dispatch P addr (Some (PublishAck a)) s = (Ok (), s1) \<and>
    outgoing_messages (client s1) = unacked a (outgoing_messages (client s)) \<and>
    (\<exists>s2 ms. handle_raw_tcp_stream P addr (replicate k RetryTick) s1 = (Ok (), s2) \<and>
       set ms \<subseteq> set (unacked a (outgoing_messages (client s))) \<and> iolog s2 = iolog s @ map (resent P) ms) \<and>
    (\<forall>evs s2. ReceiverReady \<notin> set evs \<and> s2 = snd (handle_raw_tcp_stream P addr evs s1) \<longrightarrow>
       queued s2 \<subseteq> om_packet ` set (unacked a (outgoing_messages (client s))) \<and>
       (\<exists>l. iolog (snd (on_retry_tick P s2)) = iolog s2 @ l \<and>
          set l \<subseteq> writes_of P (om_packet ` set (unacked a (outgoing_messages (client s))))))"
proof -
  define others where "others = unacked a (outgoing_messages (client s))"
  define s1 where "s1 = s\<lparr>client := (client s)\<lparr>outgoing_messages := others\<rparr>\<rparr>"
  have ack: "dispatch P addr (Some (PublishAck a)) s = (Ok (), s1)"
    by (simp add: dispatch_def handle_publishack_packet_def update_client_def s1_def others_def unacked_def)
  have pos: "\<forall>m\<in>set (outgoing_messages (client s1)). 0 < om_counter m"
    using assms(3) by (auto simp: s1_def others_def unacked_def)
  note run = retry_run [OF assms(1,2) pos, of addr k]
  have s1: "outgoing_messages (client s1) = others" "iolog s1 = iolog s" by (simp_all add: s1_def)
  let ?ms = "concat (map (\<lambda>j. filter (\<lambda>m. Suc j < unat (om_counter m)) others) [0..<k])"
  have "set ?ms \<subseteq> set others" by auto
  moreover have "iolog (snd (handle_raw_tcp_stream P addr (replicate k RetryTick) s1)) = iolog s @ map (resent P) ?ms"
    by (simp add: run s1 map_concat comp_def)
  ultimately have ticks: "\<exists>s2 ms. handle_raw_tcp_stream P addr (replicate k RetryTick) s1 = (Ok (), s2) \<and>
      set ms \<subseteq> set others \<and> iolog s2 = iolog s @ map (resent P) ms"
    by (intro exI [of _ "snd (handle_raw_tcp_stream P addr (replicate k RetryTick) s1)"] exI [of _ ?ms])
      (simp only: run prod.collapse fst_conv snd_conv prod.sel)
  have "queued s2 \<subseteq> om_packet ` set others \<and>
      (\<exists>l. iolog (snd (on_retry_tick P s2)) = iolog s2 @ l \<and> set l \<subseteq> writes_of P (om_packet ` set others))"
    if "ReceiverReady \<notin> set evs" "s2 = snd (handle_raw_tcp_stream P addr evs s1)" for evs s2
  proof -
    have q: "queued s2 \<subseteq> om_packet ` set others" using queue_run [OF that(1), of P addr s1] by (simp add: that(2) s1(1))
    then show ?thesis using retry_tick_writes [of P s2] writes_of_mono by blast
  qed
  with ack s1(1) ticks show ?thesis unfolding others_def by (intro exI [of _ s1]) blast
qed

theorem acknowledged_not_resent_witness:
  "\<exists>s1 s2. dispatch (demo_platform default_features) ''peer'' (Some (PublishAck (puback_for 4 PublishSuccess))) demo_retry
      = (Ok (), s1) \<and>
    handle_raw_tcp_stream (demo_platform default_features) ''peer'' (replicate 2 RetryTick) s1 = (Ok (), s2) \<and>
    iolog s2 = iolog demo_retry \<and>
    outgoing_messages (client (snd (handle_raw_tcp_stream (demo_platform default_features) ''peer'' [ReadBytes [0xC0], RetryTick] s1))) = []"
proof -
  have pos: "\<forall>m\<in>set (outgoing_messages (client demo_retry)). 0 < om_counter m" by (simp add: demo_retry_def)
  have none: "unacked (puback_for 4 PublishSuccess) (outgoing_messages (client demo_retry)) = []"
    by (simp add: unacked_def demo_retry_def puback_for_def)
  from acknowledged_not_resent [OF demo_writes_ok demo_delay pos, of default_features "''peer''" "puback_for 4 PublishSuccess" 2] none
  obtain s1 s2 where "dispatch (demo_platform default_features) ''peer'' (Some (PublishAck (puback_for 4 PublishSuccess))) demo_retry = (Ok (), s1)"
    "handle_raw_tcp_stream (demo_platform default_features) ''peer'' (replicate 2 RetryTick) s1 = (Ok (), s2)" "iolog s2 = iolog demo_retry"
    "queued (snd (handle_raw_tcp_stream (demo_platform default_features) ''peer'' [ReadBytes [0xC0], RetryTick] s1)) \<subseteq> {}"
    by (auto dest!: spec [of _ "[ReadBytes [0xC0], RetryTick]"])
  then show ?thesis by auto
qed

text \<open>
  An expiry interval of zero: a queued message whose counter is 0 makes the next retry tick panic in
  a build with overflow checks; in a build without them the counter wraps around to the largest
  32-bit value, so that the message that should have expired at once is sent again.
\<close>

theorem zero_expiry_underflow:
  assumes "outgoing_messages (client s) = [m]" "om_counter m = 0" "writes_ok P"
  shows "if overflow_checks P then on_retry_tick P s = (Panic ArithmeticOverflow, s)
    else on_retry_tick P s =
      (Ok (), s\<lparr>client := (client s)\<lparr>outgoing_messages := [m\<lparr>om_counter := 2 ^ 32 - 1\<rparr>]\<rparr>,
         iolog := iolog s @ [resent P m]\<rparr>)"
proof -
  have "s\<lparr>client := (client s)\<lparr>outgoing_messages := [m]\<rparr>\<rparr> = s" using assms(1) by simp
  then show ?thesis
    using assms(1,2)
    by (simp add: on_retry_tick_def bind_io_def then_io_def checked_sub_def Let_def write_ok [OF assms(3)]
        update_client_def)
qed

theorem zero_expiry_underflow_witness:
  "iolog (snd (on_retry_tick (demo_platform default_features)
     (demo_sub\<lparr>client := (client demo_sub)\<lparr>outgoing_messages :=
        [\<lparr>om_packet = plain_publish ''a'' [7] False, om_counter = 0\<rparr>]\<rparr>\<rparr>))) = [WriteAll [0x30] None]"
  using zero_expiry_underflow [of "demo_sub\<lparr>client := (client demo_sub)\<lparr>outgoing_messages :=
        [\<lparr>om_packet = plain_publish ''a'' [7] False, om_counter = 0\<rparr>]\<rparr>\<rparr>"
      "\<lparr>om_packet = plain_publish ''a'' [7] False, om_counter = 0\<rparr>" "demo_platform default_features"]
  by (simp add: demo_writes_ok demo_lib_def demo_sub_def demo_conn_def)

text \<open>
  C35. The keep-alive timer: a configured timeout below 65534 gives a delay of exactly two seconds more.
  From 65534 on the 16-bit addition overflows: a build with overflow checks panics in the first
  iteration of every connection, whatever the client sends, and one without them waits less than two
  seconds.
\<close>

theorem keep_alive_delay:
  "if unat (timeout (cfg_general (settings P))) + 2 < 2 ^ 16
   then \<exists>d. will_delay P = Some d \<and> unat d = unat (timeout (cfg_general (settings P))) + 2
   else if overflow_checks P then serve P addr ev s = (Panic ArithmeticOverflow, s)
   else \<exists>d. will_delay P = Some d \<and> unat d < 2"
proof -
  let ?t = "timeout (cfg_general (settings P))"
  have lt: "unat ?t < 2 ^ 16" using unsigned_less [of ?t] by simp
  have sum: "unat (?t + 2) = (unat ?t + 2) mod 2 ^ 16" by (simp add: unat_word_ariths)
  show ?thesis
  proof (cases "unat ?t + 2 < 2 ^ 16")
    case True
    then show ?thesis using sum by (simp add: will_delay_def checked_plus_def)
  next
    case False
    then have "(unat ?t + 2) mod 2 ^ 16 = unat ?t + 2 - 2 ^ 16"
      using lt by (simp add: mod_if)
    then show ?thesis
      using False sum lt by (auto simp: will_delay_def checked_plus_def serve_def)
  qed
qed

text \<open>
  C36. When the will is published. When the peer closes the stream without a DISCONNECT, or reading
  fails, the iteration returns its error at once and changes nothing: the will is not published. A keep-alive
  timeout publishes the will, and so does a DISCONNECT with the reason code that asks for it, whatever
  the features and the quality of service of the will; a DISCONNECT with any other reason code changes
  nothing and ends the connection. After a timeout the stream is shut down if publishing the will
  succeeded; otherwise the iteration ends with the failure of the publication and the stream is not
  shut down.
\<close>

theorem will_on_timeout_or_request:
  assumes d: "will_delay P = Some d" and wf: "bt_wf (topics (shared s))" and w: "will (client s) = Some lw"
    and dec: "data \<noteq> []" "decode_mqtt (mqtt P) (fill_buffer data) V500 = Inr (Some (Disconnect p))"
  shows "serve P addr (ReadBytes []) s = (Err (UnexpectedClientDisconnected addr), s) \<and>
    serve P addr (ReadError e) s = (Err (ClientError addr), s) \<and>
    shared (snd (serve P addr WillTimeout s)) =
      snd (topics_publish (bc P) (publish_from_will (mqtt P) lw) (shared s)) \<and>
    (if d_reason_code p = DisconnectWithWillMessage
     then shared (snd (serve P addr (ReadBytes data) s)) =
            snd (topics_publish (bc P) (publish_from_will (mqtt P) lw) (shared s)) \<and>
          fst (serve P addr (ReadBytes data) s) \<noteq> Ok ()
     else serve P addr (ReadBytes data) s = (Err (ClientError addr), s)) \<and>
    (if fst (publish_will P s) = Ok ()
     then \<exists>r. iolog (snd (serve P addr WillTimeout s)) = iolog (snd (publish_will P s)) @ [Shutdown r] \<and>
            (fst (serve P addr WillTimeout s) = Ok () \<longleftrightarrow> r = None)
     else serve P addr WillTimeout s = publish_will P s)"
proof -
  obtain r s1 where pw: "publish_will P s = (r, s1)" by (cases "publish_will P s") simp
  moreover have "publish_will P s = handle_publish_packet P (publish_from_will (mqtt P) lw) s"
    by (simp add: publish_will_def bind_io_def w)
  ultimately have sh: "shared s1 = snd (topics_publish (bc P) (publish_from_will (mqtt P) lw) (shared s))"
    using handle_publish_shared [OF wf] by (metis snd_conv)
  have timeout: "serve P addr WillTimeout s = then_io (publish_will P) (shutdown_stream P) s"
    by (simp add: serve_def d on_will_timeout_def)
  have disconnect: "serve P addr (ReadBytes data) s =
      match_io (handle_disconnect_packet P addr p) (case_sum (\<lambda>_. err_io (ClientError addr)) ret_io) s"
    by (simp add: serve_def d on_read_def dec handle_packet_def dispatch_def)
  show ?thesis
    unfolding timeout disconnect using pw sh
    by (cases r) (auto simp: serve_def d on_read_def then_io_def bind_io_def match_io_def shutdown_stream_def
        handle_disconnect_packet_def Let_def split: option.splits)
qed

definition demo_will :: "(rworld, nat, nat, publish_packet) conn" where
  "demo_will = demo_conn\<lparr>client := (client demo_conn)\<lparr>will := Some (plain_publish ''a'' [7] False)\<rparr>\<rparr>"

text \<open>A decoder for which the byte E0 is a DISCONNECT that asks for the will.\<close>

definition disconnect_platform :: "(rworld, nat, nat, publish_packet) platform" where
  "disconnect_platform = (demo_platform default_features)\<lparr>mqtt := demo_lib\<lparr>decode_mqtt := (\<lambda>buf v.
     if take 1 buf = [0xE0] then Inr (Some (Disconnect \<lparr>d_reason_code = DisconnectWithWillMessage\<rparr>))
     else decode_mqtt demo_lib buf v)\<rparr>\<rparr>"

theorem will_on_timeout_or_request_witness:
  "serve disconnect_platform ''peer'' (ReadBytes []) demo_will = (Err (UnexpectedClientDisconnected ''peer''), demo_will) \<and>
   shared (snd (serve disconnect_platform ''peer'' WillTimeout demo_will)) =
     snd (topics_publish rw_ops (plain_publish ''a'' [7] False) (shared demo_will)) \<and>
   shared (snd (serve disconnect_platform ''peer'' (ReadBytes [0xE0]) demo_will)) =
     snd (topics_publish rw_ops (plain_publish ''a'' [7] False) (shared demo_will))"
proof -
  let ?p = "\<lparr>d_reason_code = DisconnectWithWillMessage\<rparr>"
  have "bt_wf (topics (shared demo_will))" "will (client demo_will) = Some (plain_publish ''a'' [7] False)"
    "[0xE0] \<noteq> ([] :: bytes)"
    "decode_mqtt (mqtt disconnect_platform) (fill_buffer [0xE0]) V500 = Inr (Some (Disconnect ?p))"
    using demo_wf by (simp_all add: demo_will_def disconnect_platform_def fill_buffer_def)
  moreover have "will_delay disconnect_platform = Some 32"
    using demo_delay [of default_features] by (simp add: disconnect_platform_def will_delay_def)
  ultimately show ?thesis
    using will_on_timeout_or_request [of disconnect_platform _ demo_will _ "[0xE0]" ?p "''peer''"]
    by (simp add: disconnect_platform_def demo_lib_def)
qed

text \<open>
  The will stays with the client: it is not cleared when it has been published, and a timeout does
  not end the loop. After \<open>n\<close> timeouts on a stream whose shutdown succeeds the loop still runs and
  the will has been published \<open>n\<close> times.
\<close>

theorem will_published_on_every_timeout:
  assumes d: "will_delay P = Some d" and wf: "shared_inv V (shared s)" and B: "broadcast_channel (bc P) V"
    and w: "will (client s) = Some lw" and q: "p_qos (publish_from_will (mqtt P) lw) \<noteq> AtLeastOnce"
    and f: "\<not> feat_redis (feat P)" "\<not> feat_bq_logging (feat P)" and sd: "\<And>l. env_shutdown (env P) l = None"
  shows "handle_raw_tcp_stream P addr (replicate n WillTimeout) s =
    (Ok (), s\<lparr>shared := ((\<lambda>sh. snd (topics_publish (bc P) (publish_from_will (mqtt P) lw) sh)) ^^ n) (shared s),
       iolog := iolog s @ replicate n (Shutdown None)\<rparr>)"
  using wf w
proof (induction n arbitrary: s)
  case (Suc n)
  let ?p = "publish_from_will (mqtt P) lw"
  define s1 where "s1 = s\<lparr>shared := snd (topics_publish (bc P) ?p (shared s)), iolog := iolog s @ [Shutdown None]\<rparr>"
  have "publish_will P s = (Ok (), s\<lparr>shared := snd (topics_publish (bc P) ?p (shared s))\<rparr>)"
    using Suc.prems(2) q f handle_publish_eq [OF shared_invD(1) [OF Suc.prems(1)], of P ?p]
    by (cases "p_qos ?p") (simp_all add: publish_will_def bind_io_def)
  then have "serve P addr WillTimeout s = (Ok (), s1)"
    by (simp add: serve_def d on_will_timeout_def then_io_def shutdown_stream_def sd s1_def)
  moreover have "shared_inv V (shared s1)" "will (client s1) = Some lw"
    using broadcast_channel.publish_law(2) [OF B Suc.prems(1)] Suc.prems(2) by (simp_all add: s1_def)
  ultimately show ?case
    using Suc.IH [of s1] funpow_swap1 [of "\<lambda>sh. snd (topics_publish (bc P) ?p sh)" n "shared s"]
    by (simp add: handle_raw_tcp_stream_def then_io_def s1_def)
qed (simp add: handle_raw_tcp_stream_def)

theorem will_published_on_every_timeout_witness:
  "iolog (snd (handle_raw_tcp_stream (demo_platform default_features) ''peer'' (replicate 2 WillTimeout) demo_will)) =
     [Shutdown None, Shutdown None]"
proof -
  let ?P = "demo_platform default_features" and ?w = "plain_publish ''a'' [7] False"
  have "shared_inv rw_view (shared demo_will)" using demo_store_inv by (simp add: demo_will_def demo_conn_def)
  from will_published_on_every_timeout [OF demo_delay this demo_bc, of ?w default_features "''peer''" 2]
  show ?thesis
    by (simp add: demo_will_def demo_lib_def default_features_def demo_env_def demo_conn_def numeral_2_eq_2)
qed

text \<open>
  One read, one packet: when the bytes of a packet are enough for the decoder, whatever follows
  them in the same read is dropped; the iteration is the same as if the read had ended there.
\<close>

theorem coalesced_input_ignored:
  assumes "\<And>rest. decode_mqtt (mqtt P) (a @ rest) V500 = Inr (Some packet)" "a \<noteq> []"
  shows "serve P addr (ReadBytes (a @ b)) = serve P addr (ReadBytes a)"
  using assms by (simp add: serve_def on_read_def fill_buffer_def handle_packet_def split: option.splits)

theorem coalesced_input_ignored_witness:
  "serve (demo_platform default_features) ''peer'' (ReadBytes ([0xC0] @ [0x30])) =
   serve (demo_platform default_features) ''peer'' (ReadBytes [0xC0])"
  by (rule coalesced_input_ignored [where packet = PingRequest]) (simp_all add: demo_lib_def)

text \<open>
  When the task of a connection ends its receivers are dropped: the store stays consistent, no
  topic and no retained message is lost, the subscribers of each topic are exactly the former
  ones without the receivers of this client, and the queues of all other receivers are unchanged.
\<close>

theorem drop_client_frees_receivers:
  assumes "broadcast_channel B V" "shared_inv V sh" "client_inv V c sh"
  shows "shared_inv V (drop_client B c sh) \<and> topics (drop_client B c sh) = topics sh \<and>
    rxs V (chans (drop_client B c sh)) = rxs V (chans sh) - owned c \<and>
    (\<forall>k. subscribers k (topic_view V (drop_client B c sh)) = subscribers k (topic_view V sh) - owned c) \<and>
    same_queues V (rxs V (chans sh) - owned c) (chans sh) (chans (drop_client B c sh))"
  using broadcast_channel.drop_client_law [OF assms] by simp

theorem drop_client_frees_receivers_witness:
  "subscribers ''a'' (topic_view rw_view (drop_client rw_ops (client demo_sub) (shared demo_sub))) = {}"
proof -
  have "shared_inv rw_view (shared demo_sub)" "client_inv rw_view (client demo_sub) (shared demo_sub)"
    using demo_sub_inv by (simp_all add: conn_inv_def)
  from drop_client_frees_receivers [OF rw.broadcast_channel_axioms this] show ?thesis
    using demo_store_obs(1)
    by (auto simp: demo_sub_def demo_conn_def subscribers_def owned_def)
qed

end
