(* ===== verification/Redis.thy ===== *)
theory Redis
  imports Connection
begin

text \<open>
  The Redis synchronisation of \<open>src/src/redis_client.rs\<close>: a broker publishes every packet it got from
  its clients on the Redis channel \<open>sync\<close>, stores the retained ones under \<open>retain:\<close> keys, publishes
  what other brokers put on \<open>sync\<close> to its own topics, and loads the stored messages when it starts.
  The Redis server and the crates \<open>redis\<close> and \<open>serde_json\<close> are arguments: each call to the server is
  an entry of a log, and the record \<open>redis_env\<close> answers it, depending on the log so far.
\<close>

section \<open>Data\<close>

record redis_message =
  rm_sender_id :: string
  rm_topic :: string
  rm_payload :: bytes
  rm_qos :: u8
  rm_retain :: bool

text \<open>\<open>serde_json\<close> for \<open>RedisMessage\<close> and \<open>Option<RedisMessage>\<close>.\<close>

record 'v json_lib =
  to_value :: "redis_message \<Rightarrow> string + 'v"
  value_to_string :: "'v \<Rightarrow> string"
  from_str :: "string \<Rightarrow> string + redis_message"
  from_str_option :: "string \<Rightarrow> string + redis_message option"

text \<open>
  Calls with their answers. A message obtained from the subscription carries the result of
  \<open>get_payload::<String>\<close>; \<open>Forward\<close> is \<open>blocking_send\<close> on the channel to the listening task.
\<close>

datatype redis_call =
    GetConnection "string option"
  | Query "string list" "string + string"
  | QueryKeys "string list" "string + string list"
  | SubscribeTo string "string option"
  | GetMessage "string + (string + string)"
  | Forward string bool

record redis_env =
  re_open :: "string \<Rightarrow> string option"
  re_get_connection :: "redis_call list \<Rightarrow> string option"
  re_query :: "redis_call list \<Rightarrow> string list \<Rightarrow> string + string"
  re_query_keys :: "redis_call list \<Rightarrow> string list \<Rightarrow> string + string list"
  re_subscribe :: "redis_call list \<Rightarrow> string \<Rightarrow> string option"
  re_get_message :: "redis_call list \<Rightarrow> string + (string + string)"
  re_forward :: "redis_call list \<Rightarrow> string \<Rightarrow> bool"

text \<open>The struct \<open>RedisClient\<close>; the topics it shares with the connections are part of the state.\<close>

record redis_client =
  rc_client :: string
  rc_receiver :: mpsc_id
  rc_sender_id :: string

record ('w, 'tx) redis_state =
  rs_shared :: "('w, 'tx) shared"
  rlog :: "redis_call list"

type_synonym ('w, 'tx, 'a) redis_io = "(('w, 'tx) redis_state, mcloud_error, 'a) io"

definition on_rs :: "(('w, 'tx) shared, mcloud_error, 'a) io \<Rightarrow> ('w, 'tx, 'a) redis_io" where
  "on_rs = zoom_io rs_shared (\<lambda>x s. s\<lparr>rs_shared := x\<rparr>)"

section \<open>Operations\<close>

definition redis_client_new ::
    "redis_env \<Rightarrow> (nat \<Rightarrow> char) \<Rightarrow> string \<Rightarrow> u16 \<Rightarrow> mpsc_id \<Rightarrow> (mcloud_error, redis_client) outcome" where
  "redis_client_new E rng host port rcv =
     (let url = ''redis://'' @ host @ '':'' @ show_nat (unat port)
      in case re_open E url of
           Some e \<Rightarrow> Panic (UnwrapErr e)
         | None \<Rightarrow> Ok \<lparr>rc_client = url, rc_receiver = rcv, rc_sender_id = map rng [0..<8]\<rparr>)"

text \<open>
  \<open>get_connection\<close> retries until the server answers. \<open>None\<close> is a loop that never ends.
\<close>

partial_function (option) get_connection :: "redis_env \<Rightarrow> redis_call list \<Rightarrow> redis_call list option" where
  "get_connection E l =
     (case re_get_connection E l of
        None \<Rightarrow> Some (l @ [GetConnection None])
      | Some e \<Rightarrow> get_connection E (l @ [GetConnection (Some e)]))"

text \<open>\<open>let _ = redis::cmd(..).query::<String>(&mut con)\<close>\<close>

definition redis_query :: "redis_env \<Rightarrow> string list \<Rightarrow> ('w, 'tx, string + string) redis_io" where
  "redis_query E cmd s =
     (let r = re_query E (rlog s) cmd in (Ok r, s\<lparr>rlog := rlog s @ [Query cmd r]\<rparr>))"

definition redis_message_of :: "redis_client \<Rightarrow> publish_packet \<Rightarrow> redis_message" where
  "redis_message_of c message =
     \<lparr>rm_sender_id = rc_sender_id c, rm_topic = topic_name (p_topic message),
      rm_payload = p_payload message, rm_qos = qos_as_u8 (p_qos message), rm_retain = p_retain message\<rparr>"

definition retain_key :: "string \<Rightarrow> string" where
  "retain_key name = ''retain:'' @ name"

definition redis_publish ::
    "'v json_lib \<Rightarrow> redis_env \<Rightarrow> redis_client \<Rightarrow> publish_packet \<Rightarrow> ('w, 'tx) redis_state \<Rightarrow>
     ((mcloud_error, unit) outcome \<times> ('w, 'tx) redis_state) option" where
  "redis_publish J E c message s =
     (case get_connection E (rlog s) of
        None \<Rightarrow> None
      | Some l \<Rightarrow> Some (
          (case to_value J (redis_message_of c message) of
             Inl e \<Rightarrow> panic_io (UnwrapErr e)
           | Inr v \<Rightarrow>
               then_io (redis_query E [''PUBLISH'', ''sync'', value_to_string J v])
                 (if p_retain message
                  then then_io (redis_query E [''SET'', retain_key (topic_name (p_topic message)), value_to_string J v])
                         (ret_io ())
                  else ret_io ())) (s\<lparr>rlog := l\<rparr>)))"

text \<open>\<open>handle_message\<close>: messages of this broker come back from Redis and are dropped by their id.\<close>

definition handle_message ::
    "('w, 'tx, 'rx, 'will) platform \<Rightarrow> 'v json_lib \<Rightarrow> redis_client \<Rightarrow> string \<Rightarrow> ('w, 'tx, unit) redis_io" where
  "handle_message P J c message =
     (case from_str J message of
        Inl e \<Rightarrow> panic_io (UnwrapErr e)
      | Inr m \<Rightarrow>
          if rm_sender_id m = rc_sender_id c then ret_io ()
          else
            (case build_publish (mqtt P) (rm_topic m) (rm_payload m) (Some (rm_retain m)) of
               Inl e \<Rightarrow> panic_io (UnwrapErr e)
             | Inr publish_packet \<Rightarrow> discard (on_rs (topics_publish (bc P) publish_packet))))"

text \<open>
  One round of the select loop of \<open>listen\<close>. A branch whose channel is closed is disabled; when both
  are, \<open>select!\<close> without an \<open>else\<close> branch panics.
\<close>

datatype redis_event = FromBroker publish_packet | FromRedis string | BothClosed

definition listen_step ::
    "('w, 'tx, 'rx, 'will) platform \<Rightarrow> 'v json_lib \<Rightarrow> redis_env \<Rightarrow> redis_client \<Rightarrow> redis_event \<Rightarrow>
     ('w, 'tx) redis_state \<Rightarrow> ((mcloud_error, unit) outcome \<times> ('w, 'tx) redis_state) option" where
  "listen_step P J E c ev s =
     (case ev of
        FromBroker message \<Rightarrow> redis_publish J E c message s
      | FromRedis message \<Rightarrow> Some (handle_message P J c message s)
      | BothClosed \<Rightarrow> Some (Panic (ExpectFailed ''all branches are disabled and there is no else branch''), s))"

fun listen ::
    "('w, 'tx, 'rx, 'will) platform \<Rightarrow> 'v json_lib \<Rightarrow> redis_env \<Rightarrow> redis_client \<Rightarrow> redis_event list \<Rightarrow>
     ('w, 'tx) redis_state \<Rightarrow> ((mcloud_error, unit) outcome \<times> ('w, 'tx) redis_state) option" where
  "listen P J E c [] s = Some (Ok (), s)"
| "listen P J E c (ev # evs) s =
     (case listen_step P J E c ev s of
        Some (Ok _, s') \<Rightarrow> listen P J E c evs s'
      | r \<Rightarrow> r)"

text \<open>The task that waits for messages on \<open>sync\<close>: one round of its endless loop, and \<open>n\<close> rounds.\<close>

definition handle_redis_message ::
    "redis_env \<Rightarrow> string + string \<Rightarrow> (redis_call list, mcloud_error, unit) io" where
  "handle_redis_message E msg l =
     (case msg of
        Inl e \<Rightarrow> (Err (from_redis_error e), l)
      | Inr message \<Rightarrow>
          let accepted = re_forward E l message; l' = l @ [Forward message accepted]
          in if accepted then (Ok (), l') else (Err (from_send_error (SendError message)), l'))"

definition receive_round :: "redis_env \<Rightarrow> redis_call list \<Rightarrow> redis_call list" where
  "receive_round E l =
     (let c = re_get_connection E l; l1 = l @ [GetConnection c]
      in case c of
           Some _ \<Rightarrow> l1
         | None \<Rightarrow>
             let b = re_subscribe E l1 ''sync''; l2 = l1 @ [SubscribeTo ''sync'' b]
             in case b of
                  Some _ \<Rightarrow> l2
                | None \<Rightarrow>
                    let r = re_get_message E l2; l3 = l2 @ [GetMessage r]
                    in case r of
                         Inl _ \<Rightarrow> l3
                       | Inr msg \<Rightarrow> snd (handle_redis_message E msg l3))"

definition receive_from_redis :: "redis_env \<Rightarrow> nat \<Rightarrow> redis_call list \<Rightarrow> redis_call list" where
  "receive_from_redis E n = receive_round E ^^ n"

section \<open>Loading the retained messages\<close>

definition restore_message ::
    "('w, 'tx, 'rx, 'will) platform \<Rightarrow> redis_message \<Rightarrow> ('w, 'tx, unit) redis_io" where
  "restore_message P m =
     (case build_publish (mqtt P) (rm_topic m) (rm_payload m) None of
        Inl e \<Rightarrow> panic_io (UnwrapErr e)
      | Inr publish_packet \<Rightarrow>
          match_io (on_rs (topics_add (bc P) (rm_topic m))) (\<lambda>r.
            case r of
              Inl _ \<Rightarrow> panic_io (UnwrapErr ''MCloudError'')
            | Inr receiver \<Rightarrow>
                then_io (on_rs (on_chans (modify_io (b_drop_rx (bc P) receiver))))
                  (on_rs (then_io (get_mut_unwrap (rm_topic m))
                    (modify_io (set_retained (rm_topic m) publish_packet))))))"

definition load_key ::
    "('w, 'tx, 'rx, 'will) platform \<Rightarrow> 'v json_lib \<Rightarrow> redis_env \<Rightarrow> string \<Rightarrow> ('w, 'tx, unit) redis_io" where
  "load_key P J E key =
     bind_io (redis_query E [''GET'', key]) (\<lambda>r.
       case r of
         Inr redis_message_str \<Rightarrow>
           (case from_str_option J redis_message_str of
              Inr (Some redis_message) \<Rightarrow> restore_message P redis_message
            | _ \<Rightarrow> ret_io ())
       | Inl _ \<Rightarrow> ret_io ())"

definition get_all_retained_messages ::
    "('w, 'tx, 'rx, 'will) platform \<Rightarrow> 'v json_lib \<Rightarrow> redis_env \<Rightarrow> ('w, 'tx) redis_state \<Rightarrow>
     ((mcloud_error, unit) outcome \<times> ('w, 'tx) redis_state) option" where
  "get_all_retained_messages P J E s =
     (case get_connection E (rlog s) of
        None \<Rightarrow> None
      | Some l \<Rightarrow>
          let r = re_query_keys E l [''KEYS'', ''retain:*''];
              s' = s\<lparr>rlog := l @ [QueryKeys [''KEYS'', ''retain:*''] r]\<rparr>
          in case r of
               Inl e \<Rightarrow> Some (Panic (UnwrapErr e), s')
             | Inr keys \<Rightarrow> Some (for_io (load_key P J E) keys s'))"

section \<open>Reaching the server\<close>

text \<open>What a call to \<open>get_connection\<close> appends: refused attempts and one that succeeds.\<close>

lemma get_connection_shape:
  "get_connection E l = Some l' \<Longrightarrow>
    \<exists>es. l' = l @ map (\<lambda>e. GetConnection (Some e)) es @ [GetConnection None] \<and>
      re_get_connection E (l @ map (\<lambda>e. GetConnection (Some e)) es) = None"
proof (induction rule: get_connection.raw_induct [rotated 1, consumes 1, case_names step])
  case (step gc E l r)
  show ?case
  proof (cases "re_get_connection E l")
    case None
    with step(2) show ?thesis by (intro exI [of _ "[]"]) simp
  next
    case (Some e)
    with step(2) have "gc E (l @ [GetConnection (Some e)]) = Some r" by simp
    from step(1) [OF this] obtain es where
      "r = l @ map (\<lambda>e. GetConnection (Some e)) (e # es) @ [GetConnection None] \<and>
       re_get_connection E (l @ map (\<lambda>e. GetConnection (Some e)) (e # es)) = None" by auto
    then show ?thesis by blast
  qed
qed

lemma get_connection_up: "re_get_connection E l = None \<Longrightarrow> get_connection E l = Some (l @ [GetConnection None])"
  by (subst get_connection.simps) simp

lemma get_connection_retry:
  "re_get_connection E l = Some e \<Longrightarrow> get_connection E l = get_connection E (l @ [GetConnection (Some e)])"
  by (subst get_connection.simps) simp

lemma get_connection_ends:
  assumes "\<And>l'. n \<le> length l' \<Longrightarrow> re_get_connection E l' = None"
  shows "\<exists>l'. get_connection E l = Some l'"
proof (induction "n - length l" arbitrary: l)
  case 0
  then have "re_get_connection E l = None" using assms by simp
  then show ?case using get_connection_up by blast
next
  case (Suc d)
  show ?case
  proof (cases "re_get_connection E l")
    case (Some e)
    have "d = n - length (l @ [GetConnection (Some e)])" using Suc(2) by simp
    from Suc(1) [OF this] show ?thesis using get_connection_retry [OF Some] by simp
  qed (use get_connection_up in blast)
qed

lemma get_connection_down:
  assumes "\<And>d. re_get_connection E (l @ d) \<noteq> None"
  shows "get_connection E l = None"
proof (cases "get_connection E l")
  case (Some l')
  with get_connection_shape [OF Some] assms show ?thesis by blast
qed

section \<open>The stored messages\<close>

text \<open>What a Redis server has stored after a sequence of calls.\<close>

fun set_entry :: "redis_call \<Rightarrow> (string \<times> string) option" where
  "set_entry (Query [cmd, k, v] (Inr _)) = (if cmd = ''SET'' then Some (k, v) else None)"
| "set_entry _ = None"

definition store_step :: "redis_call \<Rightarrow> (string \<Rightarrow> string option) \<Rightarrow> (string \<Rightarrow> string option)" where
  "store_step c m = (case set_entry c of None \<Rightarrow> m | Some (k, v) \<Rightarrow> m(k \<mapsto> v))"

definition redis_store :: "redis_call list \<Rightarrow> string \<Rightarrow> string option" where
  "redis_store l = fold store_step l (\<lambda>_. None)"

lemma redis_store_snoc [simp]: "redis_store (l @ [c]) = (case set_entry c of None \<Rightarrow> redis_store l | Some (k, v) \<Rightarrow> (redis_store l)(k \<mapsto> v))"
  unfolding redis_store_def by (simp add: store_step_def)

lemma redis_store_connection: "get_connection E l = Some l' \<Longrightarrow> redis_store l' = redis_store l"
proof -
  have "redis_store (l @ map (\<lambda>e. GetConnection (Some e)) es) = redis_store l" for es l
    by (induction es rule: rev_induct) (simp_all add: append.assoc [symmetric] del: append.assoc append_assoc)
  then show "get_connection E l = Some l' \<Longrightarrow> redis_store l' = redis_store l"
    by (auto dest!: get_connection_shape simp: append.assoc [symmetric] simp del: append_assoc)
qed

lemma retain_key_inj [simp]: "retain_key a = retain_key b \<longleftrightarrow> a = b"
  by (simp add: retain_key_def)

text \<open>
  The commands \<open>SET\<close>, \<open>GET\<close> and \<open>KEYS\<close> of a server that is up; \<open>KEYS\<close> may list the keys in any order.
\<close>

locale redis_service =
  fixes E :: redis_env
  assumes set_accepted: "\<exists>r. re_query E l [''SET'', k, v] = Inr r"
    and get_answer: "re_query E l [''GET'', k] = (case redis_store l k of Some v \<Rightarrow> Inr v | None \<Rightarrow> Inl ''nil'')"
    and keys_answer: "\<exists>ks. re_query_keys E l [''KEYS'', ''retain:*''] = Inr ks \<and> distinct ks \<and>
      set ks = {k. k \<in> range retain_key \<and> redis_store l k \<noteq> None}"
begin

text \<open>The names of the topics with a stored message.\<close>

lemma keys_topics:
  "\<exists>ts. re_query_keys E l [''KEYS'', ''retain:*''] = Inr (map retain_key ts) \<and> distinct ts \<and>
     (\<forall>t. t \<in> set ts \<longleftrightarrow> redis_store l (retain_key t) \<noteq> None)"
proof -
  from keys_answer [of l] obtain ks where
    ks: "re_query_keys E l [''KEYS'', ''retain:*''] = Inr ks" "distinct ks"
      "set ks = {k. k \<in> range retain_key \<and> redis_store l k \<noteq> None}" by blast
  have "\<forall>k\<in>set ks. \<exists>t. k = retain_key t" using ks(3) by auto
  then obtain ts where ts: "ks = map retain_key ts" unfolding ex_map_conv [symmetric] by blast
  have "t \<in> set ts \<longleftrightarrow> retain_key t \<in> set ks" for t by (auto simp: ts)
  then have "t \<in> set ts \<longleftrightarrow> redis_store l (retain_key t) \<noteq> None" for t unfolding ks(3) by simp
  moreover have "distinct ts" using ks(2) by (simp add: ts distinct_map)
  ultimately show ?thesis using ks(1) unfolding ts by blast
qed

end

text \<open>
  The contract of the serialisation: a message that is written can be read again, also as an
  optional one.
\<close>

definition json_ok :: "'v json_lib \<Rightarrow> bool" where
  "json_ok J \<longleftrightarrow> (\<forall>m. \<exists>v. to_value J m = Inr v \<and> from_str J (value_to_string J v) = Inr m \<and>
     from_str_option J (value_to_string J v) = Inr (Some m))"

text \<open>
  The store as brokers leave it: under \<open>retain:t\<close> there is a message with topic \<open>t\<close> that the packet
  builder accepts.
\<close>

definition stored_ok :: "('w, 'tx, 'rx, 'will) platform \<Rightarrow> 'v json_lib \<Rightarrow> (string \<Rightarrow> string option) \<Rightarrow> bool" where
  "stored_ok P J S \<longleftrightarrow> (\<forall>t v. S (retain_key t) = Some v \<longrightarrow>
     (\<exists>m p. from_str_option J v = Inr (Some m) \<and> rm_topic m = t \<and>
        build_publish (mqtt P) t (rm_payload m) None = Inr p))"

lemma stored_okD:
  assumes "stored_ok P J S" "S (retain_key t) = Some v"
  obtains m p where "from_str_option J v = Inr (Some m)" "rm_topic m = t"
    "build_publish (mqtt P) t (rm_payload m) None = Inr p"
  using assms unfolding stored_ok_def by blast

section \<open>The operations in closed form\<close>

lemma redis_publish_eq:
  assumes J: "json_ok J" and up: "get_connection E (rlog s) = Some l"
  shows "\<exists>v r. to_value J (redis_message_of c p) = Inr v \<and>
    from_str J (value_to_string J v) = Inr (redis_message_of c p) \<and>
    from_str_option J (value_to_string J v) = Inr (Some (redis_message_of c p)) \<and>
    redis_publish J E c p s =
      Some (Ok (), s\<lparr>rlog := l @ Query [''PUBLISH'', ''sync'', value_to_string J v] r #
        (if p_retain p
         then [Query [''SET'', retain_key (topic_name (p_topic p)), value_to_string J v]
                 (re_query E (l @ [Query [''PUBLISH'', ''sync'', value_to_string J v] r])
                    [''SET'', retain_key (topic_name (p_topic p)), value_to_string J v])]
         else [])\<rparr>)"
proof -
  from J obtain v where v: "to_value J (redis_message_of c p) = Inr v"
    "from_str J (value_to_string J v) = Inr (redis_message_of c p)"
    "from_str_option J (value_to_string J v) = Inr (Some (redis_message_of c p))" by (auto simp: json_ok_def)
  then show ?thesis
    by (intro exI [of _ v] exI [of _ "re_query E l [''PUBLISH'', ''sync'', value_to_string J v]"])
      (simp add: redis_publish_def up then_io_def bind_io_def redis_query_def Let_def)
qed

lemma redis_publish_stores:
  assumes J: "json_ok J" and srv: "redis_service E" and up: "get_connection E (rlog s) = Some l" and ret: "p_retain p"
  shows "\<exists>x s'. redis_publish J E c p s = Some (Ok (), s') \<and>
    from_str_option J x = Inr (Some (redis_message_of c p)) \<and>
    redis_store (rlog s') = (redis_store (rlog s))(retain_key (topic_name (p_topic p)) \<mapsto> x)"
proof -
  let ?key = "retain_key (topic_name (p_topic p))"
  from redis_publish_eq [OF J up, of c p] ret obtain v r where
    v: "from_str_option J (value_to_string J v) = Inr (Some (redis_message_of c p))"
    and run: "redis_publish J E c p s =
      Some (Ok (), s\<lparr>rlog := l @ [Query [''PUBLISH'', ''sync'', value_to_string J v] r,
        Query [''SET'', ?key, value_to_string J v]
          (re_query E (l @ [Query [''PUBLISH'', ''sync'', value_to_string J v] r]) [''SET'', ?key, value_to_string J v])]\<rparr>)"
    by auto
  obtain r2 where r2: "re_query E (l @ [Query [''PUBLISH'', ''sync'', value_to_string J v] r])
      [''SET'', ?key, value_to_string J v] = Inr r2"
    using redis_service.set_accepted [OF srv] by blast
  have "set_entry (Query [''PUBLISH'', ''sync'', value_to_string J v] r) = None" by (cases r) simp_all
  then have "redis_store ((l @ [Query [''PUBLISH'', ''sync'', value_to_string J v] r]) @
      [Query [''SET'', ?key, value_to_string J v] (Inr r2)]) = (redis_store (rlog s))(?key \<mapsto> value_to_string J v)"
    unfolding redis_store_snoc redis_store_connection [OF up] by simp
  with v run r2 show ?thesis by (intro exI [of _ "value_to_string J v"]) simp
qed

lemma handle_message_own:
  "from_str J x = Inr (redis_message_of c p) \<Longrightarrow> handle_message P J c x t = (Ok (), t)"
  by (simp add: handle_message_def redis_message_of_def)

lemma handle_message_other:
  assumes "from_str J x = Inr (redis_message_of c p)" "rc_sender_id c \<noteq> rc_sender_id c'"
    "build_publish (mqtt P) (topic_name (p_topic p)) (p_payload p) (Some (p_retain p)) = Inr q"
    "bt_wf (topics (rs_shared t))"
  shows "handle_message P J c' x t = (Ok (), t\<lparr>rs_shared := snd (topics_publish (bc P) q (rs_shared t))\<rparr>)"
  using assms(1-3) publish_eq [OF assms(4), of "bc P" q]
  by (simp add: handle_message_def redis_message_of_def discard_def match_io_def on_rs_def zoom_io_def)

lemma restore_message_eq:
  assumes "bt_wf (topics (rs_shared s))" "bt_get (rm_topic m) (topics (rs_shared s)) = None"
    "build_publish (mqtt P) (rm_topic m) (rm_payload m) None = Inr p"
  shows "restore_message P m s =
    (Ok (), s\<lparr>rs_shared := set_retained (rm_topic m) p (ensure_topic (bc P) (rm_topic m) (rs_shared s))\<rparr>)"
proof -
  obtain tx rx w where ch: "b_channel (bc P) 1024 (chans (rs_shared s)) = ((tx, rx), w)" by (metis surj_pair)
  show ?thesis
    using assms add_absent [OF assms(2) ch] ch
    by (simp add: restore_message_def match_io_def then_io_def bind_io_def on_rs_def zoom_io_def
        on_chans_modify get_mut_unwrap_def ensure_topic_def bt.get_put)
qed

lemma restored_topic:
  assumes "bt_wf (topics sh)" "bt_get name (topics sh) = None"
  shows "get_retained_message t (set_retained name p (ensure_topic B name sh)) =
      (if t = name then Some p else get_retained_message t sh)"
    "t \<noteq> name \<Longrightarrow> bt_get t (topics (set_retained name p (ensure_topic B name sh))) = bt_get t (topics sh)"
  using assms
  by (auto simp: get_retained_message_def set_retained_def ensure_topic_def bt.get_upd bt.get_put
      split: option.splits prod.splits)

lemma load_key_eq:
  assumes "redis_service E" "redis_store (rlog s) (retain_key t) = Some v" "from_str_option J v = Inr (Some m)"
    "rm_topic m = t" "build_publish (mqtt P) t (rm_payload m) None = Inr p"
    "bt_wf (topics (rs_shared s))" "bt_get t (topics (rs_shared s)) = None"
  shows "load_key P J E (retain_key t) s =
    (Ok (), s\<lparr>rs_shared := set_retained t p (ensure_topic (bc P) t (rs_shared s)),
       rlog := rlog s @ [Query [''GET'', retain_key t] (Inr v)]\<rparr>)"
  using assms(2-7) redis_service.get_answer [OF assms(1), of "rlog s" "retain_key t"]
    restore_message_eq [of "s\<lparr>rlog := rlog s @ [Query [''GET'', retain_key t] (Inr v)]\<rparr>" m P p]
  by (simp add: load_key_def bind_io_def redis_query_def Let_def)

context broadcast_channel
begin

lemma restored_inv:
  assumes "shared_inv V sh" "topic_name (p_topic p) = name"
  shows "shared_inv V (set_retained name p (ensure_topic B name sh))"
  using shared_inv_retained [OF ensure_topic_law(1) [OF assms(1), of name], where p = p] assms(2) by simp

lemma load_keys:
  fixes s :: "('w, 'tx) redis_state"
  assumes srv: "redis_service E" and bld: "publish_builder (build_publish (mqtt P))" and bcP: "bc P = B"
    and ok: "stored_ok P J S"
  shows "shared_inv V (rs_shared s) \<Longrightarrow> redis_store (rlog s) = S \<Longrightarrow> distinct ts \<Longrightarrow>
    (\<And>t. t \<in> set ts \<Longrightarrow> S (retain_key t) \<noteq> None \<and> bt_get t (topics (rs_shared s)) = None) \<Longrightarrow>
    \<exists>s'. for_io (load_key P J E) (map retain_key ts) s = (Ok (), s') \<and> shared_inv V (rs_shared s') \<and>
      redis_store (rlog s') = S \<and>
      (\<forall>t. t \<notin> set ts \<longrightarrow> bt_get t (topics (rs_shared s')) = bt_get t (topics (rs_shared s))) \<and>
      (\<forall>t v m. t \<in> set ts \<longrightarrow> S (retain_key t) = Some v \<longrightarrow> from_str_option J v = Inr (Some m) \<longrightarrow>
         (\<exists>p. build_publish (mqtt P) t (rm_payload m) None = Inr p \<and>
            get_retained_message t (rs_shared s') = Some p))"
proof (induction ts arbitrary: s)
  case (Cons t ts)
  from Cons.prems(4) obtain v where v: "S (retain_key t) = Some v" by auto
  from stored_okD [OF ok v] obtain m p where m: "from_str_option J v = Inr (Some m)" "rm_topic m = t"
    and p: "build_publish (mqtt P) t (rm_payload m) None = Inr p" .
  define sh where "sh = rs_shared s"
  define sh1 where "sh1 = set_retained t p (ensure_topic B t sh)"
  define s1 where "s1 = s\<lparr>rs_shared := sh1, rlog := rlog s @ [Query [''GET'', retain_key t] (Inr v)]\<rparr>"
  have inv: "shared_inv V sh" and new: "bt_get t (topics sh) = None" using Cons.prems by (simp_all add: sh_def)
  note wf = shared_invD(1) [OF inv]
  have load: "load_key P J E (retain_key t) s = (Ok (), s1)"
    using load_key_eq [OF srv _ m p] v Cons.prems(2) wf new by (simp add: s1_def sh1_def sh_def bcP)
  have inv1: "shared_inv V (rs_shared s1)"
    using restored_inv [OF inv, of p t] publish_builder.build_topic [OF bld p] by (simp add: s1_def sh1_def)
  have store1: "redis_store (rlog s1) = S" using Cons.prems(2) by (simp add: s1_def)
  have other: "bt_get t' (topics (rs_shared s1)) = bt_get t' (topics sh)" if "t' \<noteq> t" for t'
    using restored_topic(2) [OF wf new that] by (simp add: s1_def sh1_def)
  have here: "get_retained_message t (rs_shared s1) = Some p"
    using restored_topic(1) [OF wf new, where B = B] by (simp add: s1_def sh1_def)
  have "S (retain_key t') \<noteq> None \<and> bt_get t' (topics (rs_shared s1)) = None" if "t' \<in> set ts" for t'
    using Cons.prems(3,4) other [of t'] that by (auto simp: sh_def)
  from Cons.IH [OF inv1 store1 _ this] Cons.prems(3) obtain s' where
    run: "for_io (load_key P J E) (map retain_key ts) s1 = (Ok (), s')" and inv': "shared_inv V (rs_shared s')"
    and store': "redis_store (rlog s') = S"
    and keep: "\<And>t'. t' \<notin> set ts \<Longrightarrow> bt_get t' (topics (rs_shared s')) = bt_get t' (topics (rs_shared s1))"
    and got: "\<And>t' v m. t' \<in> set ts \<Longrightarrow> S (retain_key t') = Some v \<Longrightarrow> from_str_option J v = Inr (Some m) \<Longrightarrow>
      \<exists>p. build_publish (mqtt P) t' (rm_payload m) None = Inr p \<and> get_retained_message t' (rs_shared s') = Some p"
    by auto
  have "get_retained_message t (rs_shared s') = Some p"
    using keep [of t] Cons.prems(3) here by (simp add: get_retained_message_def)
  with got v m p have "\<exists>p. build_publish (mqtt P) t' (rm_payload m') None = Inr p \<and>
      get_retained_message t' (rs_shared s') = Some p"
    if "t' \<in> set (t # ts)" "S (retain_key t') = Some v'" "from_str_option J v' = Inr (Some m')" for t' v' m'
    using that by (cases "t' = t") auto
  moreover have "bt_get t' (topics (rs_shared s')) = bt_get t' (topics (rs_shared s))" if "t' \<notin> set (t # ts)" for t'
    using that keep [of t'] other [of t'] by (simp add: sh_def)
  ultimately show ?case
    using load run inv' store' by (intro exI [of _ s']) (simp add: then_io_def)
qed simp

text \<open>Loading at startup, from a server that brokers have filled, into an empty topic store.\<close>

lemma load_all:
  fixes s :: "('w, 'tx) redis_state"
  assumes srv: "redis_service E" and bld: "publish_builder (build_publish (mqtt P))" and bcP: "bc P = B"
    and ok: "stored_ok P J (redis_store (rlog s))" and up: "get_connection E (rlog s) = Some l"
    and empty: "rs_shared s = topics_default w" 
    and w': "shared_inv V (topics_default w :: ('w, 'tx) shared)"
  shows "\<exists>s'. get_all_retained_messages P J E s = Some (Ok (), s') \<and> shared_inv V (rs_shared s') \<and>
    (\<forall>t. case redis_store (rlog s) (retain_key t) of
       None \<Rightarrow> get_retained_message t (rs_shared s') = None
     | Some v \<Rightarrow> \<exists>m p. from_str_option J v = Inr (Some m) \<and> build_publish (mqtt P) t (rm_payload m) None = Inr p \<and>
         get_retained_message t (rs_shared s') = Some p)"
proof -
  have st: "redis_store l = redis_store (rlog s)" by (rule redis_store_connection [OF up])
  from redis_service.keys_topics [OF srv, of l] obtain ts where
    ks: "re_query_keys E l [''KEYS'', ''retain:*''] = Inr (map retain_key ts)" and dist: "distinct ts"
    and mem: "\<And>t. t \<in> set ts \<longleftrightarrow> redis_store (rlog s) (retain_key t) \<noteq> None" by (auto simp: st)
  define s1 where "s1 = s\<lparr>rlog := l @ [QueryKeys [''KEYS'', ''retain:*''] (Inr (map retain_key ts))]\<rparr>"
  have "\<exists>s'. for_io (load_key P J E) (map retain_key ts) s1 = (Ok (), s') \<and> shared_inv V (rs_shared s') \<and>
      redis_store (rlog s') = redis_store (rlog s) \<and>
      (\<forall>t. t \<notin> set ts \<longrightarrow> bt_get t (topics (rs_shared s')) = bt_get t (topics (rs_shared s1))) \<and>
      (\<forall>t v m. t \<in> set ts \<longrightarrow> redis_store (rlog s) (retain_key t) = Some v \<longrightarrow> from_str_option J v = Inr (Some m) \<longrightarrow>
         (\<exists>p. build_publish (mqtt P) t (rm_payload m) None = Inr p \<and>
            get_retained_message t (rs_shared s') = Some p))"
    by (rule load_keys [OF srv bld bcP ok])
      (use empty w' st mem dist in \<open>auto simp: s1_def topics_default_def\<close>)
  then obtain s' where run: "for_io (load_key P J E) (map retain_key ts) s1 = (Ok (), s')"
    and inv: "shared_inv V (rs_shared s')"
    and no: "\<And>t. t \<notin> set ts \<Longrightarrow> bt_get t (topics (rs_shared s')) = None"
    and got: "\<And>t v m. t \<in> set ts \<Longrightarrow> redis_store (rlog s) (retain_key t) = Some v \<Longrightarrow>
      from_str_option J v = Inr (Some m) \<Longrightarrow>
      \<exists>p. build_publish (mqtt P) t (rm_payload m) None = Inr p \<and> get_retained_message t (rs_shared s') = Some p"
    by (auto simp: s1_def empty topics_default_def)
  have "get_all_retained_messages P J E s = Some (Ok (), s')"
    using run by (simp add: get_all_retained_messages_def up ks s1_def)
  moreover have "case redis_store (rlog s) (retain_key t) of
       None \<Rightarrow> get_retained_message t (rs_shared s') = None
     | Some v \<Rightarrow> \<exists>m p. from_str_option J v = Inr (Some m) \<and> build_publish (mqtt P) t (rm_payload m) None = Inr p \<and>
         get_retained_message t (rs_shared s') = Some p" for t
  proof (cases "redis_store (rlog s) (retain_key t)")
    case None
    with mem no have "bt_get t (topics (rs_shared s')) = None" by simp
    with None show ?thesis by (simp add: get_retained_message_def)
  next
    case (Some v)
    from stored_okD [OF ok Some] obtain m where m: "from_str_option J v = Inr (Some m)" .
    from got [OF _ Some m] mem Some m show ?thesis by simp
  qed
  ultimately show ?thesis using inv by blast
qed

end

section \<open>A reference server and codec\<close>

text \<open>A server that is always up and answers from the calls made so far.\<close>

definition ref_query :: "redis_call list \<Rightarrow> string list \<Rightarrow> string + string" where
  "ref_query l cmd =
     (case cmd of
        [c, k] \<Rightarrow>
          if c = ''GET'' then (case redis_store l k of Some v \<Rightarrow> Inr v | None \<Rightarrow> Inl ''nil'') else Inr ''OK''
      | _ \<Rightarrow> Inr ''OK'')"

definition ref_keys :: "redis_call list \<Rightarrow> string list" where
  "ref_keys l = filter (\<lambda>k. take 7 k = ''retain:'') (remdups (map fst (List.map_filter set_entry l)))"

definition ref_redis :: redis_env where
  "ref_redis = \<lparr>re_open = (\<lambda>_. None), re_get_connection = (\<lambda>_. None), re_query = ref_query,
     re_query_keys = (\<lambda>l cmd. Inr (ref_keys l)), re_subscribe = (\<lambda>l ch. None),
     re_get_message = (\<lambda>l. Inl ''closed''), re_forward = (\<lambda>l m. True)\<rparr>"

lemma store_keys: "redis_store l k \<noteq> None \<longleftrightarrow> k \<in> set (map fst (List.map_filter set_entry l))"
proof (induction l rule: rev_induct)
  case Nil
  then show ?case by (simp add: redis_store_def map_filter_simps)
next
  case (snoc c l)
  have "List.map_filter set_entry (l @ [c]) =
      List.map_filter set_entry l @ (case set_entry c of None \<Rightarrow> [] | Some x \<Rightarrow> [x])"
    by (induction l) (simp_all add: map_filter_simps split: option.splits)
  with snoc show ?case by (auto split: option.splits)
qed

lemma retain_key_range: "k \<in> range retain_key \<longleftrightarrow> take 7 k = ''retain:''"
proof
  assume "take 7 k = ''retain:''"
  then have "k = retain_key (drop 7 k)" using append_take_drop_id [of 7 k] by (simp add: retain_key_def)
  then show "k \<in> range retain_key" by blast
qed (auto simp: retain_key_def)

interpretation ref: redis_service ref_redis
proof
  fix l k v
  show "\<exists>r. re_query ref_redis l [''SET'', k, v] = Inr r" by (simp add: ref_redis_def ref_query_def)
  show "re_query ref_redis l [''GET'', k] = (case redis_store l k of Some v \<Rightarrow> Inr v | None \<Rightarrow> Inl ''nil'')"
    by (simp add: ref_redis_def ref_query_def)
  have "set (ref_keys l) = {k. k \<in> range retain_key \<and> redis_store l k \<noteq> None}"
    using store_keys [of l] retain_key_range by (auto simp: ref_keys_def)
  then show "\<exists>ks. re_query_keys ref_redis l [''KEYS'', ''retain:*''] = Inr ks \<and> distinct ks \<and>
      set ks = {k. k \<in> range retain_key \<and> redis_store l k \<noteq> None}"
    by (simp add: ref_redis_def ref_keys_def)
qed

text \<open>A text format for messages: each field with a marker before every character and one at its end.\<close>

definition enc_str :: "string \<Rightarrow> string" where
  "enc_str s = concat (map (\<lambda>c. [CHR '','', c]) s) @ [CHR '';'']"

fun dec_str :: "string \<Rightarrow> (string \<times> string) option" where
  "dec_str [] = None"
| "dec_str [c] = (if c = CHR '';'' then Some ([], []) else None)"
| "dec_str (c # d # r) =
     (if c = CHR '';'' then Some ([], d # r) else map_option (apfst (Cons d)) (dec_str r))"

lemma dec_enc_str: "dec_str (enc_str s @ r) = Some (s, r)"
proof (induction s)
  case Nil
  then show ?case by (cases r) (simp_all add: enc_str_def)
qed (simp add: enc_str_def)

definition enc_bytes :: "bytes \<Rightarrow> string" where
  "enc_bytes bs = enc_str (map (char_of \<circ> unat) bs)"

definition dec_bytes :: "string \<Rightarrow> (bytes \<times> string) option" where
  "dec_bytes x = map_option (apfst (map (of_nat \<circ> of_char))) (dec_str x)"

lemma byte_mod: "of_nat (unat b mod 256) = (b :: u8)"
proof -
  have "unat b < 2 ^ LENGTH(8)" by (rule unsigned_less)
  then show ?thesis by simp
qed

lemma dec_enc_bytes: "dec_bytes (enc_bytes bs @ r) = Some (bs, r)"
  by (simp add: dec_bytes_def enc_bytes_def dec_enc_str comp_def byte_mod)

definition enc_msg :: "redis_message \<Rightarrow> string" where
  "enc_msg m = enc_str (rm_sender_id m) @ enc_str (rm_topic m) @ enc_bytes (rm_payload m) @
     enc_bytes [rm_qos m] @ (if rm_retain m then ''t'' else ''f'')"

definition dec_msg :: "string \<Rightarrow> redis_message option" where
  "dec_msg x =
     Option.bind (dec_str x) (\<lambda>(i, x). Option.bind (dec_str x) (\<lambda>(t, x).
     Option.bind (dec_bytes x) (\<lambda>(b, x). Option.bind (dec_bytes x) (\<lambda>(q, x).
       if x = ''t'' \<or> x = ''f'' then
         Some \<lparr>rm_sender_id = i, rm_topic = t, rm_payload = b, rm_qos = hd q, rm_retain = (x = ''t'')\<rparr>
       else None))))"

lemma dec_enc_msg: "dec_msg (enc_msg m) = Some m"
  by (simp add: dec_msg_def enc_msg_def dec_enc_str dec_enc_bytes)

definition ref_json :: "redis_message json_lib" where
  "ref_json = \<lparr>to_value = Inr, value_to_string = enc_msg,
     from_str = (\<lambda>x. case dec_msg x of Some m \<Rightarrow> Inr m | None \<Rightarrow> Inl ''expected value''),
     from_str_option = (\<lambda>x. case dec_msg x of Some m \<Rightarrow> Inr (Some m) | None \<Rightarrow> Inl ''expected value'')\<rparr>"

lemma ref_json_ok: "json_ok ref_json"
  by (simp add: json_ok_def ref_json_def dec_enc_msg)

section \<open>Properties of the synchronisation\<close>

text \<open>
  C11. A publication travels between brokers: when the server can be reached, the Redis task publishes
  the packet on \<open>sync\<close> and, if it is to be retained, stores the same text under \<open>retain:\<close> and the topic
  name, and nothing else. The broker that sent the text ignores it when it comes back.
  Every other broker publishes a packet with the same topic, payload and retain flag to its topics,
  so that its subscribers with room get exactly that packet; its QoS is 0 whatever the original
  was, and receiving makes no call to Redis, so that nothing circulates.
\<close>

theorem sync_between_brokers:
  assumes J: "json_ok J" and up: "get_connection E (rlog s) = Some l"
    and B: "broadcast_channel (bc P) V" and inv: "shared_inv V (rs_shared t)"
    and bld: "publish_builder (build_publish (mqtt P))" and id: "rc_sender_id c \<noteq> rc_sender_id c'"
    and q: "build_publish (mqtt P) (topic_name (p_topic p)) (p_payload p) (Some (p_retain p)) = Inr q"
  shows "\<exists>txt s' r1 r2. redis_publish J E c p s = Some (Ok (), s') \<and>
    rlog s' = l @ Query [''PUBLISH'', ''sync'', txt] r1 #
      (if p_retain p then [Query [''SET'', retain_key (topic_name (p_topic p)), txt] r2] else []) \<and>
    handle_message P J c txt t = (Ok (), t) \<and>
    (\<exists>t'. handle_message P J c' txt t = (Ok (), t') \<and> rlog t' = rlog t \<and> shared_inv V (rs_shared t') \<and>
      p_topic q = Topic (topic_name (p_topic p)) \<and> p_payload q = p_payload p \<and> p_retain q = p_retain p \<and>
      p_qos q = AtMostOnce \<and> topic_view V (rs_shared t') = spec_publish q (topic_view V (rs_shared t)) \<and>
      (\<forall>rx. rx \<in> subscribers (topic_name (p_topic p)) (topic_view V (rs_shared t)) \<and>
         length (unread V (chans (rs_shared t)) rx) < 1024 \<longrightarrow>
         unread V (chans (rs_shared t')) rx = unread V (chans (rs_shared t)) rx @ [Publish q]))"
proof -
  from redis_publish_eq [OF J up, of c p] obtain v r where
    v: "from_str J (value_to_string J v) = Inr (redis_message_of c p)"
    and run: "redis_publish J E c p s =
      Some (Ok (), s\<lparr>rlog := l @ Query [''PUBLISH'', ''sync'', value_to_string J v] r #
        (if p_retain p
         then [Query [''SET'', retain_key (topic_name (p_topic p)), value_to_string J v]
                 (re_query E (l @ [Query [''PUBLISH'', ''sync'', value_to_string J v] r])
                    [''SET'', retain_key (topic_name (p_topic p)), value_to_string J v])]
         else [])\<rparr>)" by blast
  note b = publish_builder.build_topic [OF bld q] publish_builder.build_payload [OF bld q]
    publish_builder.build_retain [OF bld q] publish_builder.build_qos [OF bld q]
  define t' where "t' = t\<lparr>rs_shared := snd (topics_publish (bc P) q (rs_shared t))\<rparr>"
  note law = broadcast_channel.publish_law [OF B inv, where p = q]
  have own: "handle_message P J c (value_to_string J v) t = (Ok (), t)" by (rule handle_message_own [OF v])
  have other: "handle_message P J c' (value_to_string J v) t = (Ok (), t')"
    unfolding t'_def by (rule handle_message_other [OF v id q shared_invD(1) [OF inv]])
  have "rlog t' = rlog t" "shared_inv V (rs_shared t')"
    "topic_view V (rs_shared t') = spec_publish q (topic_view V (rs_shared t))"
    using law(2,4) by (simp_all add: t'_def)
  moreover have "\<forall>rx. rx \<in> subscribers (topic_name (p_topic p)) (topic_view V (rs_shared t)) \<and>
         length (unread V (chans (rs_shared t)) rx) < 1024 \<longrightarrow>
         unread V (chans (rs_shared t')) rx = unread V (chans (rs_shared t)) rx @ [Publish q]"
    using law(6) b(1) by (simp add: t'_def)
  ultimately show ?thesis using run own other b by auto
qed

definition demo_redis :: "(rworld, nat) redis_state" where
  "demo_redis = \<lparr>rs_shared = demo_store, rlog = []\<rparr>"

definition demo_broker :: "string \<Rightarrow> redis_client" where
  "demo_broker i = \<lparr>rc_client = ''redis://redis:6379'', rc_receiver = 1, rc_sender_id = i\<rparr>"

lemma ref_up: "get_connection ref_redis l = Some (l @ [GetConnection None])"
  by (rule get_connection_up) (simp add: ref_redis_def)

lemma demo_builder: "publish_builder (build_publish (mqtt (demo_platform F)))"
  by (simp add: demo_lib_def plain.publish_builder_axioms)

theorem sync_between_brokers_witness:
  "\<exists>txt t'. handle_message (demo_platform default_features) ref_json (demo_broker ''B'') txt demo_redis = (Ok (), t') \<and>
    unread rw_view (chans (rs_shared t')) 0 = [Publish (plain_publish ''a'' [7] True)]"
proof -
  let ?P = "demo_platform default_features"
  let ?p = "(plain_publish ''a'' [7] True)\<lparr>p_qos := AtLeastOnce, p_packet_id := Some 3\<rparr>"
  have inv: "shared_inv rw_view (rs_shared demo_redis)" by (simp add: demo_redis_def demo_store_inv)
  have q: "build_publish (mqtt ?P) (topic_name (p_topic ?p)) (p_payload ?p) (Some (p_retain ?p)) =
      Inr (plain_publish ''a'' [7] True)" by (simp add: demo_lib_def plain_builder_def)
  have id: "rc_sender_id (demo_broker ''A'') \<noteq> rc_sender_id (demo_broker ''B'')" by (simp add: demo_broker_def)
  from sync_between_brokers [OF ref_json_ok ref_up demo_bc inv demo_builder id q, where s = demo_redis]
  show ?thesis using demo_store_obs by (fastforce simp: demo_redis_def subscribers_def)
qed

text \<open>
  C23. Retained messages survive a restart: after a retained publication was forwarded to Redis, a broker
  that starts with empty topics loads the stored messages without a panic, and then its retained
  message of that topic has the payload that was published; like every restored message it has
  QoS 0 and is not marked as retained. The other stored messages are restored as well, and a
  topic with nothing stored has no retained message.
\<close>

theorem retained_survives_restart:
  assumes J: "json_ok J" and srv: "redis_service E" and up: "\<And>l. \<exists>l'. get_connection E l = Some l'"
    and ok: "stored_ok P J (redis_store (rlog s))"
    and B: "broadcast_channel (bc P) V" and bld: "publish_builder (build_publish (mqtt P))"
    and q: "build_publish (mqtt P) (topic_name (p_topic p)) (p_payload p) None = Inr q"
    and ret: "p_retain p"
    and empty: "rs_shared t = topics_default w" "shared_inv V (topics_default w :: ('w, 'tx) shared)"
  shows "\<exists>s' t'. redis_publish J E c p s = Some (Ok (), s') \<and> stored_ok P J (redis_store (rlog s')) \<and>
    get_all_retained_messages P J E (t\<lparr>rlog := rlog s'\<rparr>) = Some (Ok (), t') \<and> shared_inv V (rs_shared t') \<and>
    get_retained_message (topic_name (p_topic p)) (rs_shared t') = Some q \<and>
    p_payload q = p_payload p \<and> p_qos q = AtMostOnce \<and> \<not> p_retain q \<and>
    (\<forall>name. name \<noteq> topic_name (p_topic p) \<longrightarrow>
       (get_retained_message name (rs_shared t') = None \<longleftrightarrow> redis_store (rlog s) (retain_key name) = None))"
proof -
  let ?name = "topic_name (p_topic p)"
  from up obtain l where l: "get_connection E (rlog s) = Some l" by blast
  from redis_publish_stores [OF J srv l ret, of c] obtain x s' where
    run: "redis_publish J E c p s = Some (Ok (), s')" and v: "from_str_option J x = Inr (Some (redis_message_of c p))"
    and store: "redis_store (rlog s') = (redis_store (rlog s))(retain_key ?name \<mapsto> x)" by blast
  have msg: "rm_topic (redis_message_of c p) = ?name" "rm_payload (redis_message_of c p) = p_payload p"
    by (simp_all add: redis_message_of_def)
  have ok': "stored_ok P J (redis_store (rlog s'))"
    using ok v q unfolding stored_ok_def store by (auto simp: msg)
  from up obtain l2 where "get_connection E (rlog (t\<lparr>rlog := rlog s'\<rparr>)) = Some l2" by blast
  from broadcast_channel.load_all [OF B srv bld refl _ this _ empty(2)] ok' empty(1) obtain t' where
    t': "get_all_retained_messages P J E (t\<lparr>rlog := rlog s'\<rparr>) = Some (Ok (), t')" "shared_inv V (rs_shared t')"
    and get: "\<And>n. case redis_store (rlog s') (retain_key n) of
       None \<Rightarrow> get_retained_message n (rs_shared t') = None
     | Some v \<Rightarrow> \<exists>m p. from_str_option J v = Inr (Some m) \<and> build_publish (mqtt P) n (rm_payload m) None = Inr p \<and>
         get_retained_message n (rs_shared t') = Some p" by auto
  have "get_retained_message ?name (rs_shared t') = Some q"
    using get [of ?name] v q by (auto simp: store msg)
  moreover have "get_retained_message n (rs_shared t') = None \<longleftrightarrow> redis_store (rlog s) (retain_key n) = None"
    if "n \<noteq> ?name" for n
    using get [of n] that by (auto simp: store split: option.splits)
  ultimately show ?thesis
    using run t' ok' publish_builder.build_payload [OF bld q] publish_builder.build_qos [OF bld q]
      publish_builder.build_retain [OF bld q]
    by (intro exI [of _ s'] exI [of _ t']) simp
qed

lemma default_inv: "ok V w \<Longrightarrow> shared_inv V (topics_default w)"
  by (simp add: shared_inv_def topics_default_def)

theorem retained_survives_restart_witness:
  "\<exists>s' t'. redis_publish ref_json ref_redis (demo_broker ''A'') (plain_publish ''a'' [7] True) demo_redis = Some (Ok (), s') \<and>
    get_all_retained_messages (demo_platform default_features) ref_json ref_redis
      \<lparr>rs_shared = topics_default rw_init, rlog = rlog s'\<rparr> = Some (Ok (), t') \<and>
    get_retained_message ''a'' (rs_shared t') = Some (plain_publish ''a'' [7] False)"
proof -
  let ?P = "demo_platform default_features" and ?p = "plain_publish ''a'' [7] True"
  let ?t = "\<lparr>rs_shared = topics_default rw_init, rlog = []\<rparr> :: (rworld, nat) redis_state"
  have ok: "stored_ok ?P ref_json (redis_store (rlog demo_redis))"
    by (simp add: stored_ok_def demo_redis_def redis_store_def)
  have q: "build_publish (mqtt ?P) (topic_name (p_topic ?p)) (p_payload ?p) None = Inr (plain_publish ''a'' [7] False)"
    by (simp add: demo_lib_def plain_builder_def)
  have up: "\<And>l. \<exists>l'. get_connection ref_redis l = Some l'" by (simp add: ref_up)
  have t: "rs_shared ?t = topics_default rw_init" by simp
  have ret: "p_retain ?p" by simp
  from retained_survives_restart [OF ref_json_ok ref.redis_service_axioms up ok demo_bc demo_builder q ret t
      default_inv [OF rw_ok_init], where c = "demo_broker ''A''"]
  show ?thesis by auto
qed

text \<open>
  C34. Waiting for Redis: if the server is reachable once enough attempts have been made, \<open>get_connection\<close>
  returns, after refused attempts followed by one successful one; if it is never reachable, neither
  \<open>get_connection\<close> nor a publication nor the loading at startup ever returns.
\<close>

theorem redis_connection_retries:
  "((\<exists>n. \<forall>l'. n \<le> length l' \<longrightarrow> re_get_connection E l' = None) \<longrightarrow>
     (\<exists>es. get_connection E l = Some (l @ map (\<lambda>e. GetConnection (Some e)) es @ [GetConnection None]))) \<and>
   ((\<forall>l'. re_get_connection E l' \<noteq> None) \<longrightarrow>
     get_connection E l = None \<and> redis_publish J E c p (s\<lparr>rlog := l\<rparr>) = None \<and>
     get_all_retained_messages P J E (s\<lparr>rlog := l\<rparr>) = None)"
proof (intro conjI impI)
  assume "\<exists>n. \<forall>l'. n \<le> length l' \<longrightarrow> re_get_connection E l' = None"
  then obtain l' where "get_connection E l = Some l'" using get_connection_ends by blast
  with get_connection_shape [OF this]
  show "\<exists>es. get_connection E l = Some (l @ map (\<lambda>e. GetConnection (Some e)) es @ [GetConnection None])" by blast
next
  assume "\<forall>l'. re_get_connection E l' \<noteq> None"
  then have "get_connection E l = None" by (intro get_connection_down) blast
  then show "get_connection E l = None" "redis_publish J E c p (s\<lparr>rlog := l\<rparr>) = None"
    "get_all_retained_messages P J E (s\<lparr>rlog := l\<rparr>) = None"
    by (simp_all add: redis_publish_def get_all_retained_messages_def)
qed

theorem redis_connection_retries_witness:
  "get_connection (ref_redis\<lparr>re_get_connection := (\<lambda>l. if length l < 2 then Some ''refused'' else None)\<rparr>) [] \<noteq> None \<and>
   get_connection (ref_redis\<lparr>re_get_connection := (\<lambda>l. Some ''refused'')\<rparr>) [] = None"
proof
  let ?E = "ref_redis\<lparr>re_get_connection := (\<lambda>l. if length l < 2 then Some ''refused'' else None)\<rparr>"
  have "\<exists>n. \<forall>l'. n \<le> length l' \<longrightarrow> re_get_connection ?E l' = None" by (intro exI [of _ 2]) simp
  with redis_connection_retries [of ?E "[]"] show "get_connection ?E [] \<noteq> None" by blast
  show "get_connection (ref_redis\<lparr>re_get_connection := (\<lambda>l. Some ''refused'')\<rparr>) [] = None"
    using redis_connection_retries [of "ref_redis\<lparr>re_get_connection := (\<lambda>l. Some ''refused'')\<rparr>" "[]" ref_json
        "demo_broker ''A''" "plain_publish ''a'' [7] True" demo_redis "demo_platform default_features"] by simp
qed

text \<open>
  C25. The synchronisation task keeps running as long as it is fed well-formed messages: with a server
  that can always be reached and texts that parse and name buildable topics, any sequence
  of packets from clients and texts from Redis is handled without a panic, and the topic store
  stays consistent.
\<close>

theorem listen_keeps_running:
  assumes J: "json_ok J" and up: "\<And>l. \<exists>l'. get_connection E l = Some l'"
    and B: "broadcast_channel (bc P) V" and inv: "shared_inv V (rs_shared s)"
    and ev: "\<forall>ev\<in>set evs. case ev of
      FromBroker _ \<Rightarrow> True
    | FromRedis txt \<Rightarrow> (\<exists>m q. from_str J txt = Inr m \<and>
        build_publish (mqtt P) (rm_topic m) (rm_payload m) (Some (rm_retain m)) = Inr q)
    | BothClosed \<Rightarrow> False"
  shows "\<exists>s'. listen P J E c evs s = Some (Ok (), s') \<and> shared_inv V (rs_shared s')"
  using inv ev
proof (induction evs arbitrary: s)
  case (Cons ev evs)
  have "\<exists>s1. listen_step P J E c ev s = Some (Ok (), s1) \<and> shared_inv V (rs_shared s1)"
  proof (cases ev)
    case (FromBroker p)
    obtain l where "get_connection E (rlog s) = Some l" using up by blast
    from redis_publish_eq [OF J this, of c p] FromBroker Cons.prems(1) show ?thesis
      by (auto simp: listen_step_def)
  next
    case (FromRedis x)
    with Cons.prems(2) obtain m q where m: "from_str J x = Inr m"
      "build_publish (mqtt P) (rm_topic m) (rm_payload m) (Some (rm_retain m)) = Inr q" by auto
    with FromRedis Cons.prems(1) publish_eq [OF shared_invD(1) [OF Cons.prems(1)], of "bc P" q]
      broadcast_channel.publish_law(2) [OF B Cons.prems(1), of q]
    show ?thesis
      by (simp add: listen_step_def handle_message_def discard_def match_io_def on_rs_def zoom_io_def)
  qed (use Cons.prems(2) in \<open>simp\<close>)
  then obtain s1 where "listen_step P J E c ev s = Some (Ok (), s1)" "shared_inv V (rs_shared s1)" by blast
  with Cons.IH [of s1] Cons.prems(2) show ?case by simp
qed simp

theorem listen_keeps_running_witness:
  "\<exists>s'. listen (demo_platform default_features) ref_json ref_redis (demo_broker ''A'')
     [FromBroker (plain_publish ''a'' [7] True), FromRedis (enc_msg (redis_message_of (demo_broker ''B'') (plain_publish ''b'' [1] True)))]
     demo_redis = Some (Ok (), s')"
proof -
  have inv: "shared_inv rw_view (rs_shared demo_redis)" by (simp add: demo_redis_def demo_store_inv)
  have up: "\<And>l. \<exists>l'. get_connection ref_redis l = Some l'" by (simp add: ref_up)
  have ev: "\<forall>ev\<in>set [FromBroker (plain_publish ''a'' [7] True),
      FromRedis (enc_msg (redis_message_of (demo_broker ''B'') (plain_publish ''b'' [1] True)))].
    case ev of FromBroker _ \<Rightarrow> True
    | FromRedis txt \<Rightarrow> (\<exists>m q. from_str ref_json txt = Inr m \<and>
        build_publish (mqtt (demo_platform default_features)) (rm_topic m) (rm_payload m) (Some (rm_retain m)) = Inr q)
    | BothClosed \<Rightarrow> False"
    by (simp add: ref_json_def dec_enc_msg redis_message_of_def demo_lib_def plain_builder_def)
  from listen_keeps_running [OF ref_json_ok up demo_bc inv ev] show ?thesis by blast
qed

section \<open>The receiving task\<close>

text \<open>The calls that one round of \<open>receive_from_redis\<close> can make.\<close>

inductive round_ok :: "redis_call list \<Rightarrow> bool" where
  unreachable: "round_ok [GetConnection (Some e)]"
| no_subscription: "round_ok [GetConnection None, SubscribeTo ''sync'' (Some e)]"
| no_message: "round_ok [GetConnection None, SubscribeTo ''sync'' None, GetMessage (Inl e)]"
| bad_payload: "round_ok [GetConnection None, SubscribeTo ''sync'' None, GetMessage (Inr (Inl e))]"
| handed_over: "round_ok [GetConnection None, SubscribeTo ''sync'' None, GetMessage (Inr (Inr m)), Forward m a]"

fun message_of :: "redis_call \<Rightarrow> string option" where
  "message_of (GetMessage (Inr (Inr m))) = Some m"
| "message_of _ = None"

fun forwarded_of :: "redis_call \<Rightarrow> string option" where
  "forwarded_of (Forward m _) = Some m"
| "forwarded_of _ = None"

lemma receive_round_shape: "\<exists>r. receive_round E l = l @ r \<and> round_ok r"
  by (auto simp: receive_round_def handle_redis_message_def Let_def split: option.splits sum.splits
      intro: round_ok.intros)

lemma receive_shape:
  "\<exists>rs. receive_from_redis E n l = l @ concat rs \<and> length rs = n \<and> list_all round_ok rs"
proof (induction n)
  case 0
  then show ?case by (simp add: receive_from_redis_def)
next
  case (Suc n)
  then obtain rs where rs: "receive_from_redis E n l = l @ concat rs" "length rs = n" "list_all round_ok rs" by blast
  obtain r where r: "receive_round E (l @ concat rs) = (l @ concat rs) @ r" "round_ok r"
    using receive_round_shape by blast
  have "receive_from_redis E (Suc n) l = l @ concat (rs @ [r])"
    using rs(1) r(1) by (simp add: receive_from_redis_def)
  with rs r(2) show ?case by (intro exI [of _ "rs @ [r]"]) simp
qed

lemma round_forwards: "round_ok r \<Longrightarrow> List.map_filter forwarded_of r = List.map_filter message_of r"
  by (induction rule: round_ok.induct) (simp_all add: map_filter_simps)

lemma map_filter_append: "List.map_filter f (xs @ ys) = List.map_filter f xs @ List.map_filter f ys"
  by (induction xs) (simp_all add: map_filter_simps split: option.splits)

lemma rounds_forward:
  "list_all round_ok rs \<Longrightarrow> List.map_filter forwarded_of (concat rs) = List.map_filter message_of (concat rs)"
  by (induction rs) (simp_all add: map_filter_simps map_filter_append round_forwards)

text \<open>
  The receiving task hands every text it gets from the channel \<open>sync\<close> to the listening task once
  and in order. Each of its rounds opens a connection of its own, subscribes, and waits for a single
  message: between two messages the broker is not subscribed.
\<close>

theorem receive_one_message_per_subscription:
  "\<exists>rounds. receive_from_redis E n [] = concat rounds \<and> length rounds = n \<and> list_all round_ok rounds \<and>
     List.map_filter forwarded_of (concat rounds) = List.map_filter message_of (concat rounds)"
  using receive_shape [of E n "[]"] rounds_forward by auto

end
