(* ===== verification/Broker.thy ===== *)
theory Broker
  imports Redis
begin

text \<open>
  The broker process of \<open>src/src/main.rs\<close>: starting up (Redis, the two listeners, the TLS files), the
  accept loop with \<open>handle_new_connection\<close>, and the system of all connection tasks and the Redis task
  over the shared topic store. The system is a step relation: a step is one completed branch of
  the \<open>select!\<close> of some task, of the accept loop or of the Redis task, in any order.
\<close>

section \<open>Starting up\<close>

datatype certificate = Certificate bytes
datatype private_key = PrivateKey bytes

text \<open>
  Files, sockets and TLS: opening a file, the PEM readers of \<open>rustls_pemfile\<close>, building the server
  configuration, binding a listener, and the text of an I/O error under \<open>{:?}\<close>.
\<close>

record boot_env =
  be_bind :: "string \<Rightarrow> io_error option"
  be_open :: "string \<Rightarrow> io_error + bytes"
  be_certs :: "bytes \<Rightarrow> io_error + bytes list"
  be_rsa_private_keys :: "bytes \<Rightarrow> io_error + bytes list"
  be_single_cert :: "certificate list \<Rightarrow> private_key \<Rightarrow> string option"
  be_debug :: "io_error \<Rightarrow> string"

definition LISTENER_ADDR :: "features \<Rightarrow> string" where
  "LISTENER_ADDR F = (if feat_docker F then ''0.0.0.0'' else ''127.0.0.1'')"

definition load_certs :: "boot_env \<Rightarrow> string \<Rightarrow> io_error + certificate list" where
  "load_certs be path =
     (case be_open be path of
        Inl e \<Rightarrow> Inl e
      | Inr content \<Rightarrow>
          (case be_certs be content of
             Inl _ \<Rightarrow> Inl (IoError InvalidInput ''invalid cert'')
           | Inr cs \<Rightarrow> Inr (map Certificate cs)))"

definition load_keys :: "boot_env \<Rightarrow> string \<Rightarrow> io_error + private_key list" where
  "load_keys be path =
     (case be_open be path of
        Inl e \<Rightarrow> Inl e
      | Inr content \<Rightarrow>
          (case be_rsa_private_keys be content of
             Inl _ \<Rightarrow> Inl (IoError InvalidInput ''invalid key'')
           | Inr ks \<Rightarrow> Inr (map PrivateKey ks)))"

text \<open>The listeners, the certificates and the TLS configuration, in the order of \<open>main_loop\<close>.\<close>

definition open_listeners ::
    "boot_env \<Rightarrow> features \<Rightarrow> configuration \<Rightarrow> (certificate list \<times> private_key) result" where
  "open_listeners be F cfg =
     (case be_bind be (LISTENER_ADDR F @ '':'' @ show_nat (unat (tcp (cfg_ports cfg)))) of
        Some e \<Rightarrow> Err (from_io_error e)
      | None \<Rightarrow>
     (case be_bind be (LISTENER_ADDR F @ '':'' @ show_nat (unat (ws (cfg_ports cfg)))) of
        Some e \<Rightarrow> Err (from_io_error e)
      | None \<Rightarrow>
     (case load_certs be (certfile (cfg_tls cfg)) of
        Inl e \<Rightarrow> Err (from_io_error (IoError InvalidInput (''Error loading TLS certificates: '' @ be_debug be e)))
      | Inr certs \<Rightarrow>
     (case load_keys be (keyfile (cfg_tls cfg)) of
        Inl e \<Rightarrow> Err (from_io_error (IoError InvalidInput (''Error loading TLS keys: '' @ be_debug be e)))
      | Inr [] \<Rightarrow> Panic IndexOutOfBounds
      | Inr (key # _) \<Rightarrow>
     (case be_single_cert be certs key of
        Some e \<Rightarrow> Err (from_io_error (IoError InvalidInput e))
      | None \<Rightarrow> Ok (certs, key))))))"

text \<open>The Redis client of a broker with that feature; the sampled characters are \<open>rng\<close>.\<close>

definition start_redis ::
    "('w, 'tx, 'rx, 'will) platform \<Rightarrow> 'v json_lib \<Rightarrow> redis_env \<Rightarrow> (nat \<Rightarrow> char) \<Rightarrow> redis_settings \<Rightarrow>
     ('w, 'tx) redis_state \<Rightarrow> (redis_client result \<times> ('w, 'tx) redis_state) option" where
  "start_redis P J E rng cfg s =
     (case redis_client_new E rng (redis_host cfg) (redis_port cfg) 0 of
        Ok c \<Rightarrow>
          (case get_all_retained_messages P J E s of
             None \<Rightarrow> None
           | Some (Ok _, s') \<Rightarrow> Some (Ok c, s')
           | Some (Err e, s') \<Rightarrow> Some (Err e, s')
           | Some (Panic p, s') \<Rightarrow> Some (Panic p, s'))
      | Err e \<Rightarrow> Some (Err e, s)
      | Panic p \<Rightarrow> Some (Panic p, s))"

text \<open>
  \<open>main_loop\<close> up to the accept loop. The settings have the Redis section whenever the broker is
  compiled with the feature.
\<close>

definition startup ::
    "('w, 'tx, 'rx, 'will) platform \<Rightarrow> 'v json_lib \<Rightarrow> redis_env \<Rightarrow> boot_env \<Rightarrow> (nat \<Rightarrow> char) \<Rightarrow> 'w \<Rightarrow>
     redis_call list \<Rightarrow>
     ((redis_client option \<times> certificate list \<times> private_key) result \<times> ('w, 'tx) redis_state) option" where
  "startup P J E be rng w l =
     (let s = \<lparr>rs_shared = topics_default w, rlog = l\<rparr>;
          listeners = (\<lambda>c. case open_listeners be (feat P) (settings P) of
             Ok x \<Rightarrow> Ok (c, x) | Err e \<Rightarrow> Err e | Panic p \<Rightarrow> Panic p)
      in case (feat_redis (feat P), cfg_redis (settings P)) of
           (True, Some cfg) \<Rightarrow>
             (case start_redis P J E rng cfg s of
                None \<Rightarrow> None
              | Some (Ok c, s') \<Rightarrow> Some (listeners (Some c), s')
              | Some (Err e, s') \<Rightarrow> Some (Err e, s')
              | Some (Panic p, s') \<Rightarrow> Some (Panic p, s'))
         | _ \<Rightarrow> Some (listeners None, s))"

text \<open>
  \<open>main\<close>: with the feature \<open>tokio_console\<close> the directive for the tracing filter is parsed, whose error
  leaves \<open>main\<close>; then \<open>main_loop\<close>, where the first use of \<open>SETTINGS\<close> loads the configuration.
\<close>

definition init_tracing :: "features \<Rightarrow> (string \<Rightarrow> string option) \<Rightarrow> unit result" where
  "init_tracing F directive_from_str =
     (if feat_tokio_console F
      then (case directive_from_str ''tokio=trace'' of Some e \<Rightarrow> Err (from_parse_error e) | None \<Rightarrow> Ok ())
      else Ok ())"

definition main_start ::
    "(mcloud_error \<Rightarrow> string) \<Rightarrow> 'c config_lib \<Rightarrow> (string \<Rightarrow> string option) \<Rightarrow>
     ('w, 'tx, 'rx, 'will) platform \<Rightarrow> 'v json_lib \<Rightarrow> redis_env \<Rightarrow> boot_env \<Rightarrow> (nat \<Rightarrow> char) \<Rightarrow> 'w \<Rightarrow>
     redis_call list \<Rightarrow>
     ((redis_client option \<times> certificate list \<times> private_key) result \<times> ('w, 'tx) redis_state) option" where
  "main_start dbg C directive_from_str P J E be rng w l =
     (let s = \<lparr>rs_shared = topics_default w, rlog = l\<rparr> in
      case init_tracing (feat P) directive_from_str of
        Err e \<Rightarrow> Some (Err e, s)
      | Panic p \<Rightarrow> Some (Panic p, s)
      | Ok _ \<Rightarrow>
          (case SETTINGS dbg C of
             Ok cfg \<Rightarrow> startup (P\<lparr>settings := cfg\<rparr>) J E be rng w l
           | Err e \<Rightarrow> Some (Err e, s)
           | Panic p \<Rightarrow> Some (Panic p, s)))"

section \<open>Connections\<close>

record ('rx, 'will) task =
  t_addr :: string
  t_client :: "('rx, 'will) client"
  t_iolog :: "io_call list"

text \<open>
  The accepted connections by number; \<open>handshake\<close> is the peer whose TLS handshake
  \<open>handle_new_connection\<close> is waiting for. That wait is part of the accept loop.
\<close>

record ('w, 'tx, 'rx, 'will) broker =
  store :: "('w, 'tx) shared"
  tasks :: "nat \<Rightarrow> ('rx, 'will) task option"
  next_task :: nat
  handshake :: "string option"
  redis_log :: "redis_call list"
  redis_alive :: bool

definition broker_start :: "('w, 'tx) redis_state \<Rightarrow> ('w, 'tx, 'rx, 'will) broker" where
  "broker_start rs =
     \<lparr>store = rs_shared rs, tasks = (\<lambda>_. None), next_task = 0, handshake = None, redis_log = rlog rs,
      redis_alive = True\<rparr>"

text \<open>
  \<open>handle_new_connection\<close> with the result of the TLS handshake, which is not looked at without the
  feature \<open>secure\<close>. A failed handshake drops the new client, which has no receivers yet.
\<close>

definition handle_new_connection ::
    "features \<Rightarrow> (nat \<Rightarrow> char) \<Rightarrow> string \<Rightarrow> string + unit \<Rightarrow> ('w, 'tx, 'rx, 'will) broker \<Rightarrow>
     ('w, 'tx, 'rx, 'will) broker" where
  "handle_new_connection F rng addr handshake_result b =
     (let client = client_new rng (2 + next_task b) 1;
          spawned = b\<lparr>tasks := (tasks b)(next_task b \<mapsto> \<lparr>t_addr = addr, t_client = client, t_iolog = []\<rparr>),
                      next_task := Suc (next_task b)\<rparr>
      in if feat_secure F
         then (case handshake_result of Inr _ \<Rightarrow> spawned | Inl _ \<Rightarrow> b)
         else spawned)"

datatype listener = TcpListener | WsListener

text \<open>Without \<open>websocket\<close> only the first listener is accepted from.\<close>

definition accepts_from :: "general \<Rightarrow> listener \<Rightarrow> bool" where
  "accepts_from g li = (case li of TcpListener \<Rightarrow> True | WsListener \<Rightarrow> websocket g)"

text \<open>One branch of the select loop of a connection; a task that returns or panics is gone.\<close>

definition run_task ::
    "('w, 'tx, 'rx, 'will) platform \<Rightarrow> nat \<Rightarrow> event \<Rightarrow> ('w, 'tx, 'rx, 'will) broker \<Rightarrow>
     ('w, 'tx, 'rx, 'will) broker" where
  "run_task P i ev b =
     (case tasks b i of
        None \<Rightarrow> b
      | Some t \<Rightarrow>
          (case serve P (t_addr t) ev \<lparr>client = t_client t, shared = store b, iolog = t_iolog t\<rparr> of
             (Ok _, s) \<Rightarrow>
               b\<lparr>store := shared s, tasks := (tasks b)(i \<mapsto> t\<lparr>t_client := client s, t_iolog := iolog s\<rparr>)\<rparr>
           | (_, s) \<Rightarrow>
               b\<lparr>store := drop_client (bc P) (client s) (shared s), tasks := (tasks b)(i := None)\<rparr>))"

text \<open>The steps of the accept loop.\<close>

inductive accept_step ::
    "('w, 'tx, 'rx, 'will) platform \<Rightarrow> ('w, 'tx, 'rx, 'will) broker \<Rightarrow> ('w, 'tx, 'rx, 'will) broker \<Rightarrow> bool"
  for P where
  accept_plain: "handshake b = None \<Longrightarrow> accepts_from (cfg_general (settings P)) li \<Longrightarrow> \<not> feat_secure (feat P) \<Longrightarrow>
    accept_step P b (handle_new_connection (feat P) rng addr hs b)"
| accept_tls: "handshake b = None \<Longrightarrow> accepts_from (cfg_general (settings P)) li \<Longrightarrow> feat_secure (feat P) \<Longrightarrow>
    accept_step P b (b\<lparr>handshake := Some addr\<rparr>)"
| accept_error: "handshake b = None \<Longrightarrow> accepts_from (cfg_general (settings P)) li \<Longrightarrow> accept_step P b b"
| handshake_done: "handshake b = Some addr \<Longrightarrow>
    accept_step P b (handle_new_connection (feat P) rng addr hs (b\<lparr>handshake := None\<rparr>))"

text \<open>A round of the Redis task; a panic ends that task and nothing else.\<close>

inductive redis_step ::
    "('w, 'tx, 'rx, 'will) platform \<Rightarrow> 'v json_lib \<Rightarrow> redis_env \<Rightarrow> redis_client \<Rightarrow> redis_event \<Rightarrow>
     ('w, 'tx, 'rx, 'will) broker \<Rightarrow> ('w, 'tx, 'rx, 'will) broker \<Rightarrow> bool"
  for P J E c where
  redis_goes_on: "feat_redis (feat P) \<Longrightarrow> redis_alive b \<Longrightarrow>
    listen_step P J E c ev \<lparr>rs_shared = store b, rlog = redis_log b\<rparr> = Some (Ok (), rs) \<Longrightarrow>
    redis_step P J E c ev b (b\<lparr>store := rs_shared rs, redis_log := rlog rs\<rparr>)"
| redis_stops: "feat_redis (feat P) \<Longrightarrow> redis_alive b \<Longrightarrow>
    listen_step P J E c ev \<lparr>rs_shared = store b, rlog = redis_log b\<rparr> = Some (Panic p, rs) \<Longrightarrow>
    redis_step P J E c ev b (b\<lparr>store := rs_shared rs, redis_log := rlog rs, redis_alive := False\<rparr>)"

text \<open>
  The steps of the system. \<open>Ps i\<close> is what connection \<open>i\<close> runs on: the environments of the connections
  differ, the libraries and the settings do not have to.
\<close>

inductive bstep ::
    "(nat \<Rightarrow> ('w, 'tx, 'rx, 'will) platform) \<Rightarrow> ('w, 'tx, 'rx, 'will) platform \<Rightarrow> 'v json_lib \<Rightarrow> redis_env \<Rightarrow>
     redis_client \<Rightarrow> ('w, 'tx, 'rx, 'will) broker \<Rightarrow> ('w, 'tx, 'rx, 'will) broker \<Rightarrow> bool"
  for Ps P J E c where
  accept: "accept_step P b b' \<Longrightarrow> bstep Ps P J E c b b'"
| connection: "tasks b i = Some t \<Longrightarrow>
    enabled (Ps i) \<lparr>client = t_client t, shared = store b, iolog = t_iolog t\<rparr> ev \<Longrightarrow>
    bstep Ps P J E c b (run_task (Ps i) i ev b)"
| redis: "redis_step P J E c ev b b' \<Longrightarrow> bstep Ps P J E c b b'"

inductive_cases bstep_cases: "bstep Ps P J E c b b'"
inductive_cases accept_step_cases: "accept_step P b b'"
inductive_cases redis_step_cases: "redis_step P J E c ev b b'"

section \<open>The invariant of the system\<close>

definition task_conn :: "('w, 'tx, 'rx, 'will) broker \<Rightarrow> ('rx, 'will) task \<Rightarrow> ('w, 'tx, 'rx, 'will) conn" where
  "task_conn b t = \<lparr>client = t_client t, shared = store b, iolog = t_iolog t\<rparr>"

text \<open>
  The store is consistent, every client is subscribed where it has receivers, no two clients
  share a receiver, and connection numbers are not reused.
\<close>

definition broker_inv :: "('w, 'tx, 'rx) broadcast_view \<Rightarrow> ('w, 'tx, 'rx, 'will) broker \<Rightarrow> bool" where
  "broker_inv V b \<longleftrightarrow> shared_inv V (store b) \<and>
     (\<forall>i t. tasks b i = Some t \<longrightarrow> client_inv V (t_client t) (store b) \<and> i < next_task b) \<and>
     (\<forall>i j t u. tasks b i = Some t \<and> tasks b j = Some u \<and> i \<noteq> j \<longrightarrow> owned (t_client t) \<inter> owned (t_client u) = {})"

lemma broker_invI:
  assumes "shared_inv V (store b)"
    and "\<And>i t. tasks b i = Some t \<Longrightarrow> client_inv V (t_client t) (store b) \<and> i < next_task b"
    and "\<And>i j t u. tasks b i = Some t \<Longrightarrow> tasks b j = Some u \<Longrightarrow> i \<noteq> j \<Longrightarrow>
      owned (t_client t) \<inter> owned (t_client u) = {}"
  shows "broker_inv V b"
  using assms unfolding broker_inv_def by blast

lemma broker_invD:
  assumes "broker_inv V b"
  shows "shared_inv V (store b)"
    "tasks b i = Some t \<Longrightarrow> client_inv V (t_client t) (store b)"
    "tasks b i = Some t \<Longrightarrow> i < next_task b"
    "tasks b i = Some t \<Longrightarrow> tasks b j = Some u \<Longrightarrow> i \<noteq> j \<Longrightarrow> owned (t_client t) \<inter> owned (t_client u) = {}"
  using assms unfolding broker_inv_def by blast+

lemma owned_new [simp]: "owned (client_new rng a k) = {}"
  by (simp add: owned_def client_new_def)

lemma broker_inv_accept:
  assumes "broker_inv V b"
  shows "broker_inv V (handle_new_connection F rng addr hs b)"
proof -
  have "broker_inv V (b\<lparr>tasks := (tasks b)(next_task b \<mapsto> \<lparr>t_addr = addr, t_client = client_new rng k r, t_iolog = []\<rparr>),
      next_task := Suc (next_task b)\<rparr>)" for k r
    using assms by (auto simp: broker_inv_def client_inv_new less_SucI)
  then show ?thesis
    using assms by (simp add: handle_new_connection_def Let_def split: sum.splits)
qed

lemma broker_inv_frame [simp]:
  "broker_inv V (b\<lparr>handshake := h\<rparr>) = broker_inv V b" "broker_inv V (b\<lparr>redis_alive := a\<rparr>) = broker_inv V b"
  by (simp_all add: broker_inv_def)

text \<open>A client whose receivers are left alone by a change of the store keeps its invariant.\<close>

lemma client_inv_kept:
  assumes c: "client_inv V c sh" and kept: "others_kept V R sh sh'" and live: "owned c \<subseteq> rxs V (chans sh)"
    and disj: "owned c \<inter> R = {}"
  shows "client_inv V c sh'"
  using assms unfolding client_inv_def others_kept_def owned_def by blast

context broadcast_channel
begin

lemma broker_inv_task:
  fixes b :: "('w, 'tx, 'rx, 'will) broker" and s :: "('w, 'tx, 'rx, 'will) conn"
  assumes inv: "broker_inv V b" and t: "tasks b i = Some t" and step: "behaves V (task_conn b t) s"
  shows "conn_inv V s" "\<And>j u. tasks b j = Some u \<Longrightarrow> j \<noteq> i \<Longrightarrow> client_inv V (t_client u) (shared s) \<and>
    owned (t_client u) \<inter> owned (client s) = {}"
proof -
  note I = broker_invD [OF inv]
  have "conn_inv V (task_conn b t)" using I(1,2) t by (simp add: conn_inv_def task_conn_def)
  with step have s: "conn_inv V s" "others_kept V (owned (t_client t)) (store b) (shared s)"
    "owned (client s) \<inter> rxs V (chans (store b)) \<subseteq> owned (t_client t)"
    by (auto simp: behaves_def task_conn_def)
  show "conn_inv V s" by (rule s(1))
  fix j u assume u: "tasks b j = Some u" "j \<noteq> i"
  have live: "owned (t_client u) \<subseteq> rxs V (chans (store b))" using owned_live I(1,2) u(1) by blast
  have disj: "owned (t_client u) \<inter> owned (t_client t) = {}" using I(4) [OF u(1) t u(2)] .
  show "client_inv V (t_client u) (shared s) \<and> owned (t_client u) \<inter> owned (client s) = {}"
    using client_inv_kept [OF I(2) [OF u(1)] s(2) live disj] live disj s(3) by blast
qed

text \<open>Storing what a step of a task did, and dropping a task.\<close>

lemma broker_inv_put_task:
  fixes b :: "('w, 'tx, 'rx, 'will) broker" and s :: "('w, 'tx, 'rx, 'will) conn"
  assumes inv: "broker_inv V b" and t: "tasks b i = Some t" and step: "behaves V (task_conn b t) s"
  shows "broker_inv V (b\<lparr>store := shared s, tasks := (tasks b)(i \<mapsto> t\<lparr>t_client := client s, t_iolog := l\<rparr>)\<rparr>)"
    (is "broker_inv V ?b")
proof (rule broker_invI)
  note S = broker_inv_task [OF inv t step] and I = broker_invD [OF inv]
  have c: "shared_inv V (shared s)" "client_inv V (client s) (shared s)" using S(1) by (auto simp: conn_inv_def)
  show "shared_inv V (store ?b)" using c by simp
  fix j u assume u: "tasks ?b j = Some u"
  then show "client_inv V (t_client u) (store ?b) \<and> j < next_task ?b"
    using c S(2) I(3) t by (auto split: if_splits)
  fix k v assume "tasks ?b k = Some v" "j \<noteq> k"
  then show "owned (t_client u) \<inter> owned (t_client v) = {}"
    using u S(2) [of j u] S(2) [of k v] I(4) [of j u k v] by (auto simp: disjoint_iff split: if_splits)
qed

lemma broker_inv_drop_task:
  fixes b :: "('w, 'tx, 'rx, 'will) broker" and s :: "('w, 'tx, 'rx, 'will) conn"
  assumes inv: "broker_inv V b" and t: "tasks b i = Some t" and step: "behaves V (task_conn b t) s"
  shows "broker_inv V (b\<lparr>store := drop_client B (client s) (shared s), tasks := (tasks b)(i := None)\<rparr>)"
proof -
  note S = broker_inv_task [OF inv t step] and I = broker_invD [OF inv]
  have c: "shared_inv V (shared s)" "client_inv V (client s) (shared s)" using S(1) by (auto simp: conn_inv_def)
  define sh where "sh = drop_client B (client s) (shared s)"
  note d = drop_client_law [OF c, folded sh_def]
  have kept: "others_kept V (owned (client s)) (shared s) sh" using d same_queues_fed by (auto simp: others_kept_def)
  have "client_inv V (t_client u) sh" if u: "tasks b j = Some u" "j \<noteq> i" for j u
  proof -
    have cu: "client_inv V (t_client u) (shared s)" and disj: "owned (t_client u) \<inter> owned (client s) = {}"
      using S(2) [OF u] by auto
    show ?thesis by (rule client_inv_kept [OF cu kept owned_live [OF cu c(1)] disj])
  qed
  then show ?thesis
    unfolding sh_def [symmetric] using d I(3,4) by (intro broker_invI) (simp_all split: if_splits)
qed

lemma broker_inv_run_task:
  fixes b :: "('w, 'tx, 'rx, 'will) broker"
  assumes inv: "broker_inv V b" and bcP: "bc P = B"
  shows "broker_inv V (run_task P i ev b)"
proof (cases "tasks b i")
  case None
  with inv show ?thesis by (simp add: run_task_def)
next
  case (Some t)
  obtain r s where run: "serve P (t_addr t) ev (task_conn b t) = (r, s)" by (metis surj_pair)
  have "behaves V (task_conn b t) s" using tracksD [OF tracks_serve [OF bcP] run] .
  from broker_inv_put_task [OF inv Some this] broker_inv_drop_task [OF inv Some this] show ?thesis
    using run Some bcP by (cases r) (simp_all add: run_task_def task_conn_def)
qed

lemma listen_step_inv:
  assumes "listen_step P J E c ev s = Some (r, s')" "shared_inv V (rs_shared s)" "bc P = B"
  shows "shared_inv V (rs_shared s') \<and> others_kept V {} (rs_shared s) (rs_shared s')"
proof -
  have same: ?thesis if "rs_shared s' = rs_shared s" using that assms(2) by (simp add: others_kept_def)
  have pub: "snd (redis_query E cmd x) = x\<lparr>rlog := rlog (snd (redis_query E cmd x))\<rparr>" for cmd and x :: "('w, 'tx) redis_state"
    by (simp add: redis_query_def Let_def)
  show ?thesis
  proof (cases ev)
    case (FromBroker p)
    then have "rs_shared s' = rs_shared s"
      using assms(1)
      by (auto simp: listen_step_def redis_publish_def then_io_def bind_io_def redis_query_def Let_def
          split: option.splits sum.splits if_splits)
    then show ?thesis by (rule same)
  next
    case (FromRedis x)
    show ?thesis
    proof (cases "rs_shared s' = rs_shared s")
      case False
      then obtain q where "s' = s\<lparr>rs_shared := snd (topics_publish B q (rs_shared s))\<rparr>"
        using assms(1) FromRedis publish_eq [OF shared_invD(1) [OF assms(2)], of B] assms(3)
        by (auto simp: listen_step_def handle_message_def discard_def match_io_def on_rs_def zoom_io_def
            split: sum.splits if_splits)
      then show ?thesis
        using publish_law(2-4,7) [OF assms(2), where p = q] by (auto simp: others_kept_def subscribers_specs)
    qed (rule same)
  next
    case BothClosed
    then show ?thesis using assms(1) same by (simp add: listen_step_def)
  qed
qed

lemma broker_inv_redis:
  fixes b :: "('w, 'tx, 'rx, 'will) broker"
  assumes inv: "broker_inv V b" and st: "shared_inv V sh" "others_kept V {} (store b) sh"
  shows "broker_inv V (b\<lparr>store := sh, redis_log := l, redis_alive := a\<rparr>)"
proof -
  note I = broker_invD [OF inv]
  have "client_inv V (t_client t) sh" if t: "tasks b i = Some t" for i t
    using client_inv_kept [OF I(2) [OF t] st(2) owned_live [OF I(2) [OF t] I(1)]] by simp
  then show ?thesis using st(1) I(3,4) by (intro broker_invI) simp_all
qed

lemma accept_step_inv: "accept_step P b b' \<Longrightarrow> broker_inv V b \<Longrightarrow> broker_inv V b'"
  by (auto elim!: accept_step_cases intro!: broker_inv_accept)

lemma redis_step_kept:
  fixes b :: "('w, 'tx, 'rx, 'will) broker"
  assumes "redis_step P J E c ev b b'" "broker_inv V b" "bc P = B"
  shows "others_kept V {} (store b) (store b') \<and> broker_inv V b' \<and> tasks b' = tasks b"
  using assms(1)
proof cases
  case (redis_goes_on rs)
  have "shared_inv V (rs_shared rs) \<and> others_kept V {} (store b) (rs_shared rs)"
    using listen_step_inv [OF redis_goes_on(4) _ assms(3)] broker_invD(1) [OF assms(2)] by simp
  with broker_inv_redis [OF assms(2), where sh = "rs_shared rs" and l = "rlog rs" and a = "redis_alive b"] redis_goes_on(1)
  show ?thesis by simp
next
  case (redis_stops p rs)
  have "shared_inv V (rs_shared rs) \<and> others_kept V {} (store b) (rs_shared rs)"
    using listen_step_inv [OF redis_stops(4) _ assms(3)] broker_invD(1) [OF assms(2)] by simp
  with broker_inv_redis [OF assms(2), where sh = "rs_shared rs" and l = "rlog rs" and a = False] redis_stops(1)
  show ?thesis by simp
qed

lemma bstep_inv:
  fixes b :: "('w, 'tx, 'rx, 'will) broker"
  assumes "bstep Ps P J E c b b'" "broker_inv V b" "bc P = B" "\<And>i. bc (Ps i) = B"
  shows "broker_inv V b'"
  using assms(1)
  by cases (use assms(2-4) accept_step_inv redis_step_kept broker_inv_run_task in blast)+

lemma reachable_inv:
  fixes b :: "('w, 'tx, 'rx, 'will) broker"
  assumes "(bstep Ps P J E c)\<^sup>*\<^sup>* b0 b" "broker_inv V b0" "bc P = B" "\<And>i. bc (Ps i) = B"
  shows "broker_inv V b"
  using assms(1,2) by (induction rule: rtranclp_induct) (use bstep_inv assms(3,4) in blast)+

text \<open>Starting up with any server leaves a consistent store, if it succeeds.\<close>

lemma restore_ok_inv:
  assumes bld: "publish_builder (build_publish (mqtt P))" and bcP: "bc P = B"
    and inv: "shared_inv V (rs_shared s)" and ok: "restore_message P m s = (Ok x, s')"
  shows "shared_inv V (rs_shared s')"
proof (cases "build_publish (mqtt P) (rm_topic m) (rm_payload m) None")
  case (Inl e)
  with ok show ?thesis by (simp add: restore_message_def)
next
  case (Inr p)
  show ?thesis
  proof (cases "bt_get (rm_topic m) (topics (rs_shared s))")
    case None
    then show ?thesis
      using ok restore_message_eq [OF shared_invD(1) [OF inv] None Inr]
        restored_inv [OF inv, of p "rm_topic m"] publish_builder.build_topic [OF bld Inr]
      by (auto simp: bcP)
  next
    case (Some ch)
    obtain tx rx w where "b_channel (bc P) 1024 (chans (rs_shared s)) = ((tx, rx), w)" by (metis surj_pair)
    from ok Inr add_present [OF Some this] show ?thesis
      by (simp add: restore_message_def match_io_def on_rs_def zoom_io_def)
  qed
qed

lemma load_ok_inv:
  assumes bld: "publish_builder (build_publish (mqtt P))" and bcP: "bc P = B"
  shows "for_io (load_key P J E) ks s = (Ok x, s') \<Longrightarrow> shared_inv V (rs_shared s) \<Longrightarrow> shared_inv V (rs_shared s')"
proof (induction ks arbitrary: s)
  case (Cons k ks)
  obtain r s1 where k: "load_key P J E k s = (r, s1)" by (metis surj_pair)
  with Cons.prems(1) obtain y where r: "r = Ok y" by (cases r) (auto simp: then_io_def bind_io_def)
  have "shared_inv V (rs_shared s1)"
    using k Cons.prems(2) restore_ok_inv [OF bld bcP, of "s\<lparr>rlog := rlog s1\<rparr>"] unfolding r
    by (auto simp: load_key_def bind_io_def redis_query_def Let_def split: sum.splits option.splits
        dest: restore_ok_inv [OF bld bcP, rotated])
  with Cons.IH Cons.prems(1) k r show ?case by simp
qed simp

lemma startup_inv:
  assumes bld: "publish_builder (build_publish (mqtt P))" and bcP: "bc P = B" and w: "ok V w"
    and run: "startup P J E be rng w l = Some (Ok x, rs)"
  shows "shared_inv V (rs_shared rs)"
proof -
  have init: "shared_inv V (topics_default w :: ('w, 'tx) shared)" by (rule default_inv [OF w])
  have "shared_inv V (rs_shared s')" if "get_all_retained_messages P J E \<lparr>rs_shared = topics_default w, rlog = l\<rparr> = Some (Ok y, s')" for y s'
    using that init load_ok_inv [OF bld bcP]
    by (fastforce simp: get_all_retained_messages_def Let_def split: option.splits sum.splits)
  then show ?thesis
    using run init
    by (auto simp: startup_def start_redis_def Let_def
        split: option.splits outcome.splits bool.splits prod.splits if_splits)
qed

lemma main_start_inv:
  assumes bld: "publish_builder (build_publish (mqtt P))" and bcP: "bc P = B" and w: "ok V w"
    and run: "main_start dbg C directive_from_str P J E be rng w l = Some (Ok x, rs)"
  shows "shared_inv V (rs_shared rs)"
proof -
  from run obtain cfg where cfg: "startup (P\<lparr>settings := cfg\<rparr>) J E be rng w l = Some (Ok x, rs)"
    by (auto simp: main_start_def Let_def split: outcome.splits)
  show ?thesis by (rule startup_inv [OF _ _ w cfg]) (use bld bcP in simp_all)
qed

end

section \<open>Properties of the broker\<close>

definition demo_boot :: boot_env where
  "demo_boot = \<lparr>be_bind = (\<lambda>_. None), be_open = (\<lambda>_. Inr []), be_certs = (\<lambda>_. Inr [[1]]),
     be_rsa_private_keys = (\<lambda>_. Inr [[2]]), be_single_cert = (\<lambda>_ _. None), be_debug = ioe_text\<rparr>"

definition demo_config :: "unit config_lib" where
  "demo_config = \<lparr>config_build = (\<lambda>_. Inr ()), try_deserialize = (\<lambda>_. Inr demo_settings)\<rparr>"

lemma demo_main_start:
  "SETTINGS dbg demo_config = Ok demo_settings"
  "main_start dbg demo_config (\<lambda>_. None) (demo_platform default_features) ref_json ref_redis demo_boot rng rw_init [] =
    Some (Ok (None, [Certificate [1]], PrivateKey [2]), \<lparr>rs_shared = topics_default rw_init, rlog = []\<rparr>)"
  by (simp_all add: main_start_def init_tracing_def SETTINGS_def load_def demo_config_def startup_def open_listeners_def
      load_certs_def load_keys_def demo_boot_def default_features_def)

text \<open>What a publication of one client does to the queue of another.\<close>

lemma publish_run_task:
  assumes B: "broadcast_channel (bc P) V" and inv: "broker_inv V b"
    and i: "tasks b i = Some t" and d: "will_delay P = Some delay" and ne: "data \<noteq> []"
    and p: "decode_mqtt (mqtt P) (fill_buffer data) V500 = Inr (Some (PublishP p))"
    and j: "tasks b j = Some u" "j \<noteq> i"
    and sub: "bt_get (topic_name (p_topic p)) (receivers (t_client u)) = Some rx"
    and room: "length (unread V (chans (store b)) rx) < 1024"
  shows "unread V (chans (store (run_task P i (ReadBytes data) b))) rx =
      unread V (chans (store b)) rx @ [Publish p] \<and>
    tasks (run_task P i (ReadBytes data) b) j = Some u \<and>
    client_inv V (t_client u) (store (run_task P i (ReadBytes data) b))"
proof -
  let ?b = "run_task P i (ReadBytes data) b"
  note I = broker_invD [OF inv]
  obtain r s where run: "serve P (t_addr t) (ReadBytes data) (task_conn b t) = (r, s)" by (metis surj_pair)
  have beh: "behaves V (task_conn b t) s"
    using tracksD [OF broadcast_channel.tracks_serve [OF B refl] run] .
  note S = broadcast_channel.broker_inv_task [OF B inv i beh]
  have wf: "bt_wf (topics (shared (task_conn b t)))" using shared_invD(1) [OF I(1)] by (simp add: task_conn_def)
  have "shared s = shared (snd (handle_publish_packet P p (task_conn b t)))"
    using run ne p by (auto simp: serve_def d on_read_def handle_packet_def dispatch_def match_io_def
        split: prod.splits outcome.splits)
  then have sh: "shared s = snd (topics_publish (bc P) p (store b))"
    using handle_publish_shared [OF wf] by (simp add: task_conn_def)
  have rx: "rx \<in> subscribers (topic_name (p_topic p)) (topic_view V (store b))"
    using I(2) [OF j(1)] sub by (simp add: client_inv_def)
  have q: "unread V (chans (shared s)) rx = unread V (chans (store b)) rx @ [Publish p]"
    using broadcast_channel.publish_law(6) [OF B I(1) rx room] by (simp add: sh)
  have c: "shared_inv V (shared s)" "client_inv V (client s) (shared s)" using S(1) by (auto simp: conn_inv_def)
  have "rx \<in> owned (t_client u)" using sub by (auto simp: owned_def)
  then have "rx \<in> rxs V (chans (shared s)) - owned (client s)"
    using S(2) [OF j] broadcast_channel.owned_live [OF B _ c(1)] by blast
  then have drop: "unread V (chans (drop_client (bc P) (client s) (shared s))) rx = unread V (chans (shared s)) rx"
    using broadcast_channel.drop_client_law [OF B c] by (simp add: same_queues_def)
  have st: "store ?b = (case r of Ok _ \<Rightarrow> shared s | _ \<Rightarrow> drop_client (bc P) (client s) (shared s))"
    "tasks ?b j = tasks b j"
    using run i j(2) by (cases r; simp add: run_task_def task_conn_def)+
  have "broker_inv V ?b" by (rule broadcast_channel.broker_inv_run_task [OF B inv refl])
  then have "client_inv V (t_client u) (store ?b)" using broker_invD(2) st(2) j(1) by metis
  then show ?thesis using st q drop j(1) by (cases r) simp_all
qed

text \<open>
  C2. A publication in the running broker: when client \<open>i\<close> sends a packet that decodes to a publication,
  however its handler ends, every other client subscribed to the topic that has room in its queue has
  exactly this message added to it; and it is still connected and subscribed.
\<close>

theorem broker_publish_delivers:
  assumes "broadcast_channel (bc P) V" "broker_inv V b" "tasks b i = Some t" "will_delay P = Some delay" "data \<noteq> []"
    and "decode_mqtt (mqtt P) (fill_buffer data) V500 = Inr (Some (PublishP p))"
  shows "\<forall>j u rx. tasks b j = Some u \<and> j \<noteq> i \<and> bt_get (topic_name (p_topic p)) (receivers (t_client u)) = Some rx \<and>
      length (unread V (chans (store b)) rx) < 1024 \<longrightarrow>
    unread V (chans (store (run_task P i (ReadBytes data) b))) rx = unread V (chans (store b)) rx @ [Publish p] \<and>
    tasks (run_task P i (ReadBytes data) b) j = Some u \<and>
    client_inv V (t_client u) (store (run_task P i (ReadBytes data) b))"
  using publish_run_task [OF assms] by blast

definition demo_system :: "(rworld, nat, nat, publish_packet) broker" where
  "demo_system = \<lparr>store = demo_store,
     tasks = (\<lambda>_. None)(0 \<mapsto> \<lparr>t_addr = ''p0'', t_client = client demo_conn, t_iolog = []\<rparr>,
                        1 \<mapsto> \<lparr>t_addr = ''p1'', t_client = client demo_sub, t_iolog = []\<rparr>),
     next_task = 2, handshake = None, redis_log = [], redis_alive = True\<rparr>"

lemma demo_system_inv: "broker_inv rw_view demo_system"
proof -
  have "client_inv rw_view (client demo_conn) demo_store" "client_inv rw_view (client demo_sub) demo_store"
    using demo_conn_inv demo_sub_inv by (simp_all add: conn_inv_def demo_conn_def demo_sub_def)
  moreover have "owned (client demo_conn) = {}" by (simp add: demo_conn_def)
  ultimately show ?thesis using demo_store_inv by (simp add: broker_inv_def demo_system_def)
qed

theorem broker_publish_delivers_witness:
  "unread rw_view (chans (store (run_task (demo_platform default_features) 0 (ReadBytes [0x30]) demo_system))) 0 =
     [Publish (plain_publish ''a'' [7] False)]"
proof -
  let ?P = "demo_platform default_features" and ?p = "plain_publish ''a'' [7] False"
  have i: "tasks demo_system 0 = Some \<lparr>t_addr = ''p0'', t_client = client demo_conn, t_iolog = []\<rparr>"
    and j: "tasks demo_system 1 = Some \<lparr>t_addr = ''p1'', t_client = client demo_sub, t_iolog = []\<rparr>"
    by (simp_all add: demo_system_def)
  have p: "decode_mqtt (mqtt ?P) (fill_buffer [0x30]) V500 = Inr (Some (PublishP ?p))"
    by (simp add: demo_lib_def fill_buffer_def)
  have sub: "bt_get (topic_name (p_topic ?p))
      (receivers (t_client (\<lparr>t_addr = ''p1'', t_client = client demo_sub, t_iolog = []\<rparr> :: (nat, publish_packet) task))) = Some 0"
    by (simp add: demo_sub_def)
  from broker_publish_delivers [OF demo_bc demo_system_inv i demo_delay _ p] j sub show ?thesis
    by (force simp: demo_system_def demo_store_obs)
qed

text \<open>
  C31. A failing client is contained: when the task of a connection ends, whatever the error or panic, it
  is the only connection that goes; all topics and retained messages its last step left are
  still there, its receivers are unsubscribed everywhere, and all other receivers keep their queues.
\<close>

theorem failing_client_contained:
  assumes B: "broadcast_channel (bc P) V" and inv: "broker_inv V b" and i: "tasks b i = Some t"
    and run: "serve P (t_addr t) ev (task_conn b t) = (r, s)" and fail: "r \<noteq> Ok ()"
  shows "tasks (run_task P i ev b) = (tasks b)(i := None) \<and>
    topics (store (run_task P i ev b)) = topics (shared s) \<and>
    (\<forall>k. subscribers k (topic_view V (store (run_task P i ev b))) \<inter> owned (client s) = {}) \<and>
    same_queues V (rxs V (chans (shared s)) - owned (client s)) (chans (shared s)) (chans (store (run_task P i ev b))) \<and>
    broker_inv V (run_task P i ev b)"
proof -
  have "behaves V (task_conn b t) s" using tracksD [OF broadcast_channel.tracks_serve [OF B refl] run] .
  then have "conn_inv V s" by (rule broadcast_channel.broker_inv_task(1) [OF B inv i])
  then have c: "shared_inv V (shared s)" "client_inv V (client s) (shared s)" by (auto simp: conn_inv_def)
  have st: "store (run_task P i ev b) = drop_client (bc P) (client s) (shared s)"
    "tasks (run_task P i ev b) = (tasks b)(i := None)"
    using run i fail by (cases r; simp add: run_task_def task_conn_def)+
  show ?thesis
    unfolding st
    using broadcast_channel.drop_client_law [OF B c] broadcast_channel.broker_inv_run_task [OF B inv refl, of i ev]
    by auto
qed

theorem failing_client_contained_witness:
  "tasks (run_task (demo_platform default_features) 1 (ReadBytes []) demo_system) = (tasks demo_system)(1 := None) \<and>
   topics (store (run_task (demo_platform default_features) 1 (ReadBytes []) demo_system)) = topics demo_store"
proof -
  let ?t = "\<lparr>t_addr = ''p1'', t_client = client demo_sub, t_iolog = []\<rparr> :: (nat, publish_packet) task"
  have i: "tasks demo_system 1 = Some ?t" by (simp add: demo_system_def)
  have run: "serve (demo_platform default_features) (t_addr ?t) (ReadBytes []) (task_conn demo_system ?t) =
      (Err (UnexpectedClientDisconnected ''p1''), task_conn demo_system ?t)"
    by (simp add: serve_def demo_delay on_read_def)
  from failing_client_contained [OF demo_bc demo_system_inv i run] show ?thesis
    by (simp add: task_conn_def demo_system_def)
qed

text \<open>One step while the accept loop waits for a handshake: only its completion ends the wait or adds a task.\<close>

lemma pending_handshake_step:
  assumes "bstep Ps P J E c x y" "handshake x = Some addr"
  shows "handshake y = Some addr \<and> dom (tasks y) \<subseteq> dom (tasks x) \<and> next_task y = next_task x \<or>
    handshake y = None \<and> (\<forall>i t. tasks x i = None \<and> tasks y i = Some t \<longrightarrow> t_addr t = addr)"
  using assms
  by (cases rule: bstep_cases)
    (auto elim!: accept_step_cases redis_step_cases simp: handle_new_connection_def Let_def run_task_def
      split: option.splits prod.splits outcome.splits sum.splits if_splits)

text \<open>
  C38. The accept loop waits for the TLS handshake of one peer before it accepts the next. From a state
  in which the handshake of a peer is pending, whatever the connections, the Redis task and other peers
  do, until the handshake ends: it is still the handshake of the same peer that is pending, no
  connection has been added and no connection number used up. The first step that adds a connection
  ends this handshake, and the connection is the one of this peer.
\<close>

theorem pending_handshake_blocks_accept:
  assumes "(\<lambda>b b'. bstep Ps P J E c b b' \<and> handshake b' \<noteq> None)\<^sup>*\<^sup>* b b'" "handshake b = Some addr"
  shows "handshake b' = Some addr \<and> dom (tasks b') \<subseteq> dom (tasks b) \<and> next_task b' = next_task b \<and>
    (\<forall>b'' i t. bstep Ps P J E c b' b'' \<and> tasks b' i = None \<and> tasks b'' i = Some t \<longrightarrow>
       handshake b'' = None \<and> t_addr t = addr)"
proof -
  have "handshake b' = Some addr \<and> dom (tasks b') \<subseteq> dom (tasks b) \<and> next_task b' = next_task b"
    using assms
  proof (induction rule: rtranclp_induct)
    case (step y z)
    with pending_handshake_step [of Ps P J E c y z addr] show ?case by (metis order_trans)
  qed simp
  moreover have "handshake b'' = None \<and> t_addr t = addr"
    if "handshake b' = Some addr" "bstep Ps P J E c b' b''" "tasks b' i = None" "tasks b'' i = Some t" for b'' i t
    using pending_handshake_step [OF that(2,1)] that(3,4) by blast
  ultimately show ?thesis by blast
qed

theorem pending_handshake_blocks_accept_witness:
  "let b = run_task (demo_platform default_features) 0 (ReadBytes [0x30]) (demo_system\<lparr>handshake := Some ''slow''\<rparr>);
       b' = handle_new_connection default_features (\<lambda>_. CHR ''x'') ''slow'' (Inr ()) (b\<lparr>handshake := None\<rparr>)
   in handshake b = Some ''slow'' \<and> dom (tasks b) \<subseteq> dom (tasks demo_system) \<and> next_task b = next_task demo_system \<and>
     (\<forall>i t. tasks b i = None \<and> tasks b' i = Some t \<longrightarrow> t_addr t = ''slow'')"
proof -
  let ?P = "demo_platform default_features" and ?b = "demo_system\<lparr>handshake := Some ''slow''\<rparr>"
  let ?step = "bstep (\<lambda>_. ?P) ?P ref_json ref_redis (demo_broker ''A'')"
  let ?b1 = "run_task ?P 0 (ReadBytes [0x30]) ?b"
  have "tasks ?b 0 = Some \<lparr>t_addr = ''p0'', t_client = client demo_conn, t_iolog = []\<rparr>" by (simp add: demo_system_def)
  then have st: "?step ?b ?b1"
    by (rule bstep.connection) (simp add: enabled_def)
  have h: "handshake ?b1 = Some ''slow''"
    by (simp add: run_task_def split: option.splits prod.splits outcome.splits)
  then have run: "(\<lambda>b b'. ?step b b' \<and> handshake b' \<noteq> None)\<^sup>*\<^sup>* ?b ?b1"
    using st by (simp add: r_into_rtranclp)
  have "?step ?b1 (handle_new_connection (feat ?P) (\<lambda>_. CHR ''x'') ''slow'' (Inr ()) (?b1\<lparr>handshake := None\<rparr>))"
    by (intro bstep.accept accept_step.handshake_done h)
  then have "\<forall>i t. tasks ?b1 i = None \<and> tasks (handle_new_connection default_features (\<lambda>_. CHR ''x'') ''slow'' (Inr ())
      (?b1\<lparr>handshake := None\<rparr>)) i = Some t \<longrightarrow> t_addr t = ''slow''"
    using pending_handshake_blocks_accept [OF run, of "''slow''"] by auto
  then show ?thesis
    unfolding Let_def using pending_handshake_blocks_accept [OF run, of "''slow''"] by auto
qed

text \<open>
  What starting needs: the setup after Redis succeeds exactly when both ports can be bound, the
  certificate file can be read and parsed, the key file holds at least one RSA key and the first one
  is accepted with the certificates. A key file without such a key is a panic, not an error, and
  all of this also holds for a broker that is built without TLS.
\<close>

theorem startup_needs_tls_files:
  "(open_listeners be F cfg = Ok (certs, key) \<longleftrightarrow>
     be_bind be (LISTENER_ADDR F @ '':'' @ show_nat (unat (tcp (cfg_ports cfg)))) = None \<and>
     be_bind be (LISTENER_ADDR F @ '':'' @ show_nat (unat (ws (cfg_ports cfg)))) = None \<and>
     load_certs be (certfile (cfg_tls cfg)) = Inr certs \<and>
     (\<exists>keys. load_keys be (keyfile (cfg_tls cfg)) = Inr (key # keys)) \<and>
     be_single_cert be certs key = None) \<and>
   (open_listeners be F cfg = Panic p \<longleftrightarrow>
     be_bind be (LISTENER_ADDR F @ '':'' @ show_nat (unat (tcp (cfg_ports cfg)))) = None \<and>
     be_bind be (LISTENER_ADDR F @ '':'' @ show_nat (unat (ws (cfg_ports cfg)))) = None \<and>
     (\<exists>cs. load_certs be (certfile (cfg_tls cfg)) = Inr cs) \<and>
     load_keys be (keyfile (cfg_tls cfg)) = Inr [] \<and> p = IndexOutOfBounds) \<and>
   open_listeners be (F\<lparr>feat_secure := secure\<rparr>) cfg = open_listeners be F cfg"
  by (auto simp: open_listeners_def LISTENER_ADDR_def split: option.splits sum.splits list.splits)

end
