(* ===== verification/Programs.thy ===== *)
theory Programs
  imports MCloud_Prelude
begin

text \<open>
  Programs of a task as trees of atomic steps, to say what other tasks may do between two steps
  of an asynchronous method. A program is finished with an outcome, waits for a condition and
  then changes the state in one step, acquires or releases the mutex, or goes on. \<open>run_prog\<close> executes a program alone; the
  combinators mirror those of the sequential embedding in theory \<open>MCloud_Prelude\<close>.
\<close>

section \<open>Programs\<close>

datatype ('s, 'e, 'a) prog =
    Return "('e, 'a) outcome"
  | Atomic "'s \<Rightarrow> bool" "'s \<Rightarrow> 's" "'s \<Rightarrow> ('s, 'e, 'a) prog"
  | Lock "('s, 'e, 'a) prog"
  | Unlock "('s, 'e, 'a) prog"

primrec run_prog :: "('s, 'e, 'a) prog \<Rightarrow> ('s, 'e, 'a) io" where
  "run_prog (Return r) = (\<lambda>s. (r, s))"
| "run_prog (Atomic g u k) = (\<lambda>s. run_prog (k s) (u s))"
| "run_prog (Lock p) = run_prog p"
| "run_prog (Unlock p) = run_prog p"

text \<open>A method that runs in one step, and one that first waits.\<close>

definition await :: "('s \<Rightarrow> bool) \<Rightarrow> ('s, 'e, 'a) io \<Rightarrow> ('s, 'e, 'a) prog" where
  "await g m = Atomic g (\<lambda>s. snd (m s)) (\<lambda>s. Return (fst (m s)))"

definition atomic :: "('s, 'e, 'a) io \<Rightarrow> ('s, 'e, 'a) prog" where
  "atomic = await (\<lambda>_. True)"

abbreviation done_prog :: "'a \<Rightarrow> ('s, 'e, 'a) prog" where
  "done_prog x \<equiv> Return (Ok x)"

fun bind_outcome :: "('e, 'a) outcome \<Rightarrow> ('a \<Rightarrow> ('s, 'e, 'b) prog) \<Rightarrow> ('s, 'e, 'b) prog" where
  "bind_outcome (Ok x) f = f x"
| "bind_outcome (Err e) f = Return (Err e)"
| "bind_outcome (Panic p) f = Return (Panic p)"

fun match_outcome :: "('e, 'a) outcome \<Rightarrow> ('e + 'a \<Rightarrow> ('s, 'e2, 'b) prog) \<Rightarrow> ('s, 'e2, 'b) prog" where
  "match_outcome (Ok x) f = f (Inr x)"
| "match_outcome (Err e) f = f (Inl e)"
| "match_outcome (Panic p) f = Return (Panic p)"

text \<open>The program, and then what its outcome asks for.\<close>

primrec and_then :: "('s, 'e, 'a) prog \<Rightarrow> (('e, 'a) outcome \<Rightarrow> ('s, 'e2, 'b) prog) \<Rightarrow> ('s, 'e2, 'b) prog" where
  "and_then (Return r) f = f r"
| "and_then (Atomic g u k) f = Atomic g u (\<lambda>s. and_then (k s) f)"
| "and_then (Lock p) f = Lock (and_then p f)"
| "and_then (Unlock p) f = Unlock (and_then p f)"

definition bind_prog :: "('s, 'e, 'a) prog \<Rightarrow> ('a \<Rightarrow> ('s, 'e, 'b) prog) \<Rightarrow> ('s, 'e, 'b) prog" where
  "bind_prog p f = and_then p (\<lambda>r. bind_outcome r f)"

definition then_prog :: "('s, 'e, 'a) prog \<Rightarrow> ('s, 'e, 'b) prog \<Rightarrow> ('s, 'e, 'b) prog" where
  "then_prog p q = bind_prog p (\<lambda>_. q)"

definition match_prog :: "('s, 'e, 'a) prog \<Rightarrow> ('e + 'a \<Rightarrow> ('s, 'e2, 'b) prog) \<Rightarrow> ('s, 'e2, 'b) prog" where
  "match_prog p f = and_then p (\<lambda>r. match_outcome r f)"

text \<open>A block that holds the guard of the mutex: leaving it in any way, an error or a panic included, releases it.\<close>

definition locked :: "('s, 'e, 'a) prog \<Rightarrow> ('s, 'e, 'a) prog" where
  "locked p = Lock (and_then p (\<lambda>r. Unlock (Return r)))"

lemma run_and_then: "run_prog (and_then p f) s = (case run_prog p s of (r, s') \<Rightarrow> run_prog (f r) s')"
  by (induction p arbitrary: s) auto

lemma run_await [simp]: "run_prog (await g m) = m"
  by (simp add: await_def fun_eq_iff)

lemma run_atomic [simp]: "run_prog (atomic m) = m"
  by (simp add: atomic_def)

lemma run_return [simp]:
  "run_prog (done_prog x) = ret_io x" "run_prog (Return (Err e)) = err_io e" "run_prog (Return (Panic q)) = panic_io q"
  by (simp_all add: fun_eq_iff)

lemma run_bind [simp]: "run_prog (bind_prog p f) = bind_io (run_prog p) (\<lambda>x. run_prog (f x))"
  by (auto simp: fun_eq_iff bind_prog_def run_and_then bind_io_def split: prod.splits outcome.splits)

lemma run_then [simp]: "run_prog (then_prog p q) = then_io (run_prog p) (run_prog q)"
  by (simp add: then_prog_def then_io_def)

lemma run_match [simp]: "run_prog (match_prog p f) = match_io (run_prog p) (\<lambda>x. run_prog (f x))"
  by (auto simp: fun_eq_iff match_prog_def run_and_then match_io_def split: prod.splits outcome.splits)

lemma run_locked [simp]: "run_prog (locked p) = run_prog p"
  by (simp add: fun_eq_iff locked_def run_and_then split: prod.splits)

declare run_prog.simps(1) [simp del]

section \<open>What every step of a program does\<close>

text \<open>\<open>all_steps R p\<close>: whatever happens in between, each atomic step of \<open>p\<close> leads from a state to an \<open>R\<close>-related one.\<close>

primrec all_steps :: "('s \<Rightarrow> 's \<Rightarrow> bool) \<Rightarrow> ('s, 'e, 'a) prog \<Rightarrow> bool" where
  "all_steps R (Return r) \<longleftrightarrow> True"
| "all_steps R (Atomic g u k) \<longleftrightarrow> (\<forall>s. R s (u s) \<and> all_steps R (k s))"
| "all_steps R (Lock p) \<longleftrightarrow> all_steps R p"
| "all_steps R (Unlock p) \<longleftrightarrow> all_steps R p"

lemma all_steps_mono: "all_steps R p \<Longrightarrow> (\<And>s s'. R s s' \<Longrightarrow> R' s s') \<Longrightarrow> all_steps R' p"
  by (induction p) auto

lemma all_steps_and_then: "all_steps R p \<Longrightarrow> (\<And>r. all_steps R (f r)) \<Longrightarrow> all_steps R (and_then p f)"
  by (induction p) auto

lemma all_steps_outcome:
  "(\<And>x. all_steps R (f x)) \<Longrightarrow> all_steps R (bind_outcome r f)"
  "(\<And>x. all_steps R (g x)) \<Longrightarrow> all_steps R (match_outcome q g)"
  by (cases r; simp) (cases q; simp)

lemma all_steps_await: "tracks R m \<Longrightarrow> all_steps R (await g m)"
  by (simp add: await_def tracks_def)

lemma all_steps_bind: "all_steps R p \<Longrightarrow> (\<And>x. all_steps R (f x)) \<Longrightarrow> all_steps R (bind_prog p f)"
  by (simp add: bind_prog_def all_steps_and_then all_steps_outcome)

lemma all_steps_match: "all_steps R p \<Longrightarrow> (\<And>x. all_steps R (f x)) \<Longrightarrow> all_steps R (match_prog p f)"
  by (simp add: match_prog_def all_steps_and_then all_steps_outcome)

lemma all_steps_rules:
  "all_steps R (Return r)"
  "tracks R m \<Longrightarrow> all_steps R (atomic m)"
  "all_steps R p \<Longrightarrow> all_steps R q \<Longrightarrow> all_steps R (then_prog p q)"
  "all_steps R p \<Longrightarrow> all_steps R (locked p)"
  by (simp_all add: atomic_def all_steps_await then_prog_def all_steps_bind locked_def all_steps_and_then)

context io_preorder
begin

lemma run_tracks: "all_steps R p \<Longrightarrow> tracks R (run_prog p)"
proof (induction p)
  case (Atomic g u k)
  show ?case
  proof (rule tracksI)
    fix s
    have "tracks R (run_prog (k s))" using Atomic by simp
    then have "R (u s) (snd (run_prog (k s) (u s)))" by (simp add: tracks_def)
    with Atomic.prems show "R s (snd (run_prog (Atomic g u k) s))" by (auto intro: trans)
  qed
qed (simp_all add: tracks_def refl run_prog.simps)

end

section \<open>Steps after which a program panics\<close>

text \<open>
  \<open>panics_after R q p\<close>: whatever happens in between, as soon as a step of \<open>p\<close> leads to an \<open>R\<close>-related state, the program is finished
  with the panic \<open>q\<close>.
\<close>

primrec panics_after :: "('s \<Rightarrow> 's \<Rightarrow> bool) \<Rightarrow> panic \<Rightarrow> ('s, 'e, 'a) prog \<Rightarrow> bool" where
  "panics_after R q (Return r) \<longleftrightarrow> True"
| "panics_after R q (Atomic g u k) \<longleftrightarrow> (\<forall>s. (R s (u s) \<longrightarrow> k s = Return (Panic q)) \<and> panics_after R q (k s))"
| "panics_after R q (Lock p) \<longleftrightarrow> panics_after R q p"
| "panics_after R q (Unlock p) \<longleftrightarrow> panics_after R q p"

lemma panics_after_never: "all_steps (\<lambda>s s'. \<not> R s s') p \<Longrightarrow> panics_after R q p"
  by (induction p) auto

lemma panics_after_and_then:
  "panics_after R q p \<Longrightarrow> (\<And>r. panics_after R q (f r)) \<Longrightarrow> f (Panic q) = Return (Panic q) \<Longrightarrow> panics_after R q (and_then p f)"
  by (induction p) auto

lemma panics_after_outcome:
  "(\<And>x. panics_after R q (f x)) \<Longrightarrow> panics_after R q (bind_outcome r f)"
  "(\<And>x. panics_after R q (g x)) \<Longrightarrow> panics_after R q (match_outcome r g)"
  by (cases r; simp)+

lemma panics_after_rules:
  "panics_after R q p \<Longrightarrow> (\<And>x. panics_after R q (f x)) \<Longrightarrow> panics_after R q (bind_prog p f)"
  "panics_after R q p \<Longrightarrow> panics_after R q p' \<Longrightarrow> panics_after R q (then_prog p p')"
  "panics_after R q p \<Longrightarrow> (\<And>x. panics_after R q (h x)) \<Longrightarrow> panics_after R q (match_prog p h)"
  "(\<And>s. R s (snd (m s)) \<Longrightarrow> fst (m s) = Panic q) \<Longrightarrow> panics_after R q (atomic m)"
  by (simp_all add: bind_prog_def then_prog_def match_prog_def panics_after_and_then panics_after_outcome atomic_def await_def)

section \<open>Rely and guarantee\<close>

text \<open>
  \<open>meets R G p h Q s\<close>: the program \<open>p\<close>, started in \<open>s\<close> with the mutex held or not (\<open>h\<close>), while others change the
  state between its steps as \<open>R\<close> allows, never waits for a condition, changes the state only as \<open>G\<close>
  allows, acquires the mutex only when it does not hold it and releases it only when it does, and
  ends with an outcome, a mutex state and a state that satisfy \<open>Q\<close>.
\<close>

primrec meets ::
    "(bool \<Rightarrow> 's \<Rightarrow> 's \<Rightarrow> bool) \<Rightarrow> (bool \<Rightarrow> 's \<Rightarrow> 's \<Rightarrow> bool) \<Rightarrow> ('s, 'e, 'a) prog \<Rightarrow> bool \<Rightarrow>
     (('e, 'a) outcome \<Rightarrow> bool \<Rightarrow> 's \<Rightarrow> bool) \<Rightarrow> 's \<Rightarrow> bool" where
  "meets R G (Return r) = (\<lambda>h Q s. \<forall>s'. R h s s' \<longrightarrow> Q r h s')"
| "meets R G (Atomic g u k) = (\<lambda>h Q s. \<forall>s'. R h s s' \<longrightarrow> g s' \<and> G h s' (u s') \<and> meets R G (k s') h Q (u s'))"
| "meets R G (Lock p) = (\<lambda>h Q s. \<not> h \<and> (\<forall>s'. R h s s' \<longrightarrow> meets R G p True Q s'))"
| "meets R G (Unlock p) = (\<lambda>h Q s. h \<and> (\<forall>s'. R h s s' \<longrightarrow> meets R G p False Q s'))"

text \<open>Programs that do so from every state and leave the mutex as they found it.\<close>

definition steady :: "(bool \<Rightarrow> 's \<Rightarrow> 's \<Rightarrow> bool) \<Rightarrow> (bool \<Rightarrow> 's \<Rightarrow> 's \<Rightarrow> bool) \<Rightarrow> bool \<Rightarrow> ('s, 'e, 'a) prog \<Rightarrow> bool" where
  "steady R G h p \<longleftrightarrow> (\<forall>s. meets R G p h (\<lambda>r h' s'. h' = h) s)"

locale rely_guarantee =
  fixes R :: "bool \<Rightarrow> 's \<Rightarrow> 's \<Rightarrow> bool" and G :: "bool \<Rightarrow> 's \<Rightarrow> 's \<Rightarrow> bool"
  assumes rely_refl: "R h s s"
    and rely_trans: "R h s t \<Longrightarrow> R h t u \<Longrightarrow> R h s u"
begin

lemma stable: "meets R G p h Q s \<Longrightarrow> R h s s' \<Longrightarrow> meets R G p h Q s'"
  using rely_trans by (cases p) (simp; blast)+

text \<open>The case in which nothing happens before the next step.\<close>

lemma now:
  "meets R G (Return r) h Q s \<Longrightarrow> Q r h s"
  "meets R G (Atomic g u k) h Q s \<Longrightarrow> g s \<and> G h s (u s) \<and> meets R G (k s) h Q (u s)"
  "meets R G (Lock p) h Q s \<Longrightarrow> \<not> h \<and> meets R G p True Q s"
  "meets R G (Unlock p) h Q s \<Longrightarrow> h \<and> meets R G p False Q s"
  using rely_refl by auto

lemma meets_and_then:
  "meets R G p h Q s \<Longrightarrow> (\<And>r h' s'. Q r h' s' \<Longrightarrow> meets R G (f r) h' Q' s') \<Longrightarrow> meets R G (and_then p f) h Q' s"
  by (induction p arbitrary: h s) (use rely_refl in auto)

lemma ret: "steady R G h (Return r)"
  by (simp add: steady_def)

lemma atom: "(\<And>s. G h s (snd (m s))) \<Longrightarrow> steady R G h (atomic m)"
  by (simp add: steady_def atomic_def await_def)

lemma follow:
  assumes "steady R G h p" "\<And>r. steady R G h (f r)"
  shows "steady R G h (and_then p f)"
  unfolding steady_def
proof
  fix s
  have "meets R G p h (\<lambda>r h' s'. h' = h) s" using assms(1) by (simp add: steady_def)
  then show "meets R G (and_then p f) h (\<lambda>r h' s'. h' = h) s"
    by (rule meets_and_then) (use assms(2) in \<open>simp add: steady_def\<close>)
qed

lemma outcome_cases:
  "(\<And>x. steady R G h (f x)) \<Longrightarrow> steady R G h (bind_outcome r f)"
  "(\<And>x. steady R G h (g x)) \<Longrightarrow> steady R G h (match_outcome q g)"
  by (cases r; simp add: ret) (cases q; simp add: ret)

lemma bind: "steady R G h p \<Longrightarrow> (\<And>x. steady R G h (f x)) \<Longrightarrow> steady R G h (bind_prog p f)"
  by (simp add: bind_prog_def follow outcome_cases)

lemma seq: "steady R G h p \<Longrightarrow> steady R G h q \<Longrightarrow> steady R G h (then_prog p q)"
  by (simp add: then_prog_def bind)

lemma mtch: "steady R G h p \<Longrightarrow> (\<And>x. steady R G h (f x)) \<Longrightarrow> steady R G h (match_prog p f)"
  by (simp add: match_prog_def follow outcome_cases)

lemma lock:
  assumes "steady R G True p"
  shows "steady R G False (locked p)"
proof -
  have "meets R G p True (\<lambda>r h' s'. h') s" for s using assms by (simp add: steady_def)
  then have "meets R G (and_then p (\<lambda>r. Unlock (Return r))) True (\<lambda>r h' s'. \<not> h') s" for s
    by (rule meets_and_then) simp
  then show ?thesis by (simp add: steady_def locked_def)
qed

lemmas rules = ret bind seq mtch lock

end

end
