(* ===== verification/Interleaving.thy ===== *)
theory Interleaving
  imports Broker Programs
begin

text \<open>
  The broker at the granularity of its locks and suspension points. Theory \<open>Broker\<close> runs a branch of a
  connection's \<open>select!\<close> in one step. Here every branch is a program of atomic steps, with the
  places where \<open>src/src/tcp_handling.rs\<close> acquires and releases the mutex around the topic store, and
  the steps of all connections, of the accept loop and of the Redis task interleave. Between two steps of a
  branch anything may happen that the mutex does not exclude.
\<close>

section \<open>The branches as programs\<close>

type_synonym ('w, 'tx, 'rx, 'will, 'a) cprog = "(('w, 'tx, 'rx, 'will) conn, mcloud_error, 'a) prog"

text \<open>The guard of \<open>self.topics.lock().await\<close> lives to the end of the \<open>match\<close>; only the publication is in it.\<close>

definition publish_prog ::
    "('w, 'tx, 'rx, 'will) platform \<Rightarrow> publish_packet \<Rightarrow> ('w, 'tx, 'rx, 'will, unit) cprog" where
  "publish_prog P packet =
     bind_prog
       (match_prog (locked (atomic (on_shared (topics_publish (bc P) packet)))) (\<lambda>r.
          done_prog (case r of Inr _ \<Rightarrow> PublishSuccess | Inl _ \<Rightarrow> UnspecifiedError)))
       (\<lambda>reason_code.
     then_prog (if feat_redis (feat P) then atomic (send_to_redis P packet) else done_prog ())
     (then_prog
       (case p_qos packet of
          AtMostOnce \<Rightarrow> done_prog ()
        | AtLeastOnce \<Rightarrow>
            (case p_packet_id packet of
               None \<Rightarrow> Return (Panic UnwrapNone)
             | Some pid \<Rightarrow> atomic (write_to_stream P (PublishAck (puback_for pid reason_code))))
        | ExactlyOnce \<Rightarrow> done_prog ())
       (if feat_bq_logging (feat P) then atomic (log_publish P packet) else done_prog ())))"

text \<open>The retained message is written to the client while the mutex is held.\<close>

definition subscribe_concrete_prog ::
    "('w, 'tx, 'rx, 'will) platform \<Rightarrow> string \<Rightarrow> ('w, 'tx, 'rx, 'will, unit) cprog" where
  "subscribe_concrete_prog P f =
     locked (then_prog (atomic (register_receiver P f))
       (bind_prog (atomic (get_io (\<lambda>s. get_retained_message f (shared s)))) (\<lambda>retained.
          case retained of
            Some msg \<Rightarrow> atomic (write_to_stream P (PublishP msg))
          | None \<Rightarrow> done_prog ())))"

fun subscribe_prog ::
    "('w, 'tx, 'rx, 'will) platform \<Rightarrow> subscription_topic list \<Rightarrow> subscribe_ack_reason list \<Rightarrow>
     ('w, 'tx, 'rx, 'will, subscribe_ack_reason list) cprog" where
  "subscribe_prog P [] codes = done_prog codes"
| "subscribe_prog P (t # ts) codes =
     (case st_topic_filter t of
        Concrete f _ \<Rightarrow>
          then_prog (subscribe_concrete_prog P f) (subscribe_prog P ts (codes @ [GrantedQoSZero]))
      | Wildcard _ _ \<Rightarrow> subscribe_prog P ts (codes @ [WildcardSubscriptionsNotSupported])
      | SharedConcrete _ \<Rightarrow> subscribe_prog P ts (codes @ [SharedSubscriptionsNotSupported])
      | SharedWildcard _ \<Rightarrow> subscribe_prog P ts (codes @ [SharedSubscriptionsNotSupported]))"

text \<open>Receivers are removed and dropped one by one, without the mutex.\<close>

fun unsubscribe_prog ::
    "('w, 'tx, 'rx, 'will) platform \<Rightarrow> topic_filter list \<Rightarrow> unsubscribe_ack_reason list \<Rightarrow>
     ('w, 'tx, 'rx, 'will, unsubscribe_ack_reason list) cprog" where
  "unsubscribe_prog P [] codes = done_prog codes"
| "unsubscribe_prog P (t # ts) codes =
     bind_prog (atomic (unsubscribe_loop P [t] codes)) (unsubscribe_prog P ts)"

definition connect_prog ::
    "('w, 'tx, 'rx, 'will) platform \<Rightarrow> 'will connect_packet \<Rightarrow> ('w, 'tx, 'rx, 'will, unit) cprog" where
  "connect_prog P packet =
     then_prog
       (case c_will packet of
          Some w \<Rightarrow> atomic (update_client (\<lambda>c. c\<lparr>will := Some w\<rparr>))
        | None \<Rightarrow> done_prog ())
       (bind_prog (atomic (get_io (\<lambda>s. client_id (client s)))) (\<lambda>cid.
        atomic (write_to_stream P (ConnectAck (connack_for P cid)))))"

definition publish_will_prog :: "('w, 'tx, 'rx, 'will) platform \<Rightarrow> ('w, 'tx, 'rx, 'will, unit) cprog" where
  "publish_will_prog P =
     bind_prog (atomic (get_io (\<lambda>s. will (client s)))) (\<lambda>w.
       case w of
         None \<Rightarrow> done_prog ()
       | Some w \<Rightarrow> publish_prog P (publish_from_will (mqtt P) w))"

definition dispatch_prog ::
    "('w, 'tx, 'rx, 'will) platform \<Rightarrow> string \<Rightarrow> 'will packet option \<Rightarrow> ('w, 'tx, 'rx, 'will, unit) cprog" where
  "dispatch_prog P peer packet =
     (case packet of
        Some (Connect p) \<Rightarrow> connect_prog P p
      | Some PingRequest \<Rightarrow> atomic (handle_pingreq_packet P)
      | Some (PublishP p) \<Rightarrow> publish_prog P p
      | Some (Subscribe p) \<Rightarrow>
          bind_prog (subscribe_prog P (s_subscription_topics p) []) (\<lambda>codes.
          atomic (write_to_stream P (SubscribeAck (suback_for p codes))))
      | Some (Disconnect p) \<Rightarrow>
          then_prog
            (if d_reason_code p = DisconnectWithWillMessage then publish_will_prog P else done_prog ())
            (Return (Err (ClientDisconnected peer)))
      | Some (Unsubscribe p) \<Rightarrow>
          bind_prog (unsubscribe_prog P (u_topic_filters p) []) (\<lambda>codes.
          atomic (write_to_stream P (UnsubscribeAck (unsuback_for p codes))))
      | Some (PublishAck p) \<Rightarrow> atomic (handle_publishack_packet p)
      | _ \<Rightarrow> Return (Err UnknownPacketType))"

definition on_read_prog ::
    "('w, 'tx, 'rx, 'will) platform \<Rightarrow> string \<Rightarrow> bytes \<Rightarrow> ('w, 'tx, 'rx, 'will, unit) cprog" where
  "on_read_prog P addr data =
     (if data = [] then Return (Err (UnexpectedClientDisconnected addr))
      else match_prog
             (case decode_mqtt (mqtt P) (fill_buffer data) V500 of
                Inl e \<Rightarrow> Return (Err (DecodePacketError e))
              | Inr packet \<Rightarrow> dispatch_prog P addr packet)
             (\<lambda>r. case r of
               Inr _ \<Rightarrow> done_prog ()
             | Inl _ \<Rightarrow> Return (Err (ClientError addr))))"

text \<open>\<open>recv().await\<close> waits until there is something to receive.\<close>

definition can_recv :: "('w, 'tx, 'rx, 'will) platform \<Rightarrow> 'rx \<Rightarrow> ('w, 'tx, 'rx, 'will) conn \<Rightarrow> bool" where
  "can_recv P rx s \<longleftrightarrow> fst (b_recv (bc P) rx (chans (shared s))) \<noteq> RecvPending"

definition forward_prog ::
    "('w, 'tx, 'rx, 'will) platform \<Rightarrow> publish_packet \<Rightarrow> ('w, 'tx, 'rx, 'will, unit) cprog" where
  "forward_prog P packet =
     then_prog
       (if p_qos packet = AtLeastOnce
        then atomic (update_client (\<lambda>c. c\<lparr>outgoing_messages := outgoing_messages c @
               [\<lparr>om_packet = packet,
                 om_counter = (case p_message_expiry_interval packet of Some n \<Rightarrow> n | None \<Rightarrow> 1)\<rparr>]\<rparr>))
        else done_prog ())
       (atomic (write_to_stream P (PublishP packet)))"

definition recv_forward_prog ::
    "('w, 'tx, 'rx, 'will) platform \<Rightarrow> 'rx \<Rightarrow> ('w, 'tx, 'rx, 'will, unit) cprog" where
  "recv_forward_prog P rx =
     bind_prog (await (can_recv P rx) (recv_on P rx)) (\<lambda>message.
       case message of
         RecvOk (Publish packet) \<Rightarrow> forward_prog P packet
       | _ \<Rightarrow> done_prog ())"

definition on_receiver_ready_prog ::
    "('w, 'tx, 'rx, 'will) platform \<Rightarrow> ('w, 'tx, 'rx, 'will, unit) cprog" where
  "on_receiver_ready_prog P =
     bind_prog (atomic (get_io (\<lambda>s. (receiver_poll (bc P) (receivers (client s)) (chans (shared s)),
                                     receivers (client s))))) (\<lambda>(key, recvs).
       case key of
         None \<Rightarrow> done_prog ()
       | Some k \<Rightarrow>
           (case bt_get k recvs of
              None \<Rightarrow> Return (Panic UnwrapNone)
            | Some rx \<Rightarrow> recv_forward_prog P rx))"

fun retry_prog ::
    "('w, 'tx, 'rx, 'will) platform \<Rightarrow> outgoing_message list \<Rightarrow> outgoing_message list \<Rightarrow>
     ('w, 'tx, 'rx, 'will, unit) cprog" where
  "retry_prog P visited [] = atomic (set_outgoing visited)"
| "retry_prog P visited (m # ms) =
     (case checked_sub (overflow_checks P) (om_counter m) 1 of
        None \<Rightarrow> then_prog (atomic (set_outgoing (visited @ m # ms))) (Return (Panic ArithmeticOverflow))
      | Some c \<Rightarrow>
          let m' = m\<lparr>om_counter := c\<rparr> in
          if c = 0 then retry_prog P (visited @ [m']) ms
          else then_prog (atomic (set_outgoing (visited @ m' # ms)))
                 (then_prog (atomic (write_to_stream P (PublishP (om_packet m))))
                   (retry_prog P (visited @ [m']) ms)))"

definition on_retry_tick_prog :: "('w, 'tx, 'rx, 'will) platform \<Rightarrow> ('w, 'tx, 'rx, 'will, unit) cprog" where
  "on_retry_tick_prog P =
     bind_prog (atomic (get_io (\<lambda>s. outgoing_messages (client s)))) (\<lambda>ms.
     then_prog (retry_prog P [] ms)
       (atomic (update_client (\<lambda>c. c\<lparr>outgoing_messages :=
          filter (\<lambda>m. om_counter m \<noteq> 0) (outgoing_messages c)\<rparr>))))"

definition serve_prog ::
    "('w, 'tx, 'rx, 'will) platform \<Rightarrow> string \<Rightarrow> event \<Rightarrow> ('w, 'tx, 'rx, 'will, unit) cprog" where
  "serve_prog P addr ev =
     (case will_delay P of
        None \<Rightarrow> Return (Panic ArithmeticOverflow)
      | Some _ \<Rightarrow>
          (case ev of
             ReadBytes data \<Rightarrow> on_read_prog P addr data
           | ReadError e \<Rightarrow> Return (Err (ClientError addr))
           | ReceiverReady \<Rightarrow> on_receiver_ready_prog P
           | WillTimeout \<Rightarrow> then_prog (publish_will_prog P) (atomic (shutdown_stream P))
           | RetryTick \<Rightarrow> on_retry_tick_prog P))"

section \<open>Run alone, a program is the branch\<close>

lemma run_publish: "run_prog (publish_prog P packet) = handle_publish_packet P packet"
  by (cases "p_qos packet"; cases "p_packet_id packet") (simp_all add: publish_prog_def handle_publish_packet_def)

lemma run_publish_will: "run_prog (publish_will_prog P) = publish_will P"
  by (auto simp: publish_will_prog_def publish_will_def run_publish fun_eq_iff bind_io_def split: option.splits)

lemma run_subscribe: "run_prog (subscribe_prog P ts codes) = subscribe_loop P ts codes"
proof (induction ts arbitrary: codes)
  case (Cons t ts)
  have "run_prog (subscribe_concrete_prog P f) = subscribe_concrete P f" for f
    unfolding subscribe_concrete_prog_def subscribe_concrete_def send_retained_def
    by (auto simp: fun_eq_iff then_io_def bind_io_def split: option.splits outcome.splits prod.splits)
  with Cons show ?case by (simp split: topic_filter.splits)
qed simp

lemma unsubscribe_step: "unsubscribe_loop P (t # ts) codes = bind_io (unsubscribe_loop P [t] codes) (unsubscribe_loop P ts)"
  by (cases t) (auto simp: fun_eq_iff bind_io_def split: option.splits prod.splits)

lemma run_unsubscribe: "run_prog (unsubscribe_prog P ts codes) = unsubscribe_loop P ts codes"
proof (induction ts arbitrary: codes)
  case (Cons t ts)
  then show ?case by (simp add: unsubscribe_step [of P t ts] del: unsubscribe_loop.simps)
qed (simp add: fun_eq_iff)

lemma run_retry: "run_prog (retry_prog P visited ms) = retry_loop P visited ms"
  by (induction ms arbitrary: visited) (simp_all add: Let_def split: option.splits)

lemma run_dispatch: "run_prog (dispatch_prog P peer packet) = dispatch P peer packet"
  by (cases packet)
    (simp_all add: dispatch_prog_def dispatch_def run_publish run_subscribe run_unsubscribe run_publish_will
      handle_subscribe_packet_def handle_unsubscribe_packet_def handle_disconnect_packet_def connect_prog_def
      handle_connect_packet_def cong: if_cong split: packet.splits option.splits)

lemma run_receiver_ready: "run_prog (on_receiver_ready_prog P) = on_receiver_ready P"
  by (auto simp: on_receiver_ready_prog_def recv_forward_prog_def on_receiver_ready_def forward_prog_def forward_publish_def fun_eq_iff
      bind_io_def split: option.splits prod.splits recv_result.splits message.splits outcome.splits)

lemma run_serve: "run_prog (serve_prog P addr ev) = serve P addr ev"
proof -
  have read: "run_prog (on_read_prog P addr data) = on_read P addr data" for data
    by (auto simp: on_read_prog_def on_read_def handle_packet_def run_dispatch fun_eq_iff match_io_def
        split: sum.splits prod.splits outcome.splits)
  show ?thesis
    by (simp add: serve_prog_def serve_def read run_receiver_ready run_publish_will on_will_timeout_def
        on_retry_tick_prog_def on_retry_tick_def run_retry split: option.splits event.splits)
qed

section \<open>Rely and guarantee of a connection\<close>

text \<open>
  What a connection relies on between its steps: its own fields and its log are its own; the
  invariant is kept; the queues of its receivers are at most added to; and while it holds the mutex
  (\<open>h\<close>) the topic map does not change. What it guarantees: it behaves; without the mutex it changes
  no topic, subscribes nowhere and publishes nothing; and with the mutex it sends nothing to the Redis task, for
  whose channel it might have to wait.
\<close>

text \<open>The packets that the calls of a log hand to the Redis task, with whether they were accepted.\<close>

fun redis_send :: "io_call \<Rightarrow> (publish_packet \<times> bool) option" where
  "redis_send (MpscSend ch p a) = Some (p, a)"
| "redis_send _ = None"

definition redis_sends :: "io_call list \<Rightarrow> (publish_packet \<times> bool) list" where
  "redis_sends = List.map_filter redis_send"

lemma redis_sends_simps [simp]:
  "redis_sends [] = []" "redis_sends (e # l) = (case redis_send e of None \<Rightarrow> redis_sends l | Some x \<Rightarrow> x # redis_sends l)"
  "redis_sends (l @ l') = redis_sends l @ redis_sends l'"
  by (simp_all add: redis_sends_def map_filter_simps map_filter_append split: option.split)

definition mute :: "('w, 'tx, 'rx, 'will) conn \<Rightarrow> ('w, 'tx, 'rx, 'will) conn \<Rightarrow> bool" where
  "mute s s' \<longleftrightarrow> (\<exists>l. iolog s' = iolog s @ l \<and> redis_sends l = [])"

lemma mute_silent: "iolog s' = iolog s \<Longrightarrow> mute s s'"
  by (simp add: mute_def)

text \<open>Every receiver that exists afterwards existed before, with a queue of which at most the front was read.\<close>

definition only_read :: "('w, 'tx, 'rx) broadcast_view \<Rightarrow> 'w \<Rightarrow> 'w \<Rightarrow> bool" where
  "only_read V w w' \<longleftrightarrow> (\<forall>rx\<in>rxs V w'. rx \<in> rxs V w \<and> (\<exists>n. unread V w' rx = drop n (unread V w rx)))"

definition quiet :: "('w, 'tx, 'rx) broadcast_view \<Rightarrow> ('w, 'tx) shared \<Rightarrow> ('w, 'tx) shared \<Rightarrow> bool" where
  "quiet V sh sh' \<longleftrightarrow> topics sh' = topics sh \<and> only_read V (chans sh) (chans sh')"

lemma quiet_refl [simp]: "quiet V sh sh"
  unfolding quiet_def only_read_def by (metis drop_0)

lemma quiet_trans:
  assumes "quiet V a b" "quiet V b c"
  shows "quiet V a c"
  using assms unfolding quiet_def only_read_def by (metis drop_drop)

lemma quiet_same:
  assumes "topics sh' = topics sh" "rxs V (chans sh') \<subseteq> rxs V (chans sh)"
    "same_queues V (rxs V (chans sh')) (chans sh) (chans sh')"
  shows "quiet V sh sh'"
  using assms unfolding quiet_def only_read_def same_queues_def by (metis drop_0 subsetD)

definition conn_rely ::
    "('w, 'tx, 'rx) broadcast_view \<Rightarrow> bool \<Rightarrow> ('w, 'tx, 'rx, 'will) conn \<Rightarrow> ('w, 'tx, 'rx, 'will) conn \<Rightarrow> bool" where
  "conn_rely V h s s' \<longleftrightarrow> client s' = client s \<and> iolog s' = iolog s \<and>
     (conn_inv V s \<longrightarrow> conn_inv V s' \<and> (\<forall>rx\<in>owned (client s). fed V 1024 (chans (shared s)) (chans (shared s')) rx)) \<and>
     (h \<longrightarrow> topics (shared s') = topics (shared s))"

definition conn_guar ::
    "('w, 'tx, 'rx) broadcast_view \<Rightarrow> bool \<Rightarrow> ('w, 'tx, 'rx, 'will) conn \<Rightarrow> ('w, 'tx, 'rx, 'will) conn \<Rightarrow> bool" where
  "conn_guar V h s s' \<longleftrightarrow> behaves V s s' \<and> (if h then mute s s' else conn_inv V s \<longrightarrow> quiet V (shared s) (shared s'))"

interpretation conn: rely_guarantee "conn_rely V" "conn_guar V" for V :: "('w, 'tx, 'rx) broadcast_view"
proof
  fix h and s :: "('w, 'tx, 'rx, 'will) conn"
  show "conn_rely V h s s" by (simp add: conn_rely_def)
next
  fix h and s t u :: "('w, 'tx, 'rx, 'will) conn"
  assume "conn_rely V h s t" "conn_rely V h t u"
  then show "conn_rely V h s u" unfolding conn_rely_def by (metis fed_trans)
qed

abbreviation steady_conn ::
    "('w, 'tx, 'rx) broadcast_view \<Rightarrow> bool \<Rightarrow> ('w, 'tx, 'rx, 'will, 'a) cprog \<Rightarrow> bool" where
  "steady_conn V \<equiv> steady (conn_rely V) (conn_guar V)"

text \<open>What is left of a branch is safe: it keeps its guarantee, never waits but for the mutex, and ends without it.\<close>

abbreviation safe ::
    "('w, 'tx, 'rx) broadcast_view \<Rightarrow> ('w, 'tx, 'rx, 'will, 'a) cprog \<Rightarrow> bool \<Rightarrow> ('w, 'tx, 'rx, 'will) conn \<Rightarrow> bool" where
  "safe V p h \<equiv> meets (conn_rely V) (conn_guar V) p h (\<lambda>r h s. \<not> h)"

abbreviation keeps_shared :: "('w, 'tx, 'rx, 'will, 'a) handler \<Rightarrow> bool" where
  "keeps_shared \<equiv> tracks (\<lambda>s s'. shared s' = shared s)"

lemma steady_local:
  assumes "tracks (behaves V) m" "keeps_shared m" "h \<longrightarrow> tracks mute m"
  shows "steady_conn V h (atomic m)"
  by (rule conn.atom) (use assms in \<open>auto simp: conn_guar_def tracks_def\<close>)

lemma steady_locked:
  assumes "tracks (behaves V) m" "tracks mute m"
  shows "steady_conn V True (atomic m)"
  by (rule conn.atom) (use assms in \<open>auto simp: conn_guar_def tracks_def\<close>)

lemma tracks_mute:
  "tracks mute (write_to_stream P packet)" "tracks mute (update_client f)" "tracks mute (get_io g)"
  "tracks mute (set_outgoing ms)" "tracks mute (shutdown_stream P)" "tracks mute (on_shared m)"
  "tracks mute (register_receiver P topic)"
  by (rule tracksI, simp add: mute_def write_to_stream_def update_client_def set_outgoing_def shutdown_stream_def
      on_shared_def zoom_io_def register_receiver_def bind_io_def insert_receiver_def Let_def
      split: prod.split outcome.split option.split)+

lemma keeps_shared_local:
  "keeps_shared (write_to_stream P packet)" "keeps_shared (send_to_redis P p)" "keeps_shared (log_publish P p)"
  "keeps_shared (update_client f)" "keeps_shared (get_io g)" "keeps_shared (set_outgoing ms)"
  "keeps_shared (shutdown_stream P)"
  by (auto intro!: tracksI simp: write_to_stream_def send_to_redis_def log_publish_def on_iolog_def zoom_io_def
      update_client_def set_outgoing_def shutdown_stream_def Let_def split: option.splits prod.splits)

lemma steady_update_client:
  "(\<And>c. receivers (f c) = receivers c) \<Longrightarrow> steady_conn V h (atomic (update_client f))"
  by (rule steady_local) (simp_all add: tracks_update_client keeps_shared_local tracks_mute)

text \<open>The steps that only touch the client, its stream or its log.\<close>

lemma steady_steps:
  "steady_conn V h (atomic (write_to_stream P packet))" "steady_conn V False (atomic (send_to_redis P p))"
  "steady_conn V False (atomic (log_publish P p))" "steady_conn V h (atomic (get_io g))"
  "steady_conn V h (atomic (set_outgoing ms))" "steady_conn V h (atomic (handle_publishack_packet a))"
  "steady_conn V h (atomic (handle_pingreq_packet P))" "steady_conn V h (atomic (shutdown_stream P))"
  by (simp_all add: steady_local keeps_shared_local tracks_write tracks_send_to_redis tracks_log_publish behaves.get
      tracks_set_outgoing tracks_shutdown tracks_mute handle_publishack_packet_def steady_update_client handle_pingreq_packet_def)

lemma steady_forward: "steady_conn V h (forward_prog P packet)"
  unfolding forward_prog_def by (auto intro!: conn.rules steady_steps steady_update_client)

lemma steady_retry: "steady_conn V h (retry_prog P visited ms)"
  by (induction ms arbitrary: visited) (auto simp: Let_def intro!: conn.rules steady_steps split: option.splits)

text \<open>
  The queue that \<open>ReceiverFuture\<close> found non-empty is still so when it is read, whatever happened in
  between: \<open>recv().await\<close> does not wait.
\<close>

definition polled ::
    "('w, 'tx, 'rx) broadcast_view \<Rightarrow> ('rx, 'will) client \<Rightarrow> string option \<times> (string, 'rx) btree \<Rightarrow> ('w, 'tx, 'rx, 'will) conn \<Rightarrow> bool" where
  "polled V c x s \<longleftrightarrow> conn_inv V s \<and> client s = c \<and> snd x = receivers c \<and>
     (\<forall>k. fst x = Some k \<longrightarrow> (\<exists>rx. bt_get k (receivers c) = Some rx \<and> unread V (chans (shared s)) rx \<noteq> []))"

context broadcast_channel
begin

lemma steady_publish:
  assumes bcP: "bc P = B"
  shows "steady_conn V False (publish_prog P packet)"
  unfolding publish_prog_def bcP
  by (auto intro!: conn.rules steady_steps steady_locked tracks_publish tracks_mute split: qos.splits option.splits)

lemma steady_publish_will: "bc P = B \<Longrightarrow> steady_conn V False (publish_will_prog P)"
  unfolding publish_will_prog_def by (auto intro!: conn.rules steady_steps steady_publish split: option.splits)

lemma steady_subscribe: "bc P = B \<Longrightarrow> steady_conn V False (subscribe_prog P ts codes)"
  by (induction ts arbitrary: codes)
    (auto simp: subscribe_concrete_prog_def intro!: conn.rules steady_steps steady_locked tracks_register tracks_mute
      split: topic_filter.splits option.splits)

text \<open>Dropping a receiver is quiet.\<close>

lemma drop_quiet:
  assumes "shared_inv V sh" "rx \<in> rxs V (chans sh)"
  shows "quiet V sh (sh\<lparr>chans := b_drop_rx B rx (chans sh)\<rparr>)"
  using drop_law [OF assms] by (intro quiet_same) auto

lemma quiet_unsubscribe:
  fixes s :: "('w, 'tx, 'rx, 'will) conn"
  assumes inv: "conn_inv V s" and bcP: "bc P = B"
  shows "quiet V (shared s) (shared (snd (unsubscribe_loop P [t] codes s)))"
proof (cases t)
  case (Concrete f l)
  have "rx \<in> rxs V (chans (shared s))" if "bt_get f (receivers (client s)) = Some rx" for rx
    using receiver_live [OF inv that] by simp
  then show ?thesis
    using drop_quiet inv by (auto simp: Concrete bt_remove_def conn_inv_def bcP split: option.splits)
qed simp_all

lemma steady_unsubscribe: "bc P = B \<Longrightarrow> steady_conn V False (unsubscribe_prog P ts codes)"
proof (induction ts arbitrary: codes)
  case (Cons t ts)
  have "steady_conn V False (atomic (unsubscribe_loop P [t] codes))"
    using behaves_unsubscribe_loop [OF Cons.prems] quiet_unsubscribe [OF _ Cons.prems]
    by (intro conn.atom) (auto simp del: unsubscribe_loop.simps simp: conn_guar_def)
  with Cons show ?case by (simp add: conn.bind)
qed (simp add: conn.ret)

lemma steady_dispatch: "bc P = B \<Longrightarrow> steady_conn V False (dispatch_prog P peer packet)"
  unfolding dispatch_prog_def connect_prog_def
  by (auto intro!: conn.rules steady_steps steady_update_client steady_publish steady_publish_will steady_subscribe
      steady_unsubscribe split: option.splits packet.splits)

lemma polled_rely:
  assumes "polled V c x s" "conn_rely V h s s'"
  shows "polled V c x s'"
proof -
  have "unread V (chans (shared s')) rx \<noteq> []"
    if "bt_get k (receivers c) = Some rx" "unread V (chans (shared s)) rx \<noteq> []" for k rx
  proof -
    have "rx \<in> owned (client s)" using that(1) assms(1) by (auto simp: polled_def owned_def)
    then have "fed V 1024 (chans (shared s)) (chans (shared s')) rx"
      using assms by (auto simp: polled_def conn_rely_def)
    then show ?thesis using that(2) by (auto simp: fed_def)
  qed
  then show ?thesis using assms unfolding polled_def conn_rely_def by metis
qed

lemma recv_not_pending:
  assumes inv: "conn_inv V s" and rx: "bt_get k (receivers (client s)) = Some rx" and bcP: "bc P = B"
    and ne: "unread V (chans (shared s)) rx \<noteq> []"
  shows "can_recv P rx s"
proof -
  note live = receiver_live [OF inv rx]
  obtain r w where eq: "b_recv B rx (chans (shared s)) = (r, w)" by (metis surj_pair)
  obtain m ms where q: "unread V (chans (shared s)) rx = m # ms" using ne by (cases "unread V (chans (shared s)) rx") auto
  show ?thesis
    using recv_ok [OF live(2,1) _ q eq] recv_lagged [OF live(2,1) _ eq] eq
    by (cases "missed V (chans (shared s)) rx = 0") (auto simp: can_recv_def bcP)
qed

lemma recv_quiet:
  assumes inv: "conn_inv V s" and rx: "bt_get k (receivers (client s)) = Some rx" and bcP: "bc P = B"
    and ne: "unread V (chans (shared s)) rx \<noteq> []"
  shows "quiet V (shared s) (shared (snd (recv_on P rx s)))"
proof -
  note live = receiver_live [OF inv rx]
  have sinv: "shared_inv V (shared s)" using inv by (simp add: conn_inv_def)
  obtain r w where eq: "b_recv B rx (chans (shared s)) = (r, w)" by (metis surj_pair)
  obtain m ms where q: "unread V (chans (shared s)) rx = m # ms" using ne by (cases "unread V (chans (shared s)) rx") auto
  have "unread V w rx = drop (if missed V (chans (shared s)) rx = 0 then 1 else 0) (unread V (chans (shared s)) rx)"
    using recv_ok [OF live(2,1) _ q eq] recv_lagged [OF live(2,1) _ eq] q by auto
  moreover have "unread V w r = drop 0 (unread V (chans (shared s)) r)" if "r \<in> rxs V w" "r \<noteq> rx" for r
    using recv_law(3,4) [OF sinv live(1) eq] that by (simp add: same_queues_def)
  ultimately have "only_read V (chans (shared s)) w"
    using recv_law(3) [OF sinv live(1) eq] unfolding only_read_def by metis
  then show ?thesis by (simp add: quiet_def recv_on_def bcP eq)
qed

lemma meets_recv_forward:
  fixes s :: "('w, 'tx, 'rx, 'will) conn"
  assumes pl: "polled V c (Some k, recvs) s" and rx: "bt_get k recvs = Some rx" and bcP: "bc P = B"
  shows "safe V (recv_forward_prog P rx) False s"
  unfolding recv_forward_prog_def bind_prog_def
proof (rule conn.meets_and_then)
  show "meets (conn_rely V) (conn_guar V) (await (can_recv P rx) (recv_on P rx)) False (\<lambda>r h s. h = False) s"
    unfolding await_def
  proof (simp, intro allI impI)
    fix s1 assume "conn_rely V False s s1"
    with pl have "polled V c (Some k, recvs) s1" by (rule polled_rely)
    then have rx1: "bt_get k (receivers (client s1)) = Some rx" and inv1: "conn_inv V s1"
      and ne: "unread V (chans (shared s1)) rx \<noteq> []"
      using rx by (auto simp: polled_def)
    show "can_recv P rx s1 \<and> conn_guar V False s1 (snd (recv_on P rx s1))"
      using recv_not_pending [OF inv1 rx1 bcP ne] behaves_recv [OF rx1 bcP] recv_quiet [OF inv1 rx1 bcP ne]
      by (simp add: conn_guar_def)
  qed
  fix r :: "(mcloud_error, recv_result) outcome" and h and s' :: "('w, 'tx, 'rx, 'will) conn"
  assume "h = False"
  moreover have "steady_conn V False (bind_outcome r (\<lambda>message.
      case message of RecvOk (Publish packet) \<Rightarrow> forward_prog P packet | _ \<Rightarrow> done_prog ()))"
    by (intro conn.outcome_cases) (auto intro: conn.ret steady_forward split: recv_result.splits message.splits)
  ultimately show "safe V (bind_outcome r (\<lambda>message.
      case message of RecvOk (Publish packet) \<Rightarrow> forward_prog P packet | _ \<Rightarrow> done_prog ())) h s'"
    by (simp add: steady_def)
qed

lemma meets_receiver_ready:
  fixes s :: "('w, 'tx, 'rx, 'will) conn"
  assumes inv: "conn_inv V s" and bcP: "bc P = B"
  shows "safe V (on_receiver_ready_prog P) False s"
  unfolding on_receiver_ready_prog_def bind_prog_def
proof (rule conn.meets_and_then)
  let ?poll = "\<lambda>s. (receiver_poll (bc P) (receivers (client s)) (chans (shared s)), receivers (client s))"
  show "meets (conn_rely V) (conn_guar V) (atomic (get_io ?poll)) False
      (\<lambda>r h s'. \<not> h \<and> (\<exists>x. r = Ok x \<and> polled V (client s) x s')) s"
    unfolding atomic_def await_def
  proof (simp add: conn_guar_def behaves.refl, intro allI impI)
    fix s1 s2 assume r: "conn_rely V False s s1" and r2: "conn_rely V False s1 s2"
    have "conn_inv V s1" "client s1 = client s" using inv r by (auto simp: conn_rely_def)
    then have "polled V (client s) (?poll s1) s1" using poll_Some by (fastforce simp: polled_def bcP)
    then show "polled V (client s) (?poll s1) s2" using r2 by (rule polled_rely)
  qed
next
  fix r :: "(mcloud_error, string option \<times> (string, 'rx) btree) outcome" and h and s' :: "('w, 'tx, 'rx, 'will) conn"
  assume "\<not> h \<and> (\<exists>x. r = Ok x \<and> polled V (client s) x s')"
  then obtain key recvs where h: "h = False" and r: "r = Ok (key, recvs)" and pl: "polled V (client s) (key, recvs) s'"
    by auto
  then show "safe V
      (bind_outcome r (\<lambda>(key, recvs). case key of None \<Rightarrow> done_prog ()
        | Some k \<Rightarrow> (case bt_get k recvs of None \<Rightarrow> Return (Panic UnwrapNone) | Some rx \<Rightarrow> recv_forward_prog P rx)))
      h s'"
    using meets_recv_forward [OF _ _ bcP] by (auto split: option.splits)
qed

lemma meets_serve:
  fixes s :: "('w, 'tx, 'rx, 'will) conn"
  assumes inv: "conn_inv V s" and bcP: "bc P = B"
  shows "safe V (serve_prog P addr ev) False s"
proof (cases "ev = ReceiverReady \<and> will_delay P \<noteq> None")
  case True
  then show ?thesis using meets_receiver_ready [OF assms] by (auto simp: serve_prog_def)
next
  case False
  then have "steady_conn V False (serve_prog P addr ev)"
    unfolding serve_prog_def on_read_prog_def on_retry_tick_prog_def
    by (auto intro!: conn.rules steady_dispatch steady_publish_will steady_steps steady_retry steady_update_client bcP
        split: option.splits event.splits sum.splits)
  then show ?thesis by (simp add: steady_def)
qed

end

end
