(* ===== verification/Concurrency.thy ===== *)
theory Concurrency
  imports Interleaving
begin

text \<open>
  The system of theory \<open>Broker\<close> with the programs of theory \<open>Interleaving\<close>: the state has, for each
  connection, what is left of the branch it is in, and who holds the mutex around the topic store. A
  step is one atomic step of one connection, of the accept loop, or a round of the Redis task. The
  theory proves the invariant of this system, that the branches of theory \<open>Broker\<close> are among its
  executions, that no branch waits for more than the mutex, and what holding the mutex means.
\<close>

section \<open>The system\<close>

record ('w, 'tx, 'rx, 'will) sched =
  broker_of :: "('w, 'tx, 'rx, 'will) broker"
  pending :: "nat \<Rightarrow> ('w, 'tx, 'rx, 'will, unit) cprog option"
  holder :: "nat option"

definition idle :: "('w, 'tx, 'rx, 'will) broker \<Rightarrow> ('w, 'tx, 'rx, 'will) sched" where
  "idle b = \<lparr>broker_of = b, pending = (\<lambda>_. None), holder = None\<rparr>"

datatype actor = Task nat | Acceptor | RedisTask

definition put_task ::
    "nat \<Rightarrow> ('rx, 'will) task \<Rightarrow> ('w, 'tx, 'rx, 'will) conn \<Rightarrow> ('w, 'tx, 'rx, 'will) broker \<Rightarrow>
     ('w, 'tx, 'rx, 'will) broker" where
  "put_task i t s b = b\<lparr>store := shared s, tasks := (tasks b)(i \<mapsto> t\<lparr>t_client := client s, t_iolog := iolog s\<rparr>)\<rparr>"

text \<open>Whether a message from Redis makes \<open>handle_message\<close> acquire the mutex.\<close>

fun takes_lock :: "('w, 'tx, 'rx, 'will) platform \<Rightarrow> 'v json_lib \<Rightarrow> redis_client \<Rightarrow> redis_event \<Rightarrow> bool" where
  "takes_lock P J c (FromRedis message) =
     (case from_str J message of
        Inl _ \<Rightarrow> False
      | Inr m \<Rightarrow> rm_sender_id m \<noteq> rc_sender_id c \<and>
          (\<exists>p. build_publish (mqtt P) (rm_topic m) (rm_payload m) (Some (rm_retain m)) = Inr p))"
| "takes_lock P J c _ = False"

text \<open>
  A branch begins when its event occurs. A branch that returned \<open>Ok\<close> leads back into the loop; after an
  error or a panic the receivers of the client are dropped one after the other and the task is gone.
\<close>

inductive sstep ::
    "(nat \<Rightarrow> ('w, 'tx, 'rx, 'will) platform) \<Rightarrow> ('w, 'tx, 'rx, 'will) platform \<Rightarrow> 'v json_lib \<Rightarrow> redis_env \<Rightarrow>
     redis_client \<Rightarrow> actor \<Rightarrow> ('w, 'tx, 'rx, 'will) sched \<Rightarrow> ('w, 'tx, 'rx, 'will) sched \<Rightarrow> bool"
  for Ps P J E c where
  begins: "tasks (broker_of f) i = Some t \<Longrightarrow> pending f i = None \<Longrightarrow>
    enabled (Ps i) (task_conn (broker_of f) t) ev \<Longrightarrow>
    sstep Ps P J E c (Task i) f (f\<lparr>pending := (pending f)(i \<mapsto> serve_prog (Ps i) (t_addr t) ev)\<rparr>)"
| steps: "tasks (broker_of f) i = Some t \<Longrightarrow> pending f i = Some (Atomic g u k) \<Longrightarrow>
    g (task_conn (broker_of f) t) \<Longrightarrow>
    sstep Ps P J E c (Task i) f
      (f\<lparr>broker_of := put_task i t (u (task_conn (broker_of f) t)) (broker_of f),
         pending := (pending f)(i \<mapsto> k (task_conn (broker_of f) t))\<rparr>)"
| locks: "pending f i = Some (Lock p) \<Longrightarrow> holder f = None \<Longrightarrow>
    sstep Ps P J E c (Task i) f (f\<lparr>pending := (pending f)(i \<mapsto> p), holder := Some i\<rparr>)"
| unlocks: "pending f i = Some (Unlock p) \<Longrightarrow>
    sstep Ps P J E c (Task i) f (f\<lparr>pending := (pending f)(i \<mapsto> p), holder := None\<rparr>)"
| goes_on: "pending f i = Some (Return (Ok ())) \<Longrightarrow>
    sstep Ps P J E c (Task i) f (f\<lparr>pending := (pending f)(i := None)\<rparr>)"
| unwinds: "tasks (broker_of f) i = Some t \<Longrightarrow> pending f i = Some (Return r) \<Longrightarrow> r \<noteq> Ok () \<Longrightarrow>
    bt_iter (receivers (t_client t)) = (k, rx) # rest \<Longrightarrow>
    sstep Ps P J E c (Task i) f
      (f\<lparr>broker_of := put_task i t
           \<lparr>client = (t_client t)\<lparr>receivers := bt_del k (receivers (t_client t))\<rparr>,
            shared = (store (broker_of f))\<lparr>chans := b_drop_rx (bc (Ps i)) rx (chans (store (broker_of f)))\<rparr>,
            iolog = t_iolog t\<rparr> (broker_of f)\<rparr>)"
| ends: "tasks (broker_of f) i = Some t \<Longrightarrow> pending f i = Some (Return r) \<Longrightarrow> r \<noteq> Ok () \<Longrightarrow>
    bt_iter (receivers (t_client t)) = [] \<Longrightarrow>
    sstep Ps P J E c (Task i) f
      (f\<lparr>broker_of := (broker_of f)\<lparr>tasks := (tasks (broker_of f))(i := None)\<rparr>,
         pending := (pending f)(i := None)\<rparr>)"
| accepts: "accept_step P (broker_of f) b \<Longrightarrow> sstep Ps P J E c Acceptor f (f\<lparr>broker_of := b\<rparr>)"
| redis: "redis_step P J E c ev (broker_of f) b \<Longrightarrow> (takes_lock P J c ev \<longrightarrow> holder f = None) \<Longrightarrow>
    sstep Ps P J E c RedisTask f (f\<lparr>broker_of := b\<rparr>)"

inductive_cases sstep_task: "sstep Ps P J E c (Task i) f f'"
inductive_cases sstep_acceptor: "sstep Ps P J E c Acceptor f f'"
inductive_cases sstep_redis: "sstep Ps P J E c RedisTask f f'"

definition any_step ::
    "(nat \<Rightarrow> ('w, 'tx, 'rx, 'will) platform) \<Rightarrow> ('w, 'tx, 'rx, 'will) platform \<Rightarrow> 'v json_lib \<Rightarrow> redis_env \<Rightarrow>
     redis_client \<Rightarrow> ('w, 'tx, 'rx, 'will) sched \<Rightarrow> ('w, 'tx, 'rx, 'will) sched \<Rightarrow> bool" where
  "any_step Ps P J E c f f' \<longleftrightarrow> (\<exists>a. sstep Ps P J E c a f f')"

section \<open>The invariant\<close>

text \<open>
  The invariant of the broker holds; what is left of a branch meets its rely and guarantee from the
  present state, with the mutex exactly if it is the holder; and the holder is in a branch.
\<close>

definition sched_inv :: "('w, 'tx, 'rx) broadcast_view \<Rightarrow> ('w, 'tx, 'rx, 'will) sched \<Rightarrow> bool" where
  "sched_inv V f \<longleftrightarrow> broker_inv V (broker_of f) \<and>
     (\<forall>i p. pending f i = Some p \<longrightarrow> (\<exists>t. tasks (broker_of f) i = Some t \<and>
        safe V p (holder f = Some i) (task_conn (broker_of f) t))) \<and>
     (\<forall>i. holder f = Some i \<longrightarrow> pending f i \<noteq> None)"

lemma sched_invI:
  assumes "broker_inv V (broker_of f)"
    and "\<And>i p. pending f i = Some p \<Longrightarrow> \<exists>t. tasks (broker_of f) i = Some t \<and>
        safe V p (holder f = Some i) (task_conn (broker_of f) t)"
    and "\<And>i. holder f = Some i \<Longrightarrow> pending f i \<noteq> None"
  shows "sched_inv V f"
  using assms unfolding sched_inv_def by blast

lemma sched_invD:
  assumes "sched_inv V f"
  shows "broker_inv V (broker_of f)"
    "pending f i = Some p \<Longrightarrow> tasks (broker_of f) i = Some t \<Longrightarrow>
      safe V p (holder f = Some i) (task_conn (broker_of f) t)"
    "pending f i = Some p \<Longrightarrow> \<exists>t. tasks (broker_of f) i = Some t"
    "holder f = Some i \<Longrightarrow> pending f i \<noteq> None"
  using assms unfolding sched_inv_def by (metis option.inject)+

lemma sched_inv_idle: "broker_inv V b \<Longrightarrow> sched_inv V (idle b)"
  by (simp add: sched_inv_def idle_def)

lemma task_conn_inv: "broker_inv V b \<Longrightarrow> tasks b i = Some t \<Longrightarrow> conn_inv V (task_conn b t)"
  by (simp add: conn_inv_def task_conn_def broker_invD)

lemma task_conn_put [simp]: "task_conn (put_task i t s b) (t\<lparr>t_client := client s, t_iolog := iolog s\<rparr>) = s"
  by (simp add: task_conn_def put_task_def)

lemma tasks_put [simp]: "tasks (put_task i t s b) = (tasks b)(i \<mapsto> t\<lparr>t_client := client s, t_iolog := iolog s\<rparr>)"
  by (simp add: put_task_def)

text \<open>What the others see of a change of the store.\<close>

lemma others_rely:
  assumes "broker_inv V b'" "tasks b' j = Some u" "h \<longrightarrow> topics (store b') = topics (store b)"
    and "\<forall>rx\<in>owned (t_client u). fed V 1024 (chans (store b)) (chans (store b')) rx"
  shows "conn_rely V h (task_conn b u) (task_conn b' u)"
  using assms task_conn_inv [OF assms(1,2)] by (simp add: conn_rely_def task_conn_def)

context broadcast_channel
begin

lemma task_feeds_others:
  fixes b :: "('w, 'tx, 'rx, 'will) broker"
  assumes inv: "broker_inv V b" and t: "tasks b i = Some t" and beh: "behaves V (task_conn b t) s"
    and u: "tasks b j = Some u" "j \<noteq> i" and rx: "rx \<in> owned (t_client u)"
  shows "fed V 1024 (chans (store b)) (chans (shared s)) rx"
proof -
  note I = broker_invD [OF inv]
  have "others_kept V (owned (t_client t)) (store b) (shared s)"
    using beh task_conn_inv [OF inv t] by (auto simp: behaves_def task_conn_def)
  moreover have "rx \<in> rxs V (chans (store b))" using owned_live [OF I(2) [OF u(1)] I(1)] rx by blast
  moreover have "rx \<notin> owned (t_client t)" using I(4) [OF u(1) t u(2)] rx by blast
  ultimately show ?thesis by (auto simp: others_kept_def)
qed

text \<open>A step of connection \<open>i\<close> that keeps its guarantee keeps the invariant of the system.\<close>

lemma sched_inv_put:
  fixes f :: "('w, 'tx, 'rx, 'will) sched"
  assumes inv: "sched_inv V f" and t: "tasks (broker_of f) i = Some t"
    and g: "conn_guar V (holder f = Some i) (task_conn (broker_of f) t) s"
    and p: "safe V p (holder f = Some i) s"
  shows "sched_inv V (f\<lparr>broker_of := put_task i t s (broker_of f), pending := (pending f)(i \<mapsto> p)\<rparr>)"
proof (rule sched_invI)
  let ?b = "broker_of f" and ?b' = "put_task i t s (broker_of f)"
  note I = sched_invD [OF inv]
  have beh: "behaves V (task_conn ?b t) s" using g by (simp add: conn_guar_def)
  have binv: "broker_inv V ?b'" unfolding put_task_def by (rule broker_inv_put_task [OF I(1) t beh])
  then show "broker_inv V (broker_of (f\<lparr>broker_of := ?b', pending := (pending f)(i \<mapsto> p)\<rparr>))" by simp
  fix j q assume q: "pending (f\<lparr>broker_of := ?b', pending := (pending f)(i \<mapsto> p)\<rparr>) j = Some q"
  show "\<exists>u. tasks (broker_of (f\<lparr>broker_of := ?b', pending := (pending f)(i \<mapsto> p)\<rparr>)) j = Some u \<and>
    safe V q (holder (f\<lparr>broker_of := ?b', pending := (pending f)(i \<mapsto> p)\<rparr>) = Some j) (task_conn (broker_of (f\<lparr>broker_of := ?b', pending := (pending f)(i \<mapsto> p)\<rparr>)) u)"
  proof (cases "j = i")
    case True
    then have "q = p" using q by simp
    with True p show ?thesis by (intro exI [of _ "t\<lparr>t_client := client s, t_iolog := iolog s\<rparr>"]) simp
  next
    case False
    with q obtain u where u: "tasks ?b j = Some u" and m: "safe V q (holder f = Some j) (task_conn ?b u)"
      using I(2,3) by fastforce
    have "conn_rely V (holder f = Some j) (task_conn ?b u) (task_conn ?b' u)"
      using g False task_feeds_others [OF I(1) t beh u False] u task_conn_inv [OF I(1) t]
      by (intro others_rely [OF binv]) (auto simp: put_task_def conn_guar_def task_conn_def quiet_def)
    with conn.stable [OF m] u False show ?thesis by (auto simp: put_task_def)
  qed
qed (use sched_invD(4) [OF inv] in auto)

text \<open>A change of the broker by the accept loop or the Redis task.\<close>

lemma sched_inv_env:
  fixes f :: "('w, 'tx, 'rx, 'will) sched"
  assumes inv: "sched_inv V f" and b: "broker_inv V b"
    and tasks: "\<And>j u. tasks (broker_of f) j = Some u \<Longrightarrow> tasks b j = Some u"
    and fed: "\<And>j u rx. tasks (broker_of f) j = Some u \<Longrightarrow> rx \<in> owned (t_client u) \<Longrightarrow>
      fed V 1024 (chans (store (broker_of f))) (chans (store b)) rx"
    and topics: "holder f \<noteq> None \<Longrightarrow> topics (store b) = topics (store (broker_of f))"
  shows "sched_inv V (f\<lparr>broker_of := b\<rparr>)"
proof (rule sched_invI)
  note I = sched_invD [OF inv]
  fix j q assume q: "pending (f\<lparr>broker_of := b\<rparr>) j = Some q"
  then obtain u where u: "tasks (broker_of f) j = Some u" using I(3) by auto
  then have m: "safe V q (holder f = Some j) (task_conn (broker_of f) u)" using q I(2) by simp
  have "conn_rely V (holder f = Some j) (task_conn (broker_of f) u) (task_conn b u)"
    using u fed topics by (intro others_rely [OF b tasks [OF u]]) auto
  with conn.stable [OF m] tasks [OF u]
  show "\<exists>t. tasks (broker_of (f\<lparr>broker_of := b\<rparr>)) j = Some t \<and>
      safe V q (holder (f\<lparr>broker_of := b\<rparr>) = Some j) (task_conn (broker_of (f\<lparr>broker_of := b\<rparr>)) t)"
    by auto
qed (use b sched_invD(4) [OF inv] in auto)

text \<open>A step of connection \<open>i\<close> that changes the state of the mutex or the rest of the branch only.\<close>

lemma sched_inv_branch:
  fixes f :: "('w, 'tx, 'rx, 'will) sched"
  assumes inv: "sched_inv V f"
    and others: "\<And>j. j \<noteq> i \<Longrightarrow> (h = Some j) = (holder f = Some j)"
    and own: "\<And>p. q = Some p \<Longrightarrow> \<exists>t. tasks (broker_of f) i = Some t \<and> safe V p (h = Some i) (task_conn (broker_of f) t)"
    and none: "h = Some i \<Longrightarrow> q \<noteq> None"
  shows "sched_inv V (f\<lparr>pending := (pending f)(i := q), holder := h\<rparr>)"
proof (rule sched_invI)
  note I = sched_invD [OF inv]
  fix j p assume p: "pending (f\<lparr>pending := (pending f)(i := q), holder := h\<rparr>) j = Some p"
  show "\<exists>t. tasks (broker_of (f\<lparr>pending := (pending f)(i := q), holder := h\<rparr>)) j = Some t \<and>
      safe V p (holder (f\<lparr>pending := (pending f)(i := q), holder := h\<rparr>) = Some j)
        (task_conn (broker_of (f\<lparr>pending := (pending f)(i := q), holder := h\<rparr>)) t)"
    using p own I(2,3) others by (cases "j = i") fastforce+
next
  fix j assume "holder (f\<lparr>pending := (pending f)(i := q), holder := h\<rparr>) = Some j"
  then show "pending (f\<lparr>pending := (pending f)(i := q), holder := h\<rparr>) j \<noteq> None"
    using none others [of j] sched_invD(4) [OF inv, of j] by (cases "j = i") auto
qed (use sched_invD(1) [OF inv] in simp)

lemma redis_step_lock:
  fixes b :: "('w, 'tx, 'rx, 'will) broker"
  assumes "redis_step P J E c ev b b'" "\<not> takes_lock P J c ev"
  shows "store b' = store b"
proof -
  have "rs_shared s' = rs_shared s" if "listen_step P J E c ev s = Some (r, s')" for r and s s' :: "('w, 'tx) redis_state"
    using that assms(2)
    by (cases ev) (auto simp: listen_step_def handle_message_def redis_publish_def then_io_def bind_io_def redis_query_def
        Let_def split: option.splits sum.splits if_splits)
  then show ?thesis using assms(1) by (cases rule: redis_step_cases) fastforce+
qed

lemma accept_step_tasks:
  assumes "accept_step P b b'" "broker_inv V b"
  shows "store b' = store b" "tasks b j = Some u \<Longrightarrow> tasks b' j = Some u"
  using assms broker_invD(3) [OF assms(2), of j u]
  by (auto elim!: accept_step_cases simp: handle_new_connection_def Let_def split: sum.splits)

text \<open>Dropping a receiver of a branch that failed, and ending its task.\<close>

lemma unwind_guar:
  fixes b :: "('w, 'tx, 'rx, 'will) broker"
  assumes inv: "broker_inv V b" and t: "tasks b i = Some t"
    and it: "bt_iter (receivers (t_client t)) = (k, rx) # rest"
  shows "conn_guar V h (task_conn b t) \<lparr>client = (t_client t)\<lparr>receivers := bt_del k (receivers (t_client t))\<rparr>,
    shared = (store b)\<lparr>chans := b_drop_rx B rx (chans (store b))\<rparr>, iolog = t_iolog t\<rparr>"
proof -
  have cinv: "conn_inv V (task_conn b t)" by (rule task_conn_inv [OF inv t])
  then have "bt_wf (receivers (t_client t))" by (simp add: conn_inv_def client_inv_def task_conn_def)
  then have rx: "bt_get k (receivers (t_client t)) = Some rx" using it bt.iter_get by fastforce
  then have "rx \<in> rxs V (chans (store b))" using receiver_live [OF cinv] by (simp add: task_conn_def)
  then show ?thesis
    using behaves_unsubscribe [OF cinv, of k rx] rx drop_quiet [OF broker_invD(1) [OF inv]]
    by (simp add: task_conn_def conn_guar_def mute_silent)
qed

lemma sched_inv_ends:
  fixes f :: "('w, 'tx, 'rx, 'will) sched"
  assumes inv: "sched_inv V f" and t: "tasks (broker_of f) i = Some t" and nh: "holder f \<noteq> Some i"
    and none: "bt_iter (receivers (t_client t)) = []"
  shows "sched_inv V (f\<lparr>broker_of := (broker_of f)\<lparr>tasks := (tasks (broker_of f))(i := None)\<rparr>,
    pending := (pending f)(i := None)\<rparr>)" (is "sched_inv V ?f")
proof (rule sched_invI)
  note I = sched_invD [OF inv]
  show "broker_inv V (broker_of ?f)"
    using broker_inv_drop_task [OF I(1) t behaves.refl] none by (simp add: task_conn_def drop_client_def)
  fix j q assume q: "pending ?f j = Some q"
  then have j: "j \<noteq> i" "pending f j = Some q" by (auto split: if_splits)
  then obtain u where u: "tasks (broker_of f) j = Some u" using I(3) by blast
  then show "\<exists>t. tasks (broker_of ?f) j = Some t \<and> safe V q (holder ?f = Some j) (task_conn (broker_of ?f) t)"
    using I(2) [OF j(2) u] j by (simp add: task_conn_def)
qed (use sched_invD(4) [OF inv] nh in auto)

lemma sched_inv_redis:
  fixes f :: "('w, 'tx, 'rx, 'will) sched"
  assumes inv: "sched_inv V f" and step: "redis_step P J E c ev (broker_of f) b" and bcP: "bc P = B"
    and lock: "takes_lock P J c ev \<longrightarrow> holder f = None"
  shows "sched_inv V (f\<lparr>broker_of := b\<rparr>)"
proof (rule sched_inv_env [OF inv])
  note K = redis_step_kept [OF step sched_invD(1) [OF inv] bcP] and I = broker_invD [OF sched_invD(1) [OF inv]]
  show "broker_inv V b" "tasks (broker_of f) j = Some u \<Longrightarrow> tasks b j = Some u" for j u using K by auto
  fix j u rx assume u: "tasks (broker_of f) j = Some u" "rx \<in> owned (t_client u)"
  then have "rx \<in> rxs V (chans (store (broker_of f)))" using owned_live [OF I(2) I(1)] by blast
  then show "fed V 1024 (chans (store (broker_of f))) (chans (store b)) rx" using K by (simp add: others_kept_def)
next
  assume "holder f \<noteq> None"
  then show "topics (store b) = topics (store (broker_of f))" using redis_step_lock [OF step] lock by auto
qed

lemma sstep_inv:
  fixes f :: "('w, 'tx, 'rx, 'will) sched"
  assumes step: "sstep Ps P J E c a f f'" and inv: "sched_inv V f" and bcs: "bc P = B" "\<And>i. bc (Ps i) = B"
  shows "sched_inv V f'"
proof -
  note I = sched_invD [OF inv]
  have own: "\<exists>t. tasks (broker_of f) i = Some t \<and> safe V p (holder f = Some i) (task_conn (broker_of f) t)"
    if "pending f i = Some p" for i p using I(2,3) that by blast
  from step show ?thesis
  proof cases
    case (begins i t ev)
    then have "safe V (serve_prog (Ps i) (t_addr t) ev) (holder f = Some i) (task_conn (broker_of f) t)"
      using meets_serve [OF task_conn_inv [OF I(1)] bcs(2)] I(4) [of i] by (cases "holder f = Some i") auto
    with begins sched_inv_branch [OF inv, of i "holder f" "Some (serve_prog (Ps i) (t_addr t) ev)"] show ?thesis by simp
  next
    case (steps i t g u k)
    then show ?thesis using conn.now(2) [OF I(2) [OF steps(4,3)]] by (auto intro: sched_inv_put [OF inv])
  next
    case (locks i p)
    obtain t where t: "tasks (broker_of f) i = Some t" using I(3) [OF locks(3)] by blast
    then show ?thesis
      unfolding locks(2) using locks conn.now(3) [OF I(2) [OF locks(3) t]] by (intro sched_inv_branch [OF inv]) auto
  next
    case (unlocks i p)
    obtain t where t: "tasks (broker_of f) i = Some t" using I(3) [OF unlocks(3)] by blast
    then show ?thesis
      unfolding unlocks(2) using unlocks conn.now(4) [OF I(2) [OF unlocks(3) t]] by (intro sched_inv_branch [OF inv]) auto
  next
    case (goes_on i)
    then have "holder f \<noteq> Some i" using conn.now(1) own [OF goes_on(3)] by blast
    with sched_inv_branch [OF inv, of i "holder f" None] goes_on show ?thesis by simp
  next
    case (unwinds i t r k rx rest)
    have nh: "holder f \<noteq> Some i" using conn.now(1) [OF I(2) [OF unwinds(4,3)]] by simp
    show ?thesis
      using sched_inv_put [OF inv unwinds(3) unwind_guar [OF I(1) unwinds(3,6)], of "Return r"] nh unwinds(4)
      unfolding unwinds(2) bcs by (simp add: fun_upd_idem)
  next
    case (ends i t r)
    then show ?thesis using conn.now(1) [OF I(2) [OF ends(4,3)]] by (auto intro: sched_inv_ends [OF inv])
  next
    case (accepts b)
    note A = accept_step_tasks [OF accepts(3) I(1)]
    show ?thesis
      unfolding accepts(2) using A accept_step_inv [OF accepts(3) I(1)] by (intro sched_inv_env [OF inv]) auto
  next
    case (redis ev b)
    then show ?thesis using sched_inv_redis [OF inv redis(3) bcs(1)] by simp
  qed
qed

lemma reachable_sched_inv:
  fixes f :: "('w, 'tx, 'rx, 'will) sched"
  assumes "(any_step Ps P J E c)\<^sup>*\<^sup>* f0 f" "sched_inv V f0" "bc P = B" "\<And>i. bc (Ps i) = B"
  shows "sched_inv V f"
  using assms(1)
proof (induction rule: rtranclp_induct)
  case (step y z)
  then obtain a where "sstep Ps P J E c a y z" by (auto simp: any_step_def)
  then show ?case using step.IH assms(3,4) by (rule sstep_inv)
qed (rule assms(2))

end

section \<open>Running one branch alone\<close>

lemma put_task_again:
  "put_task i (t\<lparr>t_client := c, t_iolog := l\<rparr>) s (put_task i t s1 b) = put_task i t s b"
  by (simp add: put_task_def)

lemma put_task_same: "tasks b i = Some t \<Longrightarrow> put_task i t (task_conn b t) b = b"
  by (simp add: put_task_def task_conn_def fun_upd_idem)

text \<open>The system with a new broker, a new rest of branch \<open>i\<close> and a new holder.\<close>

definition set_branch ::
    "nat \<Rightarrow> ('w, 'tx, 'rx, 'will) broker \<Rightarrow> ('w, 'tx, 'rx, 'will, unit) cprog option \<Rightarrow> nat option \<Rightarrow>
     ('w, 'tx, 'rx, 'will) sched \<Rightarrow> ('w, 'tx, 'rx, 'will) sched" where
  "set_branch i b q h f = \<lparr>broker_of = b, pending = (pending f)(i := q), holder = h\<rparr>"

lemma set_branch_simps [simp]:
  "broker_of (set_branch i b q h f) = b" "pending (set_branch i b q h f) = (pending f)(i := q)"
  "holder (set_branch i b q h f) = h" "set_branch i b q h (set_branch i b' q' h' f) = set_branch i b q h f"
  by (simp_all add: set_branch_def)

lemma set_branch_same: "pending f i = q \<Longrightarrow> holder f = h \<Longrightarrow> set_branch i (broker_of f) q h f = f"
  by (cases f) (auto simp: set_branch_def)

lemma set_branch_eqs:
  "f\<lparr>broker_of := b, pending := (pending f)(i := q)\<rparr> = set_branch i b q (holder f) f"
  "f\<lparr>pending := (pending f)(i := q), holder := h\<rparr> = set_branch i (broker_of f) q h f"
  "f\<lparr>pending := (pending f)(i := q)\<rparr> = set_branch i (broker_of f) q (holder f) f"
  "pending f i = q \<Longrightarrow> f\<lparr>broker_of := b\<rparr> = set_branch i b q (holder f) f"
  by (cases f; auto simp: set_branch_def)+

text \<open>A safe branch runs to its outcome when the mutex is free or its own.\<close>

lemma run_alone:
  assumes "tasks (broker_of f) i = Some t" "pending f i = Some p"
    and "safe V p (holder f = Some i) (task_conn (broker_of f) t)" "holder f = None \<or> holder f = Some i"
    and "run_prog p (task_conn (broker_of f) t) = (r, s)"
  shows "(sstep Ps P J E c (Task i))\<^sup>*\<^sup>* f (set_branch i (put_task i t s (broker_of f)) (Some (Return r)) None f)"
  using assms
proof (induction p arbitrary: f t)
  case (Return q)
  have "holder f = None" using conn.now(1) [OF Return.prems(3)] Return.prems(4) by auto
  moreover have "q = r" "s = task_conn (broker_of f) t" using Return.prems(5) by (simp_all add: run_prog.simps(1))
  ultimately show ?case using Return.prems(1,2) by (simp add: put_task_same set_branch_same)
next
  case (Atomic g u k)
  let ?s = "task_conn (broker_of f) t"
  let ?f = "set_branch i (put_task i t (u ?s) (broker_of f)) (Some (k ?s)) (holder f) f"
  let ?t = "t\<lparr>t_client := client (u ?s), t_iolog := iolog (u ?s)\<rparr>"
  note now = conn.now(2) [OF Atomic.prems(3)]
  have "sstep Ps P J E c (Task i) f ?f"
    unfolding set_branch_eqs(1) [symmetric] using now sstep.steps [OF Atomic.prems(1,2)] by blast
  moreover have "(sstep Ps P J E c (Task i))\<^sup>*\<^sup>* ?f
      (set_branch i (put_task i ?t s (broker_of ?f)) (Some (Return r)) None ?f)"
    using now Atomic.prems(4,5) by (intro Atomic.IH) auto
  ultimately show ?case by (simp only: put_task_again set_branch_simps converse_rtranclp_into_rtranclp)
next
  case (Lock p)
  let ?f = "set_branch i (broker_of f) (Some p) (Some i) f"
  note now = conn.now(3) [OF Lock.prems(3)]
  have "sstep Ps P J E c (Task i) f ?f"
    unfolding set_branch_eqs(2) [symmetric] using Lock.prems(2,4) now by (intro sstep.locks) auto
  moreover have "(sstep Ps P J E c (Task i))\<^sup>*\<^sup>* ?f (set_branch i (put_task i t s (broker_of ?f)) (Some (Return r)) None ?f)"
    using now Lock.prems(1,5) by (intro Lock.IH) auto
  ultimately show ?case by (simp only: set_branch_simps converse_rtranclp_into_rtranclp)
next
  case (Unlock p)
  let ?f = "set_branch i (broker_of f) (Some p) None f"
  note now = conn.now(4) [OF Unlock.prems(3)]
  have "sstep Ps P J E c (Task i) f ?f"
    unfolding set_branch_eqs(2) [symmetric] using Unlock.prems(2) by (intro sstep.unlocks) auto
  moreover have "(sstep Ps P J E c (Task i))\<^sup>*\<^sup>* ?f (set_branch i (put_task i t s (broker_of ?f)) (Some (Return r)) None ?f)"
    using now Unlock.prems(1,5) by (intro Unlock.IH) auto
  ultimately show ?case by (simp only: set_branch_simps converse_rtranclp_into_rtranclp)
qed

text \<open>The end of a branch: back to the loop, or the receivers dropped in order and the task gone.\<close>

definition end_branch ::
    "('w, 'tx, 'rx) broadcast_ops \<Rightarrow> nat \<Rightarrow> ('rx, 'will) task \<Rightarrow> (mcloud_error, unit) outcome \<Rightarrow>
     ('w, 'tx, 'rx, 'will) broker \<Rightarrow> ('w, 'tx, 'rx, 'will) broker" where
  "end_branch B i t r b =
     (case r of
        Ok _ \<Rightarrow> b
      | _ \<Rightarrow> b\<lparr>store := drop_client B (t_client t) (store b), tasks := (tasks b)(i := None)\<rparr>)"

lemma unwind_alone:
  assumes "tasks (broker_of f) i = Some t" "pending f i = Some (Return r)" "r \<noteq> Ok ()"
  shows "(sstep Ps P J E c (Task i))\<^sup>*\<^sup>* f
    (set_branch i ((broker_of f)\<lparr>store := drop_client (bc (Ps i)) (t_client t) (store (broker_of f)),
         tasks := (tasks (broker_of f))(i := None)\<rparr>) None (holder f) f)"
  using assms
proof (induction "bt_iter (receivers (t_client t))" arbitrary: f t)
  case Nil
  have "drop_client (bc (Ps i)) (t_client t) (store (broker_of f)) = store (broker_of f)"
    by (simp add: drop_client_def flip: Nil(1))
  moreover have "sstep Ps P J E c (Task i) f
      (set_branch i ((broker_of f)\<lparr>tasks := (tasks (broker_of f))(i := None)\<rparr>) None (holder f) f)"
    unfolding set_branch_eqs(1) [symmetric] using Nil by (intro sstep.ends) auto
  ultimately show ?case by (intro r_into_rtranclp) (simp del: fun_upd_apply)
next
  case (Cons e rest)
  obtain k rx where e: "e = (k, rx)" by (metis surj_pair)
  let ?s = "\<lparr>client = (t_client t)\<lparr>receivers := bt_del k (receivers (t_client t))\<rparr>,
    shared = (store (broker_of f))\<lparr>chans := b_drop_rx (bc (Ps i)) rx (chans (store (broker_of f)))\<rparr>, iolog = t_iolog t\<rparr>"
  let ?f = "set_branch i (put_task i t ?s (broker_of f)) (Some (Return r)) (holder f) f"
  let ?t = "t\<lparr>t_client := client ?s, t_iolog := iolog ?s\<rparr>"
  have it: "bt_iter (receivers (t_client t)) = (k, rx) # rest" using Cons.hyps(2) e by simp
  then have del: "rest = bt_iter (receivers (t_client ?t))" by (simp add: bt_iter_def)
  have t: "tasks (broker_of ?f) i = Some ?t" by (simp add: put_task_def)
  have "sstep Ps P J E c (Task i) f ?f"
    unfolding set_branch_eqs(4) [OF Cons.prems(2), symmetric] using Cons.prems it by (intro sstep.unwinds)
  moreover have "(broker_of ?f)\<lparr>store := drop_client (bc (Ps i)) (t_client ?t) (store (broker_of ?f)),
        tasks := (tasks (broker_of ?f))(i := None)\<rparr> =
      (broker_of f)\<lparr>store := drop_client (bc (Ps i)) (t_client t) (store (broker_of f)),
        tasks := (tasks (broker_of f))(i := None)\<rparr>"
    using it del by (simp add: drop_client_def put_task_def)
  moreover have "pending ?f i = Some (Return r)" by simp
  note Cons.hyps(1) [OF del t this Cons.prems(3)]
  ultimately show ?case by (simp only: set_branch_simps converse_rtranclp_into_rtranclp)
qed

lemma end_alone:
  assumes "tasks (broker_of f) i = Some t" "pending f i = Some (Return r)"
  shows "(sstep Ps P J E c (Task i))\<^sup>*\<^sup>* f (set_branch i (end_branch (bc (Ps i)) i t r (broker_of f)) None (holder f) f)"
proof (cases "r = Ok ()")
  case True
  then have "sstep Ps P J E c (Task i) f (set_branch i (broker_of f) None (holder f) f)"
    unfolding set_branch_eqs(3) [symmetric] using assms(2) by (intro sstep.goes_on) simp
  with True show ?thesis by (simp add: end_branch_def r_into_rtranclp)
next
  case False
  with unwind_alone [OF assms] show ?thesis by (cases r) (simp_all add: end_branch_def)
qed

text \<open>Steps of any connections, while nobody else holds the mutex.\<close>

definition solo_step ::
    "(nat \<Rightarrow> ('w, 'tx, 'rx, 'will) platform) \<Rightarrow> ('w, 'tx, 'rx, 'will) platform \<Rightarrow> 'v json_lib \<Rightarrow> redis_env \<Rightarrow>
     redis_client \<Rightarrow> ('w, 'tx, 'rx, 'will) sched \<Rightarrow> ('w, 'tx, 'rx, 'will) sched \<Rightarrow> bool" where
  "solo_step Ps P J E c f f' \<longleftrightarrow> (\<exists>i. sstep Ps P J E c (Task i) f f' \<and> (holder f = None \<or> holder f = Some i))"

lemma solo_steps:
  assumes "(sstep Ps P J E c (Task i))\<^sup>*\<^sup>* f f'" "holder f = None \<or> holder f = Some i"
  shows "(solo_step Ps P J E c)\<^sup>*\<^sup>* f f' \<and> (holder f' = None \<or> holder f' = Some i)"
  using assms(1)
proof (induction rule: rtranclp_induct)
  case (step y z)
  have "holder z = None \<or> holder z = Some i" using step(2) step.IH by (cases rule: sstep_task) auto
  moreover have "solo_step Ps P J E c y z" using step(2) step.IH by (auto simp: solo_step_def)
  ultimately show ?case using step.IH by auto
qed (simp add: assms(2))

lemma solo_steps_any: "(solo_step Ps P J E c)\<^sup>*\<^sup>* f f' \<Longrightarrow> (any_step Ps P J E c)\<^sup>*\<^sup>* f f'"
  by (rule rtranclp_mono [THEN predicate2D]) (auto simp: any_step_def solo_step_def)

text \<open>A begun branch run to its end.\<close>

lemma complete_alone:
  assumes t: "tasks (broker_of f) i = Some t" and p: "pending f i = Some p"
    and m: "safe V p (holder f = Some i) (task_conn (broker_of f) t)" and h: "holder f = None \<or> holder f = Some i"
    and run: "run_prog p (task_conn (broker_of f) t) = (r, s)"
  shows "(sstep Ps P J E c (Task i))\<^sup>*\<^sup>* f
    (set_branch i (end_branch (bc (Ps i)) i (t\<lparr>t_client := client s, t_iolog := iolog s\<rparr>) r (put_task i t s (broker_of f)))
       None None f)"
proof -
  let ?f = "set_branch i (put_task i t s (broker_of f)) (Some (Return r)) None f"
  have "tasks (broker_of ?f) i = Some (t\<lparr>t_client := client s, t_iolog := iolog s\<rparr>)" "pending ?f i = Some (Return r)"
    by (simp_all add: put_task_def)
  from rtranclp_trans [OF run_alone [OF t p m h run] end_alone [OF this]]
  show ?thesis by (simp only: set_branch_simps)
qed

section \<open>What the others do between two steps of a connection\<close>

context broadcast_channel
begin

text \<open>While one connection holds the mutex, a step of anybody else is quiet.\<close>

lemma other_step_quiet:
  fixes f :: "('w, 'tx, 'rx, 'will) sched"
  assumes step: "sstep Ps P J E c a f f'" and a: "a \<noteq> Task i" and inv: "sched_inv V f" and h: "holder f = Some i"
    and bcs: "bc P = B" "\<And>i. bc (Ps i) = B"
  shows "holder f' = Some i \<and> quiet V (store (broker_of f)) (store (broker_of f'))"
proof -
  note I = sched_invD [OF inv]
  have no: "\<not> safe V p True s" if "p = Return r" for p r and s :: "('w, 'tx, 'rx, 'will) conn"
    using that conn.now(1) by blast
  from step show ?thesis
  proof cases
    case (steps j t g u k)
    then have "j \<noteq> i" using a by simp
    then show ?thesis
      using steps conn.now(2) [OF I(2) [OF steps(4,3)]] task_conn_inv [OF I(1) steps(3)] h
      by (simp add: conn_guar_def task_conn_def put_task_def)
  next
    case (unlocks j p)
    obtain t where "tasks (broker_of f) j = Some t" using I(3) [OF unlocks(3)] by blast
    from conn.now(4) [OF I(2) [OF unlocks(3) this]] show ?thesis using unlocks a h by simp
  next
    case (unwinds j t r k rx rest)
    then show ?thesis
      using unwind_guar [OF I(1) unwinds(3,6), of False] task_conn_inv [OF I(1) unwinds(3)] h bcs
      by (simp add: conn_guar_def task_conn_def put_task_def)
  next
    case (accepts b)
    then show ?thesis using accept_step_tasks(1) [OF accepts(3) I(1)] h by simp
  next
    case (redis ev b)
    then show ?thesis using redis_step_lock [OF redis(3)] h by simp
  qed (use h in auto)
qed

text \<open>A step of anybody else leaves a connection its fields, and its receivers their queues, at most added to.\<close>

lemma other_step_feeds:
  fixes f :: "('w, 'tx, 'rx, 'will) sched"
  assumes step: "sstep Ps P J E c a f f'" and a: "a \<noteq> Task j" and inv: "sched_inv V f"
    and u: "tasks (broker_of f) j = Some u" and rx: "rx \<in> owned (t_client u)"
    and bcs: "bc P = B" "\<And>i. bc (Ps i) = B"
  shows "tasks (broker_of f') j = Some u \<and> fed V 1024 (chans (store (broker_of f))) (chans (store (broker_of f'))) rx"
proof -
  note I = sched_invD [OF inv]
  have feeds: "fed V 1024 (chans (store (broker_of f))) (chans (shared s)) rx"
    if "tasks (broker_of f) i = Some t" "i \<noteq> j" "conn_guar V h (task_conn (broker_of f) t) s" for i t s h
    using task_feeds_others [OF I(1) that(1) _ u _ rx] that(2,3) by (auto simp: conn_guar_def)
  from step show ?thesis
  proof cases
    case (steps i t g v k)
    then show ?thesis
      using conn.now(2) [OF I(2) [OF steps(4,3)]] feeds [OF steps(3)] a u by (auto simp: put_task_def)
  next
    case (unwinds i t r k rx' rest)
    then show ?thesis
      using feeds [OF unwinds(3) _ unwind_guar [OF I(1) unwinds(3,6)]] a u bcs by (auto simp: put_task_def)
  next
    case (accepts b)
    then show ?thesis using accept_step_tasks [OF accepts(3) I(1)] u by simp
  next
    case (redis ev b)
    have "rx \<in> rxs V (chans (store (broker_of f)))"
      using owned_live [OF broker_invD(2) [OF I(1) u] broker_invD(1) [OF I(1)]] rx by blast
    with redis_step_kept [OF redis(3) I(1) bcs(1)] redis(2) u show ?thesis by (simp add: others_kept_def)
  qed (use a u in auto)
qed

lemma steps_without_inv:
  fixes f :: "('w, 'tx, 'rx, 'will) sched"
  assumes "(\<lambda>f f'. \<exists>a. a \<noteq> Task i \<and> sstep Ps P J E c a f f')\<^sup>*\<^sup>* f f'" "sched_inv V f"
    "bc P = B" "\<And>i. bc (Ps i) = B"
  shows "sched_inv V f'"
proof -
  have "(any_step Ps P J E c)\<^sup>*\<^sup>* f f'"
    using assms(1) by (rule rtranclp_mono [THEN predicate2D, rotated]) (auto simp: any_step_def)
  then show ?thesis using assms(2-4) by (rule reachable_sched_inv)
qed

text \<open>All begun branches can be run to their ends, the one that holds the mutex first.\<close>

lemma quiesces:
  fixes f :: "('w, 'tx, 'rx, 'will) sched"
  assumes "sched_inv V f" and bcs: "bc P = B" "\<And>i. bc (Ps i) = B"
  shows "\<exists>b. (solo_step Ps P J E c)\<^sup>*\<^sup>* f (idle b)"
  using assms(1)
proof (induction "card (dom (pending f))" arbitrary: f rule: less_induct)
  case less
  note I = sched_invD [OF less.prems]
  have fin: "finite (dom (pending f))"
  proof (rule finite_subset)
    show "dom (pending f) \<subseteq> {..<next_task (broker_of f)}" using I(3) broker_invD(3) [OF I(1)] by blast
  qed simp
  show ?case
  proof (cases "dom (pending f) = {}")
    case True
    then have "pending f = (\<lambda>_. None)" "holder f = None" using I(4) by (auto, cases "holder f", auto)
    then have "f = idle (broker_of f)" by (cases f) (simp add: idle_def)
    then show ?thesis by (metis rtranclp.rtrancl_refl)
  next
    case False
    then obtain i0 where "pending f i0 \<noteq> None" by blast
    then obtain i p where p: "pending f i = Some p" and h: "holder f = None \<or> holder f = Some i"
      using I(4) by (metis not_None_eq)
    obtain t where t: "tasks (broker_of f) i = Some t" using I(3) [OF p] by blast
    obtain r s where run: "run_prog p (task_conn (broker_of f) t) = (r, s)" by (metis surj_pair)
    from complete_alone [OF t p I(2) [OF p t] h run, where Ps = Ps and P = P and J = J and E = E and c = c]
    obtain b where steps: "(solo_step Ps P J E c)\<^sup>*\<^sup>* f (set_branch i b None None f)" using solo_steps h by blast
    have "sched_inv V (set_branch i b None None f)" by (rule reachable_sched_inv [OF solo_steps_any [OF steps] less.prems bcs])
    moreover have "card (dom (pending (set_branch i b None None f))) < card (dom (pending f))"
      using card_Diff1_less [OF fin, of i] p by (simp add: domIff)
    ultimately show ?thesis using less.hyps steps by (meson rtranclp_trans)
  qed
qed

text \<open>A branch of theory \<open>Broker\<close> is the sequence of its atomic steps.\<close>

lemma branch_simulated:
  fixes b :: "('w, 'tx, 'rx, 'will) broker"
  assumes inv: "broker_inv V b" and t: "tasks b i = Some t" and en: "enabled (Ps i) (task_conn b t) ev"
    and bcs: "bc P = B" "\<And>i. bc (Ps i) = B"
  shows "(sstep Ps P J E c (Task i))\<^sup>*\<^sup>* (idle b) (idle (run_task (Ps i) i ev b))"
proof -
  let ?f = "set_branch i b (Some (serve_prog (Ps i) (t_addr t) ev)) None (idle b)"
  obtain r s where run: "serve (Ps i) (t_addr t) ev (task_conn b t) = (r, s)" by (metis surj_pair)
  have "sstep Ps P J E c (Task i) (idle b) ?f"
    using sstep.begins [of "idle b" i t Ps ev] t en by (simp add: set_branch_def idle_def)
  moreover have "(sstep Ps P J E c (Task i))\<^sup>*\<^sup>* ?f
      (set_branch i (end_branch (bc (Ps i)) i (t\<lparr>t_client := client s, t_iolog := iolog s\<rparr>) r (put_task i t s (broker_of ?f)))
        None None ?f)"
    using t run meets_serve [OF task_conn_inv [OF inv t] bcs(2)] unfolding run_serve [symmetric]
    by (intro complete_alone) simp_all
  moreover have "end_branch (bc (Ps i)) i (t\<lparr>t_client := client s, t_iolog := iolog s\<rparr>) r (put_task i t s b) =
      run_task (Ps i) i ev b"
    using t run by (cases r) (simp_all add: run_task_def end_branch_def put_task_def task_conn_def)
  moreover have "set_branch i b' None None ?f = idle b'" for b'
    by (simp add: set_branch_def idle_def)
  ultimately show ?thesis by (simp only: set_branch_simps converse_rtranclp_into_rtranclp)
qed

end

section \<open>Properties\<close>

text \<open>A run of two clients for the witnesses: client 0 publishes to the topic client 1 is subscribed to.\<close>

abbreviation demo_step :: "(rworld, nat, nat, publish_packet) sched \<Rightarrow> (rworld, nat, nat, publish_packet) sched \<Rightarrow> bool" where
  "demo_step \<equiv> any_step (\<lambda>_. demo_platform default_features) (demo_platform default_features) ref_json ref_redis (demo_broker ''A'')"

abbreviation demo_sstep ::
    "actor \<Rightarrow> (rworld, nat, nat, publish_packet) sched \<Rightarrow> (rworld, nat, nat, publish_packet) sched \<Rightarrow> bool" where
  "demo_sstep \<equiv> sstep (\<lambda>_. demo_platform default_features) (demo_platform default_features) ref_json ref_redis (demo_broker ''A'')"

definition demo_begun :: "(rworld, nat, nat, publish_packet) sched" where
  "demo_begun = (idle demo_system)\<lparr>pending := [0 \<mapsto> serve_prog (demo_platform default_features) ''p0'' (ReadBytes [0x30])]\<rparr>"

lemma demo_begins: "demo_sstep (Task 0) (idle demo_system) demo_begun"
  using sstep.begins [of "idle demo_system" 0 "\<lparr>t_addr = ''p0'', t_client = client demo_conn, t_iolog = []\<rparr>"
      "\<lambda>_. demo_platform default_features" "ReadBytes [0x30]" "demo_platform default_features" ref_json ref_redis
      "demo_broker ''A''"]
  by (simp add: demo_begun_def idle_def demo_system_def enabled_def)

lemma demo_first: "\<exists>p. serve_prog (demo_platform default_features) ''p0'' (ReadBytes [0x30]) = Lock p"
  by (simp add: serve_prog_def demo_delay on_read_prog_def fill_buffer_def demo_lib_def dispatch_prog_def publish_prog_def
      match_prog_def bind_prog_def locked_def)

lemma demo_locks: "\<exists>f. demo_step\<^sup>*\<^sup>* (idle demo_system) f \<and> holder f = Some 0 \<and> broker_of f = demo_system"
proof -
  obtain p where p: "pending demo_begun 0 = Some (Lock p)" using demo_first by (auto simp: demo_begun_def)
  have "holder demo_begun = None" by (simp add: demo_begun_def idle_def)
  with p have "demo_sstep (Task 0) demo_begun (demo_begun\<lparr>pending := (pending demo_begun)(0 \<mapsto> p), holder := Some 0\<rparr>)"
    by (rule sstep.locks)
  with demo_begins have "demo_step\<^sup>*\<^sup>* (idle demo_system) (demo_begun\<lparr>pending := (pending demo_begun)(0 \<mapsto> p), holder := Some 0\<rparr>)"
    by (meson any_step_def converse_rtranclp_into_rtranclp r_into_rtranclp)
  then show ?thesis by (intro exI conjI) (auto simp: demo_begun_def idle_def)
qed

text \<open>
  C1. Under every interleaving: after \<open>main\<close> has started the broker, in every state reached by steps of any
  connections, the accept loop and the Redis task in any order, switching between any two
  atomic steps, the topic store is consistent, every client is subscribed to the topics it holds
  receivers for, no receiver belongs to two clients; only connected clients are inside a branch, and
  whoever holds the mutex is.
\<close>

theorem interleaved_broker_consistent:
  assumes "broadcast_channel (bc P) V" "\<And>i. bc (Ps i) = bc P" "publish_builder (build_publish (mqtt P))" "ok V w"
    and "SETTINGS dbg C = Ok cfg" "main_start dbg C directive_from_str P J E be rng w l = Some (Ok x, rs)"
    and "(any_step Ps (P\<lparr>settings := cfg\<rparr>) J E c)\<^sup>*\<^sup>* (idle (broker_start rs)) f"
  shows "broker_inv V (broker_of f) \<and> dom (pending f) \<subseteq> dom (tasks (broker_of f)) \<and>
    (\<forall>i. holder f = Some i \<longrightarrow> i \<in> dom (pending f))"
proof -
  have "shared_inv V (rs_shared rs)"
    using broadcast_channel.main_start_inv [OF assms(1,3) refl assms(4,6)] .
  then have "sched_inv V (idle (broker_start rs))"
    by (intro sched_inv_idle) (simp add: broker_inv_def broker_start_def)
  from broadcast_channel.reachable_sched_inv [OF assms(1,7) this _ assms(2)] show ?thesis
    by (auto dest: sched_invD)
qed

theorem interleaved_broker_consistent_witness:
  "broker_inv rw_view ((broker_start \<lparr>rs_shared = topics_default rw_init, rlog = []\<rparr> ::
     (rworld, nat, nat, publish_packet) broker)\<lparr>handshake := Some ''peer''\<rparr>)"
proof -
  let ?P = "demo_platform default_features"
  let ?b = "broker_start \<lparr>rs_shared = topics_default rw_init, rlog = []\<rparr> :: (rworld, nat, nat, publish_packet) broker"
  let ?step = "any_step (\<lambda>_. ?P) ?P ref_json ref_redis (demo_broker ''A'')"
  have "handshake ?b = None" by (simp add: broker_start_def)
  then have "accept_step ?P ?b (?b\<lparr>handshake := Some ''peer''\<rparr>)"
    by (rule accept_step.accept_tls [where li = TcpListener]) (simp_all add: accepts_from_def default_features_def)
  then have "?step (idle ?b) ((idle ?b)\<lparr>broker_of := ?b\<lparr>handshake := Some ''peer''\<rparr>\<rparr>)"
    unfolding any_step_def by (intro exI [of _ Acceptor] sstep.accepts) (simp add: idle_def)
  then have "?step\<^sup>*\<^sup>* (idle ?b) ((idle ?b)\<lparr>broker_of := ?b\<lparr>handshake := Some ''peer''\<rparr>\<rparr>)" by (rule r_into_rtranclp)
  moreover have "?P\<lparr>settings := demo_settings\<rparr> = ?P" by (simp add: demo_platform_def)
  ultimately have "(any_step (\<lambda>_. ?P) (?P\<lparr>settings := demo_settings\<rparr>) ref_json ref_redis (demo_broker ''A''))\<^sup>*\<^sup>* (idle ?b)
      ((idle ?b)\<lparr>broker_of := ?b\<lparr>handshake := Some ''peer''\<rparr>\<rparr>)"
    by (simp only:)
  from interleaved_broker_consistent [OF demo_bc _ demo_builder rw_ok_init demo_main_start(1,2) this] show ?thesis by simp
qed

text \<open>
  C7. No deadlock: whatever state the connections have got into, all branches that have begun can be
  run to their ends, in finitely many steps and without any further event, so that the mutex is free
  and every connection is back at its \<open>select!\<close> or gone. In particular a branch waits for nothing but the
  mutex (a receiver that was reported ready still is when it is read), and whoever holds the mutex
  releases it, also after an error or a panic.
\<close>

theorem branches_complete:
  assumes "broadcast_channel (bc P) V" "\<And>i. bc (Ps i) = bc P" "broker_inv V b"
    and "(any_step Ps P J E c)\<^sup>*\<^sup>* (idle b) f"
  shows "\<exists>b'. (any_step Ps P J E c)\<^sup>*\<^sup>* f (idle b')"
proof -
  have "sched_inv V f" by (rule broadcast_channel.reachable_sched_inv [OF assms(1,4) sched_inv_idle [OF assms(3)] refl assms(2)])
  then have "\<exists>b. (solo_step Ps P J E c)\<^sup>*\<^sup>* f (idle b)"
    by (rule broadcast_channel.quiesces [OF assms(1) _ refl]) (rule assms(2))
  then show ?thesis using solo_steps_any by blast
qed

theorem branches_complete_witness: "\<exists>b'. demo_step\<^sup>*\<^sup>* demo_begun (idle b')"
proof -
  have "demo_step\<^sup>*\<^sup>* (idle demo_system) demo_begun"
    using demo_begins by (intro r_into_rtranclp) (auto simp: any_step_def)
  from branches_complete [OF demo_bc refl demo_system_inv this] show ?thesis .
qed

text \<open>
  C6. What the mutex excludes: while connection \<open>i\<close> holds it and does not step, the mutex stays with it, and
  nobody else, no other client and not the Redis task, subscribes, publishes or changes the topic map:
  every receiver existed before, and has at most read from its queue. A client that is sent a
  retained message while the mutex is held therefore stops all others for as long as that write takes.
\<close>

theorem holder_excludes_others:
  assumes B: "broadcast_channel (bc P) V" and bcs: "\<And>i. bc (Ps i) = bc P" and b: "broker_inv V b"
    and reach: "(any_step Ps P J E c)\<^sup>*\<^sup>* (idle b) f" and h: "holder f = Some i"
    and steps: "(\<lambda>f f'. \<exists>a. a \<noteq> Task i \<and> sstep Ps P J E c a f f')\<^sup>*\<^sup>* f f'"
  shows "holder f' = Some i \<and> quiet V (store (broker_of f)) (store (broker_of f'))"
  using steps
proof (induction rule: rtranclp_induct)
  case (step y z)
  have "sched_inv V f"
    using broadcast_channel.reachable_sched_inv [OF B reach sched_inv_idle [OF b] refl bcs] .
  then have "sched_inv V y" by (rule broadcast_channel.steps_without_inv [OF B step(1) _ refl bcs])
  moreover obtain a where a: "a \<noteq> Task i" "sstep Ps P J E c a y z" using step(2) by blast
  ultimately have "holder z = Some i \<and> quiet V (store (broker_of y)) (store (broker_of z))"
    using step.IH by (intro broadcast_channel.other_step_quiet [OF B a(2,1) _ _ refl bcs]) auto
  then show ?case using step.IH by (blast intro: quiet_trans)
qed (simp add: h)

theorem holder_excludes_others_witness:
  "\<exists>f f'. demo_step\<^sup>*\<^sup>* (idle demo_system) f \<and> holder f = Some 0 \<and> demo_sstep Acceptor f f' \<and>
     handshake (broker_of f') = Some ''p2'' \<and> holder f' = Some 0 \<and> quiet rw_view demo_store (store (broker_of f'))"
proof -
  let ?P = "demo_platform default_features"
  obtain f where f: "demo_step\<^sup>*\<^sup>* (idle demo_system) f" "holder f = Some 0" "broker_of f = demo_system"
    using demo_locks by blast
  have "accept_step ?P demo_system (demo_system\<lparr>handshake := Some ''p2''\<rparr>)"
    by (rule accept_step.accept_tls [where li = TcpListener])
      (simp_all add: demo_system_def accepts_from_def default_features_def)
  then have acc: "demo_sstep Acceptor f (f\<lparr>broker_of := demo_system\<lparr>handshake := Some ''p2''\<rparr>\<rparr>)"
    using f(3) by (intro sstep.accepts) simp
  then have "(\<lambda>f f'. \<exists>a. a \<noteq> Task 0 \<and> demo_sstep a f f')\<^sup>*\<^sup>* f (f\<lparr>broker_of := demo_system\<lparr>handshake := Some ''p2''\<rparr>\<rparr>)"
    by (intro r_into_rtranclp exI [of _ Acceptor]) simp
  from holder_excludes_others [OF demo_bc refl demo_system_inv f(1,2) this] f acc show ?thesis
    by (intro exI [of _ f] exI [of _ "f\<lparr>broker_of := demo_system\<lparr>handshake := Some ''p2''\<rparr>\<rparr>"]) (simp add: demo_system_def)
qed

text \<open>
  C13. What a client has not read yet is not touched by others: as long as connection \<open>j\<close> does not step,
  whatever everybody else does in between, it stays connected with the same receivers, and the queue of
  each is what it was, with new messages at the end; messages are overwritten, from the front and
  counted as missed, only when more than 1024 would be unread.
\<close>

theorem queue_only_fed_by_others:
  assumes B: "broadcast_channel (bc P) V" and bcs: "\<And>i. bc (Ps i) = bc P" and b: "broker_inv V b"
    and reach: "(any_step Ps P J E c)\<^sup>*\<^sup>* (idle b) f"
    and u: "tasks (broker_of f) j = Some u" and rx: "bt_get k (receivers (t_client u)) = Some rx"
    and steps: "(\<lambda>f f'. \<exists>a. a \<noteq> Task j \<and> sstep Ps P J E c a f f')\<^sup>*\<^sup>* f f'"
  shows "tasks (broker_of f') j = Some u \<and>
    fed V 1024 (chans (store (broker_of f))) (chans (store (broker_of f'))) rx"
  using steps
proof (induction rule: rtranclp_induct)
  case (step y z)
  have own: "rx \<in> owned (t_client u)" using rx by (auto simp: owned_def)
  have "sched_inv V f"
    using broadcast_channel.reachable_sched_inv [OF B reach sched_inv_idle [OF b] refl bcs] .
  then have "sched_inv V y" by (rule broadcast_channel.steps_without_inv [OF B step(1) _ refl bcs])
  moreover obtain a where a: "a \<noteq> Task j" "sstep Ps P J E c a y z" using step(2) by blast
  ultimately have "tasks (broker_of z) j = Some u \<and> fed V 1024 (chans (store (broker_of y))) (chans (store (broker_of z))) rx"
    using step.IH by (intro broadcast_channel.other_step_feeds [OF B a(2,1) _ _ own refl bcs]) auto
  then show ?case using step.IH by (blast intro: fed_trans)
qed (simp add: u)

theorem queue_only_fed_by_others_witness:
  "tasks (broker_of demo_begun) 1 = tasks demo_system 1 \<and>
   fed rw_view 1024 (chans demo_store) (chans (store (broker_of demo_begun))) 0"
proof -
  let ?u = "\<lparr>t_addr = ''p1'', t_client = client demo_sub, t_iolog = []\<rparr> :: (nat, publish_packet) task"
  have u: "tasks (broker_of (idle demo_system)) 1 = Some ?u" by (simp add: idle_def demo_system_def)
  have rx: "bt_get ''a'' (receivers (t_client ?u)) = Some 0" by (simp add: demo_sub_def)
  have "(\<lambda>f f'. \<exists>a. a \<noteq> Task 1 \<and> demo_sstep a f f')\<^sup>*\<^sup>* (idle demo_system) demo_begun"
    using demo_begins by (intro r_into_rtranclp exI [of _ "Task 0"]) simp
  from queue_only_fed_by_others [OF demo_bc refl demo_system_inv rtranclp.rtrancl_refl u rx this] show ?thesis
    by (simp add: idle_def demo_system_def)
qed

text \<open>
  C12. The steps of theory \<open>Broker\<close>, in which a branch runs at once, are executions of the interleaved
  system: every sequence of them is simulated by atomic steps that begin and end with every connection at its
  \<open>select!\<close> and the mutex free.
\<close>

theorem broker_steps_refined:
  assumes B: "broadcast_channel (bc P) V" and bcs: "\<And>i. bc (Ps i) = bc P" and b: "broker_inv V b"
    and steps: "(bstep Ps P J E c)\<^sup>*\<^sup>* b b'"
  shows "(any_step Ps P J E c)\<^sup>*\<^sup>* (idle b) (idle b')"
  using steps
proof (induction rule: rtranclp_induct)
  case (step y z)
  have inv: "broker_inv V y" by (rule broadcast_channel.reachable_inv [OF B step(1) b refl bcs])
  have upd: "(idle y)\<lparr>broker_of := z\<rparr> = idle z" by (simp add: idle_def)
  have "(any_step Ps P J E c)\<^sup>*\<^sup>* (idle y) (idle z)"
    using step(2)
  proof cases
    case accept
    then have "sstep Ps P J E c Acceptor (idle y) ((idle y)\<lparr>broker_of := z\<rparr>)"
      by (intro sstep.accepts) (simp add: idle_def)
    then show ?thesis unfolding upd by (intro r_into_rtranclp) (auto simp: any_step_def)
  next
    case (connection i t ev)
    then show ?thesis
      using solo_steps_any [OF solo_steps [OF broadcast_channel.branch_simulated [OF B inv connection(2) _ refl bcs], THEN conjunct1]]
      by (simp add: task_conn_def idle_def)
  next
    case (redis ev)
    then have "sstep Ps P J E c RedisTask (idle y) ((idle y)\<lparr>broker_of := z\<rparr>)"
      by (intro sstep.redis) (simp_all add: idle_def)
    then show ?thesis unfolding upd by (intro r_into_rtranclp) (auto simp: any_step_def)
  qed
  with step.IH show ?case by (rule rtranclp_trans)
qed simp

theorem broker_steps_refined_witness:
  "demo_step\<^sup>*\<^sup>* (idle demo_system)
     (idle (run_task (demo_platform default_features) 0 (ReadBytes [0x30]) demo_system))"
proof -
  let ?P = "demo_platform default_features"
  have "tasks demo_system 0 = Some \<lparr>t_addr = ''p0'', t_client = client demo_conn, t_iolog = []\<rparr>"
    by (simp add: demo_system_def)
  then have "bstep (\<lambda>_. ?P) ?P ref_json ref_redis (demo_broker ''A'') demo_system
      (run_task ?P 0 (ReadBytes [0x30]) demo_system)"
    by (rule bstep.connection) (simp add: enabled_def)
  then have "(bstep (\<lambda>_. ?P) ?P ref_json ref_redis (demo_broker ''A''))\<^sup>*\<^sup>* demo_system
      (run_task ?P 0 (ReadBytes [0x30]) demo_system)"
    by (rule r_into_rtranclp)
  from broker_steps_refined [OF demo_bc refl demo_system_inv this] show ?thesis .
qed

end
