(* ===== verification/Outgoing.thy ===== *)
theory Outgoing
  imports Interleaving
begin

text \<open>
  What a connection says to the outside: the entries that the steps of \<open>src/src/tcp_handling.rs\<close> add to the
  log of calls. The stream is written only with packets that a server may send, and Redis and BigQuery are used only
  by a broker that is built with them. The facts are proved once for the programs of theory \<open>Interleaving\<close>, step
  by step; running a program alone gives them for the handlers.
\<close>

section \<open>Calls that are in order\<close>

fun server_packet :: "'will packet \<Rightarrow> bool" where
  "server_packet (ConnectAck _) = True"
| "server_packet (PublishP _) = True"
| "server_packet (PublishAck _) = True"
| "server_packet (SubscribeAck _) = True"
| "server_packet (UnsubscribeAck _) = True"
| "server_packet PingResponse = True"
| "server_packet _ = False"

fun proper_call :: "('w, 'tx, 'rx, 'will) platform \<Rightarrow> io_call \<Rightarrow> bool" where
  "proper_call P (WriteAll b r) \<longleftrightarrow> (\<exists>p. server_packet p \<and> b = encode_mqtt (mqtt P) p V500)"
| "proper_call P (Shutdown r) \<longleftrightarrow> True"
| "proper_call P (MpscSend ch p a) \<longleftrightarrow> feat_redis (feat P) \<and> (\<exists>l. a = env_mpsc_send (env P) l ch p)"
| "proper_call P (BqKeyFile f r) \<longleftrightarrow> feat_bq_logging (feat P)"
| "proper_call P (BqInsertAll p d t e r) \<longleftrightarrow> feat_bq_logging (feat P)"

text \<open>One atomic step: a log that is only added to, by calls that are in order, one of which at most is to Redis.\<close>

definition utters :: "('w, 'tx, 'rx, 'will) platform \<Rightarrow> ('w, 'tx, 'rx, 'will) conn \<Rightarrow> ('w, 'tx, 'rx, 'will) conn \<Rightarrow> bool" where
  "utters P s s' \<longleftrightarrow> (\<exists>l. iolog s' = iolog s @ l \<and> list_all (proper_call P) l \<and> length (redis_sends l) \<le> 1)"

text \<open>Any number of steps.\<close>

definition speaks :: "('w, 'tx, 'rx, 'will) platform \<Rightarrow> ('w, 'tx, 'rx, 'will) conn \<Rightarrow> ('w, 'tx, 'rx, 'will) conn \<Rightarrow> bool" where
  "speaks P s s' \<longleftrightarrow> (\<exists>l. iolog s' = iolog s @ l \<and> list_all (proper_call P) l)"

interpretation speaks: io_preorder "speaks P" for P :: "('w, 'tx, 'rx, 'will) platform"
proof
  fix s t u :: "('w, 'tx, 'rx, 'will) conn"
  show "speaks P s s" by (simp add: speaks_def)
  show "speaks P s t \<Longrightarrow> speaks P t u \<Longrightarrow> speaks P s u" by (auto simp: speaks_def)
qed

lemma utters_silent: "iolog s' = iolog s \<Longrightarrow> utters P s s'"
  by (simp add: utters_def)

named_theorems utterances

lemma utters_write [utterances]: "server_packet p \<Longrightarrow> tracks (utters P) (write_to_stream P p)"
  by (rule tracksI) (auto simp: utters_def write_to_stream_def Let_def split: option.splits)

lemma utters_shutdown [utterances]: "tracks (utters P) (shutdown_stream P)"
  by (rule tracksI) (simp add: utters_def shutdown_stream_def Let_def split: option.splits)

lemma utters_send [utterances]: "feat_redis (feat P) \<Longrightarrow> tracks (utters P) (send_to_redis P p)"
  by (rule tracksI) (auto simp: utters_def send_to_redis_def Let_def)

lemma log_in_bq_calls:
  "feat_bq_logging (feat P) \<Longrightarrow>
    \<exists>l'. snd (log_in_bq E config topic message l) = l @ l' \<and> list_all (proper_call P) l' \<and> redis_sends l' = []"
  by (simp add: log_in_bq_def Let_def split: option.splits)

lemma utters_log [utterances]:
  assumes "feat_bq_logging (feat P)"
  shows "tracks (utters P) (log_publish P p)"
proof (rule tracksI)
  fix s
  have "utters P s (snd (on_iolog (log_in_bq (env P) config topic message) s))" for config topic message
    using log_in_bq_calls [OF assms, of "env P" config topic message "iolog s"]
    by (auto simp: on_iolog_def zoom_io_def utters_def split: prod.split)
  then show "utters P s (snd (log_publish P p s))"
    by (simp add: log_publish_def utters_silent split: option.split)
qed

text \<open>Methods that do not touch the log.\<close>

lemma silent [utterances]:
  "tracks (utters P) (on_shared m)" "tracks (utters P) (update_client f)" "tracks (utters P) (get_io g)"
  "tracks (utters P) (recv_on P rx)" "tracks (utters P) (set_outgoing ms)" "tracks (utters P) (handle_publishack_packet a)"
  "tracks (utters P) (register_receiver P topic)"
  by (rule tracksI, rule utters_silent,
      simp add: on_shared_def zoom_io_def update_client_def recv_on_def set_outgoing_def handle_publishack_packet_def
        register_receiver_def bind_io_def insert_receiver_def Let_def split: prod.split outcome.split option.split)+

lemma utters_unsubscribe [utterances]: "tracks (utters P) (unsubscribe_loop P [t] codes)"
  by (rule tracksI, rule utters_silent) (cases t; simp split: prod.split option.split)

section \<open>Every step of every branch\<close>

lemmas steps_rules = all_steps_rules all_steps_bind all_steps_match utterances

lemma utters_publish: "all_steps (utters P) (publish_prog P p)"
  unfolding publish_prog_def by (intro steps_rules) (auto intro!: steps_rules split: qos.split option.split)

lemma utters_publish_will: "all_steps (utters P) (publish_will_prog P)"
  unfolding publish_will_prog_def by (auto intro!: steps_rules utters_publish split: option.split)

lemma utters_subscribe: "all_steps (utters P) (subscribe_prog P ts codes)"
  by (induction ts arbitrary: codes)
    (auto simp: subscribe_concrete_prog_def intro!: steps_rules split: topic_filter.split option.split)

lemma utters_unsubscribe_prog: "all_steps (utters P) (unsubscribe_prog P ts codes)"
  by (induction ts arbitrary: codes) (auto intro!: steps_rules)

lemma utters_retry: "all_steps (utters P) (retry_prog P visited ms)"
  by (induction ms arbitrary: visited) (auto simp: Let_def intro!: steps_rules split: option.split)

lemma utters_dispatch: "all_steps (utters P) (dispatch_prog P peer packet)"
  unfolding dispatch_prog_def connect_prog_def handle_pingreq_packet_def
  by (auto intro!: steps_rules utters_publish utters_publish_will utters_subscribe utters_unsubscribe_prog
      split: option.split packet.split)

lemma utters_receiver_ready: "all_steps (utters P) (on_receiver_ready_prog P)"
  unfolding on_receiver_ready_prog_def recv_forward_prog_def forward_prog_def
  by (auto intro!: steps_rules all_steps_await split: option.split prod.split recv_result.split message.split)

lemma utters_serve: "all_steps (utters P) (serve_prog P addr ev)"
proof -
  have "all_steps (utters P) (on_read_prog P addr data)" for data
    unfolding on_read_prog_def by (auto intro!: steps_rules utters_dispatch split: sum.split)
  then show ?thesis
    unfolding serve_prog_def on_retry_tick_prog_def
    by (auto intro!: steps_rules utters_receiver_ready utters_publish_will utters_retry split: option.split event.split)
qed

lemma speaks_serve: "tracks (speaks P) (serve P addr ev)"
proof -
  have "all_steps (speaks P) (serve_prog P addr ev)"
    by (rule all_steps_mono [OF utters_serve]) (auto simp: utters_def speaks_def)
  from speaks.run_tracks [OF this] show ?thesis by (simp add: run_serve)
qed

section \<open>Property\<close>

text \<open>
  C17. What a connection may say: whatever a client sends and however the connection goes, the log of calls only grows;
  every write to the stream is one packet of a kind that a server may send (CONNACK, PUBLISH, PUBACK, SUBACK, UNSUBACK or
  PINGRESP), encoded for version 5; and the Redis task and BigQuery are called only in a broker built with
  these features.
\<close>

theorem connection_speaks_protocol:
  "\<exists>l. iolog (snd (handle_raw_tcp_stream P addr evs s)) = iolog s @ l \<and> list_all (proper_call P) l"
proof -
  have "tracks (speaks P) (handle_raw_tcp_stream P addr evs)"
    unfolding handle_raw_tcp_stream_def by (intro speaks.loop speaks_serve)
  then show ?thesis by (simp add: tracks_def speaks_def)
qed

end
