(* ===== verification/Channels.thy ===== *)
theory Channels
  imports Concurrency Outgoing "HOL-Library.Sublist"
begin

text \<open>
  One broker with the channels between its tasks: the bounded channel of \<open>main_loop\<close> (\<open>src/src/main.rs\<close>) from the
  connections to the Redis task, the task \<open>receive_from_redis\<close> that waits for messages on the Redis
  channel \<open>sync\<close>, and the channel from it to the Redis task. In theory \<open>Concurrency\<close> the Redis task reacts to arbitrary
  events; here its events are the heads of these channels, a connection waits when the first is
  full, and what a connection is told about a packet it sends is whether the Redis task is alive. What others publish on Redis is
  added to the subscription of the receiving task in steps of the environment (\<open>estep\<close>).
\<close>

section \<open>A broker and its channels\<close>

text \<open>
  The calls of \<open>receive_from_redis\<close> between which others run. While it is subscribed, the server adds
  messages to the subscription; the connection, and with it what was not read, is dropped at the end of a round.
\<close>

datatype receiving =
    AtConnect
  | AtSubscribe
  | Subscribed "string list"
  | Forwarding string

fun recv_call :: "redis_call \<Rightarrow> receiving \<Rightarrow> receiving option" where
  "recv_call (GetConnection None) AtConnect = Some AtSubscribe"
| "recv_call (GetConnection (Some e)) AtConnect = Some AtConnect"
| "recv_call (SubscribeTo ch None) AtSubscribe = (if ch = ''sync'' then Some (Subscribed []) else None)"
| "recv_call (SubscribeTo ch (Some e)) AtSubscribe = (if ch = ''sync'' then Some AtConnect else None)"
| "recv_call (GetMessage (Inl e)) (Subscribed ms) = Some AtConnect"
| "recv_call (GetMessage (Inr (Inl e))) (Subscribed (m # ms)) = Some AtConnect"
| "recv_call (GetMessage (Inr (Inr x))) (Subscribed (m # ms)) = (if x = m then Some (Forwarding m) else None)"
| "recv_call (Forward x a) (Forwarding m) = (if x = m then Some AtConnect else None)"
| "recv_call _ _ = None"

text \<open>
  \<open>busy\<close> is the event the Redis task has taken from its channels and not finished with: it may have to wait for a
  connection to Redis, or for the mutex. \<open>accepted\<close> and \<open>handled\<close> record what the channel to the Redis task has
  accepted, and the messages from Redis the task has finished with, since the start; no step depends on them.
\<close>

record ('w, 'tx, 'rx, 'will) node =
  sys :: "('w, 'tx, 'rx, 'will) sched"
  to_redis :: "publish_packet list"
  busy :: "redis_event option"
  receiving :: receiving
  inbox :: "string list"
  accepted :: "publish_packet list"
  handled :: "string list"

definition start_node :: "('w, 'tx, 'rx, 'will) broker \<Rightarrow> ('w, 'tx, 'rx, 'will) node" where
  "start_node b = \<lparr>sys = idle b, to_redis = [], busy = None, receiving = AtConnect, inbox = [], accepted = [], handled = []\<rparr>"

abbreviation proc :: "('w, 'tx, 'rx, 'will) node \<Rightarrow> ('w, 'tx, 'rx, 'will) broker" where
  "proc n \<equiv> broker_of (sys n)"

definition set_proc :: "('w, 'tx, 'rx, 'will) broker \<Rightarrow> ('w, 'tx, 'rx, 'will) node \<Rightarrow> ('w, 'tx, 'rx, 'will) node" where
  "set_proc b n = n\<lparr>sys := (sys n)\<lparr>broker_of := b\<rparr>\<rparr>"

text \<open>What a step of a connection sent on the channel to the Redis task, with the answers it got.\<close>

definition step_sends ::
    "actor \<Rightarrow> ('w, 'tx, 'rx, 'will) sched \<Rightarrow> ('w, 'tx, 'rx, 'will) sched \<Rightarrow> (publish_packet \<times> bool) list" where
  "step_sends a f f' =
     (case a of
        Task i \<Rightarrow>
          (case (tasks (broker_of f) i, tasks (broker_of f') i) of
             (Some t, Some t') \<Rightarrow> redis_sends (drop (length (t_iolog t)) (t_iolog t'))
           | _ \<Rightarrow> [])
      | _ \<Rightarrow> [])"

text \<open>
  Both channels have the capacity of the source. The Redis task never finds both channels closed: \<open>main_loop\<close> keeps
  a sender of the first, the receiving task, which never ends, one of the second.
\<close>

inductive nstep ::
    "(nat \<Rightarrow> ('w, 'tx, 'rx, 'will) platform) \<Rightarrow> ('w, 'tx, 'rx, 'will) platform \<Rightarrow> 'v json_lib \<Rightarrow> redis_env \<Rightarrow>
     redis_client \<Rightarrow> ('w, 'tx, 'rx, 'will) node \<Rightarrow> ('w, 'tx, 'rx, 'will) node \<Rightarrow> bool"
  for Ps P J E c where
  broker_steps: "sstep Ps P J E c a (sys n) f \<Longrightarrow> a \<noteq> RedisTask \<Longrightarrow>
    \<forall>(p, answer) \<in> set (step_sends a (sys n) f). answer = redis_alive (proc n) \<Longrightarrow>
    ps = map fst (filter snd (step_sends a (sys n) f)) \<Longrightarrow> length (to_redis n) + length ps \<le> 200 \<Longrightarrow>
    nstep Ps P J E c n (n\<lparr>sys := f, to_redis := to_redis n @ ps, accepted := accepted n @ ps\<rparr>)"
| takes: "feat_redis (feat P) \<Longrightarrow> redis_alive (proc n) \<Longrightarrow> busy n = None \<Longrightarrow> to_redis n = p # q \<Longrightarrow>
    nstep Ps P J E c n (n\<lparr>to_redis := q, busy := Some (FromBroker p)\<rparr>)"
| picks: "feat_redis (feat P) \<Longrightarrow> redis_alive (proc n) \<Longrightarrow> busy n = None \<Longrightarrow> inbox n = x # xs \<Longrightarrow>
    nstep Ps P J E c n (n\<lparr>inbox := xs, busy := Some (FromRedis x)\<rparr>)"
| publishes: "busy n = Some (FromBroker p) \<Longrightarrow> redis_step P J E c (FromBroker p) (proc n) b \<Longrightarrow>
    nstep Ps P J E c n (set_proc b (n\<lparr>busy := None\<rparr>))"
| handles: "busy n = Some (FromRedis x) \<Longrightarrow> redis_step P J E c (FromRedis x) (proc n) b \<Longrightarrow>
    (takes_lock P J c (FromRedis x) \<longrightarrow> holder (sys n) = None) \<Longrightarrow>
    nstep Ps P J E c n (set_proc b (n\<lparr>busy := None, handled := handled n @ [x]\<rparr>))"
| receives: "recv_call call (receiving n) = Some r \<Longrightarrow> (\<forall>m a. call \<noteq> Forward m a) \<Longrightarrow>
    nstep Ps P J E c n (n\<lparr>receiving := r\<rparr>)"
| forwards: "receiving n = Forwarding m \<Longrightarrow> recv_call (Forward m True) (receiving n) = Some r \<Longrightarrow>
    redis_alive (proc n) \<Longrightarrow> length (inbox n) < 1024 \<Longrightarrow>
    nstep Ps P J E c n (n\<lparr>receiving := r, inbox := inbox n @ [m]\<rparr>)"
| forward_fails: "receiving n = Forwarding m \<Longrightarrow> recv_call (Forward m False) (receiving n) = Some r \<Longrightarrow>
    \<not> redis_alive (proc n) \<Longrightarrow> nstep Ps P J E c n (n\<lparr>receiving := r\<rparr>)"

inductive_cases nstep_cases: "nstep Ps P J E c n n'"

text \<open>
  A broker together with what reaches it from Redis: whoever publishes on the channel \<open>sync\<close>, a broker or any other client
  of the server, adds to its subscription.
\<close>

definition push_texts :: "string list \<Rightarrow> ('w, 'tx, 'rx, 'will) node \<Rightarrow> ('w, 'tx, 'rx, 'will) node" where
  "push_texts xs n = (case receiving n of Subscribed ms \<Rightarrow> n\<lparr>receiving := Subscribed (ms @ xs)\<rparr> | _ \<Rightarrow> n)"

inductive estep ::
    "(nat \<Rightarrow> ('w, 'tx, 'rx, 'will) platform) \<Rightarrow> ('w, 'tx, 'rx, 'will) platform \<Rightarrow> 'v json_lib \<Rightarrow> redis_env \<Rightarrow>
     redis_client \<Rightarrow> ('w, 'tx, 'rx, 'will) node \<Rightarrow> ('w, 'tx, 'rx, 'will) node \<Rightarrow> bool"
  for Ps P J E c where
  own: "nstep Ps P J E c n n' \<Longrightarrow> estep Ps P J E c n n'"
| pushed: "estep Ps P J E c n (push_texts xs n)"

lemma esteps: "(nstep Ps P J E c)\<^sup>*\<^sup>* n n' \<Longrightarrow> (estep Ps P J E c)\<^sup>*\<^sup>* n n'"
  by (induction rule: rtranclp_induct) (auto intro: rtranclp.rtrancl_into_rtrancl estep.own)

lemma two_steps: "R a b \<Longrightarrow> R b c \<Longrightarrow> R\<^sup>*\<^sup>* a c"
  by (meson converse_rtranclp_into_rtranclp r_into_rtranclp)

lemma push_texts_simps [simp]:
  "push_texts [] n = n" "sys (push_texts xs n) = sys n" "to_redis (push_texts xs n) = to_redis n" "busy (push_texts xs n) = busy n"
  "inbox (push_texts xs n) = inbox n" "accepted (push_texts xs n) = accepted n" "handled (push_texts xs n) = handled n"
  by (simp_all add: push_texts_def split: receiving.split)

lemma push_texts_push: "push_texts ys (push_texts xs n) = push_texts (xs @ ys) n"
  by (simp add: push_texts_def split: receiving.split)

lemma set_proc_simps [simp]:
  "sys (set_proc b n) = (sys n)\<lparr>broker_of := b\<rparr>" "to_redis (set_proc b n) = to_redis n"
  "busy (set_proc b n) = busy n" "receiving (set_proc b n) = receiving n" "inbox (set_proc b n) = inbox n" "accepted (set_proc b n) = accepted n"
  "handled (set_proc b n) = handled n"
  by (simp_all add: set_proc_def)

section \<open>The receiving task\<close>

text \<open>
  The calls of a run of the receiving task, with what the server adds to the subscription in between.
\<close>

inductive recv_run :: "receiving \<Rightarrow> redis_call list \<Rightarrow> receiving \<Rightarrow> bool" where
  stop: "recv_run r [] r"
| push: "recv_run (Subscribed (ms @ [x])) l r \<Longrightarrow> recv_run (Subscribed ms) l r"
| call: "recv_call e r = Some r1 \<Longrightarrow> recv_run r1 l r2 \<Longrightarrow> recv_run r (e # l) r2"

lemma recv_run_append: "recv_run r l r1 \<Longrightarrow> recv_run r1 l' r2 \<Longrightarrow> recv_run r (l @ l') r2"
  by (induction rule: recv_run.induct) (auto intro: recv_run.intros)

text \<open>The rounds of the code are runs of this machine, whatever the server answers.\<close>

lemma round_runs: "round_ok r \<Longrightarrow> recv_run AtConnect r AtConnect"
proof (induction rule: round_ok.induct)
  case (bad_payload e)
  show ?case
    by (rule recv_run.call [of _ _ AtSubscribe], simp, rule recv_run.call [of _ _ "Subscribed []"], simp,
        rule recv_run.push [of _ "''''"], rule recv_run.call [of _ _ AtConnect], simp, rule recv_run.stop)
next
  case (handed_over m a)
  show ?case
    by (rule recv_run.call [of _ _ AtSubscribe], simp, rule recv_run.call [of _ _ "Subscribed []"], simp,
        rule recv_run.push [of _ m], rule recv_run.call [of _ _ "Forwarding m"], simp,
        rule recv_run.call [of _ _ AtConnect], simp, rule recv_run.stop)
next
  case (no_message e)
  show ?case
    by (rule recv_run.call [of _ _ AtSubscribe], simp, rule recv_run.call [of _ _ "Subscribed []"], simp,
        rule recv_run.call [of _ _ AtConnect], simp, rule recv_run.stop)
next
  case (no_subscription e)
  show ?case
    by (rule recv_run.call [of _ _ AtSubscribe], simp, rule recv_run.call [of _ _ AtConnect], simp, rule recv_run.stop)
next
  case (unreachable e)
  show ?case by (rule recv_run.call [of _ _ AtConnect], simp, rule recv_run.stop)
qed

lemma receive_runs: "\<exists>r. receive_from_redis E n l = l @ r \<and> recv_run AtConnect r AtConnect"
proof -
  obtain rs where rs: "receive_from_redis E n l = l @ concat rs" "list_all round_ok rs" using receive_shape by blast
  from rs(2) have "recv_run AtConnect (concat rs) AtConnect"
    by (induction rs) (auto intro: recv_run.stop recv_run_append round_runs)
  with rs(1) show ?thesis by blast
qed

text \<open>Conversely, a run that is back at the beginning has made the calls of a number of rounds.\<close>

fun begun :: "receiving \<Rightarrow> redis_call list" where
  "begun AtConnect = []"
| "begun AtSubscribe = [GetConnection None]"
| "begun (Subscribed ms) = [GetConnection None, SubscribeTo ''sync'' None]"
| "begun (Forwarding m) = [GetConnection None, SubscribeTo ''sync'' None, GetMessage (Inr (Inr m))]"

lemma recv_call_begun:
  "recv_call e r = Some r' \<Longrightarrow> begun r' = begun r @ [e] \<or> r' = AtConnect \<and> round_ok (begun r @ [e])"
  by (cases "(e, r)" rule: recv_call.cases) (auto split: if_splits intro: round_ok.intros)

lemma runs_are_rounds: "recv_run r l AtConnect \<Longrightarrow> \<exists>rs. begun r @ l = concat rs \<and> list_all round_ok rs"
proof (induction r l AtConnect rule: recv_run.induct)
  case (call e r r1 l)
  from call(3) obtain rs where rs: "begun r1 @ l = concat rs" "list_all round_ok rs" by blast
  from recv_call_begun [OF call(1)] show ?case
  proof
    assume "begun r1 = begun r @ [e]"
    with rs show ?thesis by auto
  next
    assume "r1 = AtConnect \<and> round_ok (begun r @ [e])"
    with rs show ?thesis by (intro exI [of _ "(begun r @ [e]) # rs"]) auto
  qed
qed (auto intro: exI [of _ "[]"])

section \<open>What the channels hold\<close>

text \<open>The text that \<open>publish\<close> puts on the Redis channel for a packet, and the texts in a log of calls.\<close>

definition sync_text :: "'v json_lib \<Rightarrow> redis_client \<Rightarrow> publish_packet \<Rightarrow> string" where
  "sync_text J c p =
     (case to_value J (redis_message_of c p) of Inr v \<Rightarrow> value_to_string J v | Inl _ \<Rightarrow> [])"

fun published_text :: "redis_call \<Rightarrow> string option" where
  "published_text (Query [cmd, ch, x] r) = (if cmd = ''PUBLISH'' \<and> ch = ''sync'' then Some x else None)"
| "published_text _ = None"

definition published_texts :: "redis_call list \<Rightarrow> string list" where
  "published_texts = List.map_filter published_text"

lemma published_texts_simps [simp]:
  "published_texts [] = []"
  "published_texts (e # l) = (case published_text e of None \<Rightarrow> published_texts l | Some x \<Rightarrow> x # published_texts l)"
  "published_texts (l @ l') = published_texts l @ published_texts l'"
  by (simp_all add: published_texts_def map_filter_simps map_filter_append split: option.split)

lemma broker_steps_log:
  assumes "sstep Ps P J E c a f f'" "a \<noteq> RedisTask"
  shows "redis_log (broker_of f') = redis_log (broker_of f)" "redis_alive (broker_of f') = redis_alive (broker_of f)"
proof -
  have acc: "redis_log b' = redis_log b \<and> redis_alive b' = redis_alive b" if "accept_step P b b'" for b b'
    using that by cases (simp_all add: handle_new_connection_def Let_def split: sum.split)
  have "redis_log (broker_of f') = redis_log (broker_of f) \<and> redis_alive (broker_of f') = redis_alive (broker_of f)"
    using assms(1) by cases (use assms(2) acc in \<open>simp_all add: put_task_def\<close>)
  then show "redis_log (broker_of f') = redis_log (broker_of f)" "redis_alive (broker_of f') = redis_alive (broker_of f)"
    by auto
qed

text \<open>
  What a round of the Redis task that publishes a packet adds to the log: attempts to connect, the
  text, and for a retained packet the text under its key.
\<close>

definition sync_calls :: "'v json_lib \<Rightarrow> redis_client \<Rightarrow> publish_packet \<Rightarrow> redis_call list \<Rightarrow> bool" where
  "sync_calls J c p d \<longleftrightarrow> published_texts d = [sync_text J c p] \<and>
     (\<forall>S. fold store_step d S = S \<or>
        p_retain p \<and> fold store_step d S = S(retain_key (topic_name (p_topic p)) \<mapsto> sync_text J c p))"

lemma connection_texts:
  assumes "get_connection E l = Some l'"
  shows "\<exists>es. l' = l @ es \<and> published_texts es = [] \<and> (\<forall>S. fold store_step es S = S)"
proof -
  have "published_texts (map (\<lambda>e. GetConnection (Some e)) es) = [] \<and>
      fold store_step (map (\<lambda>e. GetConnection (Some e)) es) S = S" for es S
    by (induction es) (simp_all add: store_step_def)
  then show ?thesis using get_connection_shape [OF assms] by (auto simp: store_step_def)
qed

lemma take_packet:
  assumes J: "json_ok J" and up: "get_connection E (redis_log b) = Some l" and on: "feat_redis (feat P)" "redis_alive b"
  shows "\<exists>d. redis_step P J E c (FromBroker p) b (b\<lparr>redis_log := redis_log b @ d\<rparr>) \<and> sync_calls J c p d"
proof -
  let ?s = "\<lparr>rs_shared = store b, rlog = redis_log b\<rparr>" and ?k = "retain_key (topic_name (p_topic p))"
  from redis_publish_eq [OF J, of E ?s l c p] up obtain v r where v: "to_value J (redis_message_of c p) = Inr v"
    and run: "\<exists>r2. redis_publish J E c p ?s =
      Some (Ok (), ?s\<lparr>rlog := l @ Query [''PUBLISH'', ''sync'', value_to_string J v] r #
        (if p_retain p then [Query [''SET'', ?k, value_to_string J v] r2] else [])\<rparr>)"
    by (auto split: if_splits)
  from run obtain r2 where run: "redis_publish J E c p ?s =
      Some (Ok (), ?s\<lparr>rlog := l @ Query [''PUBLISH'', ''sync'', value_to_string J v] r #
        (if p_retain p then [Query [''SET'', ?k, value_to_string J v] r2] else [])\<rparr>)" by blast
  from connection_texts [OF up] obtain es where
    es: "l = redis_log b @ es" "published_texts es = []" "\<And>S. fold store_step es S = S" by blast
  let ?d = "es @ Query [''PUBLISH'', ''sync'', value_to_string J v] r #
    (if p_retain p then [Query [''SET'', ?k, value_to_string J v] r2] else [])"
  have "redis_step P J E c (FromBroker p) b (b\<lparr>store := store b, redis_log := redis_log b @ ?d\<rparr>)"
    using redis_step.redis_goes_on [of P b J E c "FromBroker p"] run es(1) on by (simp add: listen_step_def)
  moreover have "sync_calls J c p ?d"
    using es(2,3) v by (cases r; cases r2) (simp_all add: sync_calls_def sync_text_def store_step_def)
  ultimately show ?thesis by (intro exI [of _ ?d]) simp
qed

lemma take_packet_only:
  assumes step: "redis_step P J E c (FromBroker p) b b'" and J: "json_ok J"
  shows "\<exists>d. b' = b\<lparr>redis_log := redis_log b @ d\<rparr> \<and> sync_calls J c p d"
proof -
  let ?s = "\<lparr>rs_shared = store b, rlog = redis_log b\<rparr>"
  have "feat_redis (feat P)" "redis_alive b" "redis_publish J E c p ?s \<noteq> None"
    using step by (auto elim!: redis_step_cases simp: listen_step_def)
  moreover then obtain l where "get_connection E (redis_log b) = Some l" by (auto simp: redis_publish_def split: option.splits)
  ultimately obtain d where d: "redis_step P J E c (FromBroker p) b (b\<lparr>redis_log := redis_log b @ d\<rparr>)"
      "sync_calls J c p d" using take_packet [OF J] by blast
  have "b' = b\<lparr>redis_log := redis_log b @ d\<rparr>"
    using step d(1) by (auto elim!: redis_step_cases)
  with d(2) show ?thesis by blast
qed

lemma handle_text_log:
  assumes "redis_step P J E c (FromRedis x) b b'"
  shows "redis_log b' = redis_log b"
proof -
  have "rlog (snd (handle_message P J c x s)) = rlog s" for s :: "('a, 'b) redis_state"
    by (simp add: handle_message_def discard_def match_io_def on_rs_def zoom_io_def split: sum.split prod.split outcome.split)
  from this [of "\<lparr>rs_shared = store b, rlog = redis_log b\<rparr>"] show ?thesis
    using assms by (cases rule: redis_step_cases) (auto simp: listen_step_def)
qed

text \<open>The packet, or the text, the Redis task is at.\<close>

fun packet_of :: "redis_event option \<Rightarrow> publish_packet list" where
  "packet_of (Some (FromBroker p)) = [p]"
| "packet_of _ = []"

fun text_of :: "redis_event option \<Rightarrow> string list" where
  "text_of (Some (FromRedis x)) = [x]"
| "text_of _ = []"

text \<open>
  The invariant of a broker with its channels: that of the interleaved system, the capacities, and that what was accepted is
  what has been published on Redis, what the Redis task is at, and what waits in the channel, in this order.
\<close>

definition node_inv ::
    "('w, 'tx, 'rx) broadcast_view \<Rightarrow> 'v json_lib \<Rightarrow> redis_client \<Rightarrow> ('w, 'tx, 'rx, 'will) node \<Rightarrow> bool" where
  "node_inv V J c n \<longleftrightarrow> sched_inv V (sys n) \<and> length (to_redis n) \<le> 200 \<and> length (inbox n) \<le> 1024 \<and>
     busy n \<noteq> Some BothClosed \<and>
     map (sync_text J c) (accepted n) =
       published_texts (redis_log (proc n)) @ map (sync_text J c) (packet_of (busy n) @ to_redis n)"

lemma node_inv_start:
  "broker_inv V b \<Longrightarrow> published_texts (redis_log b) = [] \<Longrightarrow> node_inv V J c (start_node b)"
  by (simp add: node_inv_def start_node_def sched_inv_idle) (simp add: idle_def)

lemma node_inv_push [simp]: "node_inv V J c (push_texts xs n) = node_inv V J c n"
  by (simp add: node_inv_def)

context broadcast_channel
begin

lemma nstep_inv:
  fixes n :: "('w, 'tx, 'rx, 'will) node"
  assumes step: "nstep Ps P J E c n n'" and inv: "node_inv V J c n" and J: "json_ok J"
    and bcs: "bc P = B" "\<And>i. bc (Ps i) = B"
  shows "node_inv V J c n'"
proof -
  have s: "sched_inv V (sys n)" using inv by (simp add: node_inv_def)
  have redis: "sched_inv V ((sys n)\<lparr>broker_of := b\<rparr>)"
    if "redis_step P J E c ev (proc n) b" "takes_lock P J c ev \<longrightarrow> holder (sys n) = None" for ev b
    using sched_inv_redis [OF s that(1) bcs(1) that(2)] .
  from step show ?thesis
  proof cases
    case (broker_steps a f ps)
    have "sched_inv V f" by (rule sstep_inv [OF broker_steps(2) s bcs])
    then show ?thesis
      unfolding broker_steps(1) using inv broker_steps broker_steps_log [OF broker_steps(2,3)] by (simp add: node_inv_def)
  next
    case (publishes p b)
    from take_packet_only [OF publishes(3) J] obtain d where
      d: "b = (proc n)\<lparr>redis_log := redis_log (proc n) @ d\<rparr>" "sync_calls J c p d" by blast
    with publishes inv redis [OF publishes(3)] show ?thesis by (simp add: node_inv_def sync_calls_def)
  next
    case (handles x b)
    with inv redis [OF handles(3,4)] handle_text_log [OF handles(3)] show ?thesis by (simp add: node_inv_def)
  qed (use inv in \<open>simp_all add: node_inv_def\<close>)
qed

end

section \<open>What connections send\<close>

text \<open>Every branch that has begun is one of the branches of the code, so that it sends as theory \<open>Outgoing\<close> says.\<close>

definition prudent :: "(nat \<Rightarrow> ('w, 'tx, 'rx, 'will) platform) \<Rightarrow> ('w, 'tx, 'rx, 'will) sched \<Rightarrow> bool" where
  "prudent Ps f \<longleftrightarrow> (\<forall>i p. pending f i = Some p \<longrightarrow> all_steps (utters (Ps i)) p)"

lemma prudent_frame [simp]: "prudent Ps (f\<lparr>broker_of := b\<rparr>) = prudent Ps f" "prudent Ps (idle b)"
  by (simp_all add: prudent_def idle_def)

lemma prudent_step:
  assumes "sstep Ps P J E c a f f'" "prudent Ps f"
  shows "prudent Ps f'"
  using assms(1)
proof cases
  case (steps i t g u k)
  then have "all_steps (utters (Ps i)) (Atomic g u k)" using assms(2) unfolding prudent_def by blast
  with steps assms(2) show ?thesis by (simp add: prudent_def)
next
  case (locks i p)
  then have "all_steps (utters (Ps i)) (Lock p)" using assms(2) unfolding prudent_def by blast
  with locks assms(2) show ?thesis by (simp add: prudent_def)
next
  case (unlocks i p)
  then have "all_steps (utters (Ps i)) (Unlock p)" using assms(2) unfolding prudent_def by blast
  with unlocks assms(2) show ?thesis by (simp add: prudent_def)
qed (use assms(2) in \<open>simp_all add: prudent_def utters_serve\<close>)

lemma sends_of_task:
  assumes "sstep Ps P J E c (Task i) f f'" "prudent Ps f"
  shows "length (step_sends (Task i) f f') \<le> 1"
    "(p, answer) \<in> set (step_sends (Task i) f f') \<Longrightarrow> \<exists>l ch. answer = env_mpsc_send (env (Ps i)) l ch p"
proof -
  have "\<exists>l. redis_sends l = step_sends (Task i) f f' \<and> list_all (proper_call (Ps i)) l \<and> length (redis_sends l) \<le> 1"
    using assms(1)
  proof cases
    case (steps t g u k)
    then have "all_steps (utters (Ps i)) (Atomic g u k)" using assms(2) unfolding prudent_def by blast
    then have "utters (Ps i) (task_conn (broker_of f) t) (u (task_conn (broker_of f) t))" by simp
    then show ?thesis
      using steps by (auto simp: utters_def step_sends_def task_conn_def put_task_def)
  next
    case (ends t r)
    then show ?thesis by (intro exI [of _ "[]"]) (simp add: step_sends_def)
  qed (intro exI [of _ "[]"]; simp add: step_sends_def put_task_def split: option.split)+
  then obtain l where l: "redis_sends l = step_sends (Task i) f f'" "list_all (proper_call (Ps i)) l"
      "length (redis_sends l) \<le> 1" by blast
  then show "length (step_sends (Task i) f f') \<le> 1" by simp
  have "\<exists>ch. MpscSend ch p answer \<in> set l" if "(p, answer) \<in> set (redis_sends l)" for l
    using that by (induction l) (auto split: option.splits elim: redis_send.elims)
  moreover assume "(p, answer) \<in> set (step_sends (Task i) f f')"
  ultimately obtain ch where "MpscSend ch p answer \<in> set l" using l(1) by metis
  then have "proper_call (Ps i) (MpscSend ch p answer)" using l(2) by (auto simp: list_all_iff)
  then show "\<exists>l ch. answer = env_mpsc_send (env (Ps i)) l ch p" by auto
qed

text \<open>Whoever holds the mutex sends nothing.\<close>

lemma holder_sends_nothing:
  assumes step: "sstep Ps P J E c (Task i) f f'" and inv: "sched_inv V f" and h: "holder f = Some i"
  shows "step_sends (Task i) f f' = []"
  using step
proof cases
  case (steps t g u k)
  then have "conn_guar V True (task_conn (broker_of f) t) (u (task_conn (broker_of f) t))"
    using conn.now(2) [OF sched_invD(2) [OF inv steps(3,2)]] h by simp
  then show ?thesis using steps by (auto simp: conn_guar_def mute_def step_sends_def task_conn_def put_task_def)
qed (auto simp: step_sends_def put_task_def split: option.split)

section \<open>The channel cannot block a branch for good\<close>

text \<open>
  The state with another log of the Redis task: steps of connections do not look at it.
\<close>

definition relog :: "redis_call list \<Rightarrow> ('w, 'tx, 'rx, 'will) sched \<Rightarrow> ('w, 'tx, 'rx, 'will) sched" where
  "relog l f = \<lparr>broker_of = (broker_of f)\<lparr>redis_log := l\<rparr>, pending = pending f, holder = holder f\<rparr>"

lemma relog_simps [simp]:
  "pending (relog l f) = pending f" "holder (relog l f) = holder f" "tasks (broker_of (relog l f)) = tasks (broker_of f)"
  "store (broker_of (relog l f)) = store (broker_of f)" "redis_alive (broker_of (relog l f)) = redis_alive (broker_of f)"
  "relog l (relog l' f) = relog l f" "task_conn (broker_of (relog l f)) t = task_conn (broker_of f) t"
  "relog (redis_log (broker_of f)) f = f"
  by (simp_all add: relog_def task_conn_def)

lemma step_sends_relog [simp]: "step_sends a (relog l f) (relog l' g) = step_sends a f g"
  by (cases a) (simp_all add: step_sends_def)

lemma task_conn_log [simp]: "task_conn (b\<lparr>redis_log := l\<rparr>) t = task_conn b t"
  by (simp add: task_conn_def)

lemma relog_updates:
  "put_task i t s (b\<lparr>redis_log := l\<rparr>) = (put_task i t s b)\<lparr>redis_log := l\<rparr>"
  "b\<lparr>redis_log := l, tasks := ts\<rparr> = b\<lparr>tasks := ts, redis_log := l\<rparr>"
  by (cases b; simp add: put_task_def)+

lemma relog_eq: "relog l f = f\<lparr>broker_of := (broker_of f)\<lparr>redis_log := l\<rparr>\<rparr>"
  by (simp add: relog_def)

lemma sstep_relog:
  assumes "sstep Ps P J E c (Task i) f f'"
  shows "sstep Ps P J E c (Task i) (relog l f) (relog l f')"
  using assms
proof cases
  case (begins t ev)
  then show ?thesis using sstep.begins [of "relog l f" i t Ps ev P J E c] by (simp add: relog_def)
next
  case (steps t g u k)
  then show ?thesis
    using sstep.steps [of "relog l f" i t g u k Ps P J E c] by (simp add: relog_def relog_updates)
next
  case (locks p)
  then show ?thesis using sstep.locks [of "relog l f" i p Ps P J E c] by (simp add: relog_def)
next
  case (unlocks p)
  then show ?thesis using sstep.unlocks [of "relog l f" i p Ps P J E c] by (simp add: relog_def)
next
  case goes_on
  then show ?thesis using sstep.goes_on [of "relog l f" i Ps P J E c] by (simp add: relog_def)
next
  case (unwinds t r k rx rest)
  then show ?thesis
    using sstep.unwinds [of "relog l f" i t r k rx rest Ps P J E c] by (simp add: relog_def relog_updates)
next
  case (ends t r)
  then show ?thesis using sstep.ends [of "relog l f" i t r Ps P J E c] by (simp add: relog_def relog_updates)
qed

text \<open>The Redis task publishes the packet at the head of its channel; so it can empty the channel.\<close>

lemma publishes_head:
  assumes J: "json_ok J" and up: "get_connection E (redis_log (proc n)) = Some l'" and on: "feat_redis (feat P)"
    and n: "redis_alive (proc n)" "busy n = None" "to_redis n = p # q"
  shows "\<exists>d. (nstep Ps P J E c)\<^sup>*\<^sup>* n (n\<lparr>sys := relog (redis_log (proc n) @ d) (sys n), to_redis := q\<rparr>) \<and> sync_calls J c p d"
proof -
  let ?n = "n\<lparr>to_redis := q, busy := Some (FromBroker p)\<rparr>"
  from take_packet [OF J up on n(1)] obtain d where
    d: "redis_step P J E c (FromBroker p) (proc n) ((proc n)\<lparr>redis_log := redis_log (proc n) @ d\<rparr>)" "sync_calls J c p d" by blast
  let ?l = "redis_log (proc n) @ d"
  let ?m = "n\<lparr>sys := relog ?l (sys n), to_redis := q\<rparr>"
  have "nstep Ps P J E c n ?n" using nstep.takes [OF on n] .
  moreover have "set_proc ((proc n)\<lparr>redis_log := ?l\<rparr>) (n\<lparr>to_redis := q, busy := None\<rparr>) = ?m"
    using n(2) by (cases n) (simp add: set_proc_def relog_eq)
  then have "nstep Ps P J E c ?n ?m"
    using nstep.publishes [of ?n p P J E c "(proc n)\<lparr>redis_log := ?l\<rparr>" Ps] d(1) by simp
  ultimately have "(nstep Ps P J E c)\<^sup>*\<^sup>* n ?m" by (rule two_steps)
  with d(2) show ?thesis by blast
qed

lemma drain:
  assumes J: "json_ok J" and up: "\<And>l. \<exists>l'. get_connection E l = Some l'" and on: "feat_redis (feat P)"
    and alive: "redis_alive (proc n)" and free: "busy n = None"
  shows "\<exists>l. (nstep Ps P J E c)\<^sup>*\<^sup>* n (n\<lparr>sys := relog l (sys n), to_redis := []\<rparr>)"
  using alive free
proof (induction "to_redis n" arbitrary: n)
  case Nil
  then have "n\<lparr>sys := relog (redis_log (proc n)) (sys n), to_redis := []\<rparr> = n" by simp
  then show ?case by (metis rtranclp.rtrancl_refl)
next
  case (Cons p q)
  obtain l' where "get_connection E (redis_log (proc n)) = Some l'" using up by blast
  from publishes_head [OF J this on Cons.prems Cons.hyps(2) [symmetric]] obtain l where
    "(nstep Ps P J E c)\<^sup>*\<^sup>* n (n\<lparr>sys := relog l (sys n), to_redis := q\<rparr>)" by blast
  moreover define m where "m = n\<lparr>sys := relog l (sys n), to_redis := q\<rparr>"
  moreover obtain l' where "(nstep Ps P J E c)\<^sup>*\<^sup>* m (m\<lparr>sys := relog l' (sys m), to_redis := []\<rparr>)"
    using Cons.hyps(1) [of m] Cons.prems by (auto simp: m_def)
  ultimately have "(nstep Ps P J E c)\<^sup>*\<^sup>* n (n\<lparr>sys := relog l' (sys n), to_redis := []\<rparr>)"
    by simp
  then show ?case by blast
qed

text \<open>A step of a connection, when there is room for what it sends.\<close>

lemma task_nstep:
  assumes step: "sstep Ps P J E c (Task i) (sys n) f" and pr: "prudent Ps (sys n)"
    and acc: "\<And>i l ch p. env_mpsc_send (env (Ps i)) l ch p" and alive: "redis_alive (proc n)"
    and room: "length (to_redis n) + length (step_sends (Task i) (sys n) f) \<le> 200"
  shows "nstep Ps P J E c n (n\<lparr>sys := f, to_redis := to_redis n @ map fst (step_sends (Task i) (sys n) f),
    accepted := accepted n @ map fst (step_sends (Task i) (sys n) f)\<rparr>)"
proof -
  have ans: "\<forall>(p, answer) \<in> set (step_sends (Task i) (sys n) f). answer"
    using sends_of_task(2) [OF step pr] acc by fastforce
  then have "filter snd (step_sends (Task i) (sys n) f) = step_sends (Task i) (sys n) f" by (auto simp: filter_id_conv)
  with nstep.broker_steps [OF step, of "map fst (step_sends (Task i) (sys n) f)"] ans alive room show ?thesis
    by (simp add: case_prod_beta)
qed

context broadcast_channel
begin

text \<open>The holder of the mutex gets to the point where it releases it, whatever the channel holds.\<close>

lemma releases:
  fixes n :: "('w, 'tx, 'rx, 'will) node"
  assumes "(solo_step Ps P J E c)\<^sup>*\<^sup>* f (idle b)" "sys n = f" "sched_inv V f" "prudent Ps f" "redis_alive (proc n)"
    and acc: "\<And>i l ch p. env_mpsc_send (env (Ps i)) l ch p" and bcs: "bc P = B" "\<And>i. bc (Ps i) = B"
    and room: "length (to_redis n) \<le> 200"
  shows "\<exists>g. (nstep Ps P J E c)\<^sup>*\<^sup>* n (n\<lparr>sys := g\<rparr>) \<and> holder g = None \<and> redis_alive (broker_of g)"
  using assms(1-5) room
proof (induction arbitrary: n rule: converse_rtranclp_induct)
  case base
  have "holder (sys n) = None" by (simp add: base(1) idle_def)
  with base.prems(4) show ?case by (intro exI [of _ "sys n"]) simp
next
  case (step y z)
  show ?case
  proof (cases "holder y")
    case None
    then have "holder (sys n) = None" using step.prems(1) by simp
    with step.prems(4) show ?thesis by (intro exI [of _ "sys n"]) simp
  next
    case (Some i)
    then have st: "sstep Ps P J E c (Task i) (sys n) z" using step(1) step.prems(1) by (auto simp: solo_step_def)
    have "step_sends (Task i) (sys n) z = []"
      using holder_sends_nothing [OF st] step.prems(1,2) Some by blast
    with task_nstep [OF st _ acc step.prems(4)] step.prems(1,3,5) have n1: "nstep Ps P J E c n (n\<lparr>sys := z\<rparr>)" by simp
    have "\<exists>g. (nstep Ps P J E c)\<^sup>*\<^sup>* (n\<lparr>sys := z\<rparr>) (n\<lparr>sys := z\<rparr>\<lparr>sys := g\<rparr>) \<and> holder g = None \<and> redis_alive (broker_of g)"
    proof (rule step.IH)
      show "sched_inv V z" "prudent Ps z"
        using sstep_inv [OF st _ bcs] prudent_step [OF st] step.prems(1-3) by auto
      show "redis_alive (proc (n\<lparr>sys := z\<rparr>))" using broker_steps_log(2) [OF st] step.prems(4) by simp
    qed (use step.prems in auto)
    with n1 show ?thesis by (auto intro: converse_rtranclp_into_rtranclp)
  qed
qed

text \<open>With the Redis task at its \<open>select!\<close>, every path of the connections can be followed by emptying the channel in between.\<close>

lemma follows:
  fixes n :: "('w, 'tx, 'rx, 'will) node"
  assumes path: "(solo_step Ps P J E c)\<^sup>*\<^sup>* f g" and pr: "prudent Ps f"
    and n: "sys n = f" "busy n = None" "to_redis n = []" "redis_alive (proc n)"
    and J: "json_ok J" and up: "\<And>l. \<exists>l'. get_connection E l = Some l'" and on: "feat_redis (feat P)"
    and acc: "\<And>i l ch p. env_mpsc_send (env (Ps i)) l ch p"
  shows "prudent Ps g \<and> redis_alive (broker_of g) \<and> (\<exists>m l. (nstep Ps P J E c)\<^sup>*\<^sup>* n m \<and> sys m = relog l g \<and> busy m = None \<and> to_redis m = [])"
  using path
proof (induction rule: rtranclp_induct)
  case base
  have "sys n = relog (redis_log (proc n)) f" using n(1) by simp
  with pr n show ?case by blast
next
  case (step y z)
  then obtain m l where m: "(nstep Ps P J E c)\<^sup>*\<^sup>* n m" "sys m = relog l y" "busy m = None" "to_redis m = []"
    and y: "prudent Ps y" "redis_alive (broker_of y)" by blast
  from step(2) obtain i where st: "sstep Ps P J E c (Task i) y z" by (auto simp: solo_step_def)
  have st': "sstep Ps P J E c (Task i) (sys m) (relog l z)" unfolding m(2) by (rule sstep_relog [OF st])
  have al: "redis_alive (broker_of z)" using broker_steps_log(2) [OF st] y(2) by simp
  have pr': "prudent Ps (sys m)" using y(1) by (simp add: m(2) prudent_def)
  let ?ps = "map fst (step_sends (Task i) (sys m) (relog l z))"
  let ?m = "m\<lparr>sys := relog l z, to_redis := to_redis m @ ?ps, accepted := accepted m @ ?ps\<rparr>"
  have m1: "nstep Ps P J E c m ?m"
    using sends_of_task(1) [OF st' pr'] m(2,4) y(2) by (intro task_nstep [OF st' pr' acc]) simp_all
  obtain l' where dr: "(nstep Ps P J E c)\<^sup>*\<^sup>* ?m (?m\<lparr>sys := relog l' (sys ?m), to_redis := []\<rparr>)"
    using drain [OF J up on, of ?m] m(3) al by auto
  have "(nstep Ps P J E c)\<^sup>*\<^sup>* n (?m\<lparr>sys := relog l' (sys ?m), to_redis := []\<rparr>)"
    by (rule rtranclp_trans [OF rtranclp.rtrancl_into_rtrancl [OF m(1) m1] dr])
  moreover have "sys (?m\<lparr>sys := relog l' (sys ?m), to_redis := []\<rparr>) = relog l' z" by simp
  ultimately show ?case using al prudent_step [OF st y(1)] m(3) by fastforce
qed

end

text \<open>A message from Redis that parses, with a topic for which a packet can be built.\<close>

definition good_text :: "('w, 'tx, 'rx, 'will) platform \<Rightarrow> 'v json_lib \<Rightarrow> string \<Rightarrow> bool" where
  "good_text P J x \<longleftrightarrow> (\<exists>m q. from_str J x = Inr m \<and>
     build_publish (mqtt P) (rm_topic m) (rm_payload m) (Some (rm_retain m)) = Inr q)"

lemma handle_text:
  assumes "good_text P J x" "bt_wf (topics (store b))" "feat_redis (feat P)" "redis_alive b"
  shows "\<exists>sh. redis_step P J E c (FromRedis x) b (b\<lparr>store := sh\<rparr>)"
proof -
  let ?s = "\<lparr>rs_shared = store b, rlog = redis_log b\<rparr>"
  from assms(1) obtain m q where m: "from_str J x = Inr m"
    "build_publish (mqtt P) (rm_topic m) (rm_payload m) (Some (rm_retain m)) = Inr q" by (auto simp: good_text_def)
  have "\<exists>sh. handle_message P J c x ?s = (Ok (), ?s\<lparr>rs_shared := sh\<rparr>)"
    using m publish_eq [OF assms(2), of "bc P" q]
    by (auto simp: handle_message_def discard_def match_io_def on_rs_def zoom_io_def)
  then obtain sh where "listen_step P J E c (FromRedis x) ?s = Some (Ok (), ?s\<lparr>rs_shared := sh\<rparr>)"
    by (auto simp: listen_step_def)
  from redis_step.redis_goes_on [OF assms(3,4) this] show ?thesis by (intro exI [of _ sh]) simp
qed

lemma finish_busy:
  assumes J: "json_ok J" and up: "\<And>l. \<exists>l'. get_connection E l = Some l'" and on: "feat_redis (feat P)"
    and alive: "redis_alive (proc n)" and free: "holder (sys n) = None" and wf: "bt_wf (topics (store (proc n)))"
    and ev: "busy n \<noteq> Some BothClosed" "\<And>x. busy n = Some (FromRedis x) \<Longrightarrow> good_text P J x"
  shows "\<exists>m. (nstep Ps P J E c)\<^sup>*\<^sup>* n m \<and> busy m = None \<and> redis_alive (proc m)"
proof (cases "busy n")
  case None
  then show ?thesis using alive by blast
next
  case (Some e)
  show ?thesis
  proof (cases e)
    case (FromBroker p)
    obtain l where "get_connection E (redis_log (proc n)) = Some l" using up by blast
    from take_packet [OF J this on alive] obtain d where
      "redis_step P J E c (FromBroker p) (proc n) ((proc n)\<lparr>redis_log := redis_log (proc n) @ d\<rparr>)" by blast
    from nstep.publishes [OF _ this] Some FromBroker alive show ?thesis
      by (intro exI [of _ "set_proc ((proc n)\<lparr>redis_log := redis_log (proc n) @ d\<rparr>) (n\<lparr>busy := None\<rparr>)"])
        (simp add: r_into_rtranclp)
  next
    case (FromRedis x)
    with Some ev(2) have "good_text P J x" by simp
    from handle_text [OF this wf on alive] obtain sh where
      "redis_step P J E c (FromRedis x) (proc n) ((proc n)\<lparr>store := sh\<rparr>)" by blast
    from nstep.handles [OF _ this] Some FromRedis alive free show ?thesis
      by (intro exI [of _ "set_proc ((proc n)\<lparr>store := sh\<rparr>) (n\<lparr>busy := None, handled := handled n @ [x]\<rparr>)"])
        (simp add: r_into_rtranclp)
  qed (use Some ev(1) in simp)
qed

section \<open>A client publishes\<close>

lemma task_log_grows:
  assumes step: "sstep Ps P J E c (Task i) f f'" and pr: "prudent Ps f" and t': "tasks (broker_of f') i = Some t'"
  shows "\<exists>t l. tasks (broker_of f) i = Some t \<and> t_iolog t' = t_iolog t @ l \<and> step_sends (Task i) f f' = redis_sends l"
  using step
proof cases
  case (steps t g u k)
  then have "all_steps (utters (Ps i)) (Atomic g u k)" using pr unfolding prudent_def by blast
  then have "utters (Ps i) (task_conn (broker_of f) t) (u (task_conn (broker_of f) t))" by simp
  then show ?thesis
    using steps t' by (auto simp: utters_def step_sends_def task_conn_def put_task_def)
qed (use t' in \<open>auto simp: step_sends_def put_task_def intro: exI [of _ "[]"]\<close>)

text \<open>A node's steps that do not call Redis.\<close>

abbreviation silent_step ::
    "(nat \<Rightarrow> ('w, 'tx, 'rx, 'will) platform) \<Rightarrow> ('w, 'tx, 'rx, 'will) platform \<Rightarrow> 'v json_lib \<Rightarrow> redis_env \<Rightarrow>
     redis_client \<Rightarrow> ('w, 'tx, 'rx, 'will) node \<Rightarrow> ('w, 'tx, 'rx, 'will) node \<Rightarrow> bool" where
  "silent_step Ps P J E c n n' \<equiv> nstep Ps P J E c n n' \<and> redis_log (proc n') = redis_log (proc n)"

lemma lift_task_path:
  assumes path: "(sstep Ps P J E c (Task i))\<^sup>*\<^sup>* (sys n) f" and pr: "prudent Ps (sys n)"
    and acc: "\<And>i l ch p. env_mpsc_send (env (Ps i)) l ch p" and alive: "redis_alive (proc n)"
    and t: "tasks (proc n) i = Some t"
  shows "prudent Ps f \<and> redis_alive (broker_of f) \<and> redis_log (broker_of f) = redis_log (proc n) \<and>
    (\<forall>t'. tasks (broker_of f) i = Some t' \<longrightarrow> (\<exists>l. t_iolog t' = t_iolog t @ l \<and>
      (length (to_redis n) + length (redis_sends l) \<le> 200 \<longrightarrow>
       (silent_step Ps P J E c)\<^sup>*\<^sup>* n (n\<lparr>sys := f, to_redis := to_redis n @ map fst (redis_sends l),
          accepted := accepted n @ map fst (redis_sends l)\<rparr>))))"
  using path
proof (induction rule: rtranclp_induct)
  case base
  then show ?case using pr alive t by (auto intro!: exI [of _ "[]"])
next
  case (step y z)
  have y: "prudent Ps y" "redis_alive (broker_of y)" "redis_log (broker_of y) = redis_log (proc n)" using step.IH by auto
  have z: "prudent Ps z" "redis_alive (broker_of z)" "redis_log (broker_of z) = redis_log (proc n)"
    using prudent_step [OF step(2) y(1)] broker_steps_log [OF step(2)] y(2,3) by auto
  have "\<exists>l. t_iolog t' = t_iolog t @ l \<and> (length (to_redis n) + length (redis_sends l) \<le> 200 \<longrightarrow>
       (silent_step Ps P J E c)\<^sup>*\<^sup>* n (n\<lparr>sys := z, to_redis := to_redis n @ map fst (redis_sends l),
          accepted := accepted n @ map fst (redis_sends l)\<rparr>))" if t': "tasks (broker_of z) i = Some t'" for t'
  proof -
    from task_log_grows [OF step(2) y(1) t'] obtain t1 d where t1: "tasks (broker_of y) i = Some t1"
      "t_iolog t' = t_iolog t1 @ d" "step_sends (Task i) y z = redis_sends d" by blast
    with step.IH obtain l where l: "t_iolog t1 = t_iolog t @ l" and
      run: "length (to_redis n) + length (redis_sends l) \<le> 200 \<longrightarrow>
       (silent_step Ps P J E c)\<^sup>*\<^sup>* n (n\<lparr>sys := y, to_redis := to_redis n @ map fst (redis_sends l),
          accepted := accepted n @ map fst (redis_sends l)\<rparr>)" by blast
    let ?m = "n\<lparr>sys := y, to_redis := to_redis n @ map fst (redis_sends l), accepted := accepted n @ map fst (redis_sends l)\<rparr>"
    let ?m' = "n\<lparr>sys := z, to_redis := to_redis n @ map fst (redis_sends (l @ d)), accepted := accepted n @ map fst (redis_sends (l @ d))\<rparr>"
    have "(silent_step Ps P J E c)\<^sup>*\<^sup>* n ?m'" if room: "length (to_redis n) + length (redis_sends (l @ d)) \<le> 200"
    proof -
      have "nstep Ps P J E c ?m ?m'"
        using task_nstep [of Ps P J E c i ?m z] step(2) y acc t1(3) room by simp
      then have "silent_step Ps P J E c ?m ?m'" using y(3) z(3) by simp
      moreover have "(silent_step Ps P J E c)\<^sup>*\<^sup>* n ?m" using run room by simp
      ultimately show ?thesis by (rule rtranclp.rtrancl_into_rtrancl [rotated])
    qed
    then show ?thesis using t1(2) l by (intro exI [of _ "l @ d"]) simp
  qed
  then show ?case using z by blast
qed

lemma serve_publish_sync:
  assumes "will_delay P = Some d" "data \<noteq> []" "decode_mqtt (mqtt P) (fill_buffer data) V500 = Inr (Some (PublishP p))"
    and "p_qos p = AtMostOnce" "feat_redis (feat P)" "\<not> feat_bq_logging (feat P)" "bt_wf (topics (shared s))"
    and "env_mpsc_send (env P) (iolog s) (redis_sender (client s)) p"
  shows "serve P addr (ReadBytes data) s = (Ok (), s\<lparr>shared := snd (topics_publish (bc P) p (shared s)),
    iolog := iolog s @ [MpscSend (redis_sender (client s)) p True]\<rparr>)"
  using assms
  by (simp add: serve_branch [OF assms(1)] on_read_def handle_packet_def dispatch_def handle_publish_eq send_to_redis_def
      match_io_def then_io_def bind_io_def)

context broadcast_channel
begin

text \<open>A client of a broker at rest publishes with QoS 0: the packet is in the store and in the channel to the Redis task.\<close>

lemma node_publishes:
  fixes n :: "('w, 'tx, 'rx, 'will) node"
  assumes n: "sys n = idle (proc n)" "broker_inv V (proc n)" "redis_alive (proc n)" "length (to_redis n) < 200"
    and t: "tasks (proc n) m = Some t" and bcs: "bc P = B" "\<And>m. bc (Ps m) = B"
    and acc: "\<And>m l ch p. env_mpsc_send (env (Ps m)) l ch p"
    and d: "will_delay (Ps m) = Some d" and data: "data \<noteq> []" "length data \<le> 1024"
      "decode_mqtt (mqtt (Ps m)) (fill_buffer data) V500 = Inr (Some (PublishP p))"
    and p: "p_qos p = AtMostOnce" "feat_redis (feat (Ps m))" "\<not> feat_bq_logging (feat (Ps m))"
  shows "\<exists>b. (silent_step Ps P J E c)\<^sup>*\<^sup>* n (n\<lparr>sys := idle b, to_redis := to_redis n @ [p], accepted := accepted n @ [p]\<rparr>) \<and>
    broker_inv V b \<and> store b = snd (topics_publish B p (store (proc n))) \<and> dom (tasks b) = dom (tasks (proc n)) \<and>
    redis_alive b \<and> redis_log b = redis_log (proc n)"
proof -
  let ?b = "proc n" and ?sh = "store (proc n)"
  have wf: "bt_wf (topics ?sh)" using shared_invD(1) [OF broker_invD(1) [OF n(2)]] .
  let ?l = "t_iolog t @ [MpscSend (redis_sender (t_client t)) p True]"
  let ?s = "\<lparr>client = t_client t, shared = snd (topics_publish B p ?sh), iolog = ?l\<rparr>"
  have run: "serve (Ps m) (t_addr t) (ReadBytes data) (task_conn ?b t) = (Ok (), ?s)"
    using serve_publish_sync [OF d data(1,3) p] wf acc bcs(2) by (simp add: task_conn_def)
  define b where "b = run_task (Ps m) m (ReadBytes data) ?b"
  have b: "b = ?b\<lparr>store := snd (topics_publish B p ?sh), tasks := (tasks ?b)(m \<mapsto> t\<lparr>t_client := t_client t, t_iolog := ?l\<rparr>)\<rparr>"
    using run t by (simp add: b_def run_task_def task_conn_def)
  have "(sstep Ps P J E c (Task m))\<^sup>*\<^sup>* (idle ?b) (idle b)"
    unfolding b_def using t data(1,2) by (intro branch_simulated [OF n(2) _ _ bcs]) (simp_all add: enabled_def)
  then have path: "(sstep Ps P J E c (Task m))\<^sup>*\<^sup>* (sys n) (idle b)" using n(1) by simp
  have "prudent Ps (sys n)" by (subst n(1)) simp
  note L = lift_task_path [OF path this acc n(3) t]
  have "tasks (broker_of (idle b)) m = Some (t\<lparr>t_client := t_client t, t_iolog := ?l\<rparr>)" by (simp add: idle_def b)
  from conjunct2 [OF conjunct2 [OF conjunct2 [OF L]], rule_format, OF this] obtain d where d: "?l = t_iolog t @ d" and
    room: "length (to_redis n) + length (redis_sends d) \<le> 200 \<longrightarrow> (silent_step Ps P J E c)\<^sup>*\<^sup>* n
      (n\<lparr>sys := idle b, to_redis := to_redis n @ map fst (redis_sends d), accepted := accepted n @ map fst (redis_sends d)\<rparr>)"
    by auto
  from d have "d = [MpscSend (redis_sender (t_client t)) p True]" by simp
  with room have "(silent_step Ps P J E c)\<^sup>*\<^sup>* n (n\<lparr>sys := idle b, to_redis := to_redis n @ [p], accepted := accepted n @ [p]\<rparr>)"
    using n(4) by simp
  moreover have "broker_inv V b" unfolding b_def by (rule broker_inv_run_task [OF n(2) bcs(2)])
  moreover have "store b = snd (topics_publish B p ?sh)" "dom (tasks b) = dom (tasks ?b)" "redis_alive b" "redis_log b = redis_log ?b"
    using t n(3) by (auto simp: b)
  ultimately show ?thesis by blast
qed

end

section \<open>Starting\<close>

text \<open>Starting up reads from Redis but publishes nothing.\<close>

lemma load_key_texts: "published_texts (rlog (snd (load_key P J E k s))) = published_texts (rlog s)"
proof -
  have add: "tracks (\<lambda>s s'. rlog s' = rlog s) (on_rs m)" for m :: "(('w, 'tx) shared, mcloud_error, 'x) io"
    by (rule tracksI) (simp add: on_rs_def zoom_io_def split: prod.split)
  have "tracks (\<lambda>s s'. rlog s' = rlog s) (restore_message P m)" for m
    unfolding restore_message_def by (auto intro!: frame.rules add split: sum.split)
  then show ?thesis
    by (auto simp: load_key_def bind_io_def redis_query_def Let_def tracks_def split: sum.split option.split)
qed

lemma main_start_texts:
  assumes "main_start dbg C directive_from_str P J E be rng w l = Some (r, rs)"
  shows "published_texts (rlog rs) = published_texts l"
proof -
  have loop: "published_texts (rlog s') = published_texts (rlog s)"
    if "for_io (load_key P J E) ks s = (r, s')" for ks r s s' and P :: "('w, 'tx, 'rx, 'will) platform"
  proof -
    have "tracks (\<lambda>s s'. published_texts (rlog s') = published_texts (rlog s)) (for_io (load_key P J E) ks)"
      by (rule frame.loop) (simp add: tracks_def load_key_texts)
    from tracksD [OF this, of s r s'] that show ?thesis by simp
  qed
  have all: "published_texts (rlog s') = published_texts (rlog s)"
    if "get_all_retained_messages P J E s = Some (r, s')" for r s s' and P :: "('w, 'tx, 'rx, 'will) platform"
  proof -
    from that obtain l' where l': "get_connection E (rlog s) = Some l'"
      by (auto simp: get_all_retained_messages_def split: option.splits)
    with connection_texts [OF l'] that show ?thesis
      by (auto simp: get_all_retained_messages_def Let_def dest!: loop split: sum.splits)
  qed
  show ?thesis
    using assms
    by (auto simp: main_start_def startup_def start_redis_def Let_def dest!: all
        split: outcome.splits option.splits bool.splits prod.splits)
qed

section \<open>Properties\<close>

lemma reachable_node:
  assumes B: "broadcast_channel (bc P) V" and bcs: "\<And>i. bc (Ps i) = bc P" and J: "json_ok J"
    and reach: "(estep Ps P J E c)\<^sup>*\<^sup>* n0 n" and start: "node_inv V J c n0" "prudent Ps (sys n0)"
  shows "node_inv V J c n \<and> prudent Ps (sys n)"
  using reach
proof (induction rule: rtranclp_induct)
  case (step y z)
  from step(2) show ?case
  proof cases
    case own
    have "node_inv V J c z" using broadcast_channel.nstep_inv [OF B own _ J refl bcs] step.IH by blast
    moreover have "prudent Ps (sys z)"
      using own by cases (use step.IH prudent_step in auto)
    ultimately show ?thesis by blast
  qed (use step.IH in simp)
qed (use start in blast)

lemma started_node:
  assumes "broadcast_channel (bc P) V" "publish_builder (build_publish (mqtt P))" "ok V w"
    and "main_start dbg C directive_from_str P J E be rng w [] = Some (Ok x, rs)"
  shows "node_inv V J c (start_node (broker_start rs)) \<and> prudent Ps (sys (start_node (broker_start rs)))"
proof -
  have "shared_inv V (rs_shared rs)" using broadcast_channel.main_start_inv [OF assms(1,2) refl assms(3,4)] .
  then have "broker_inv V (broker_start rs)" by (simp add: broker_inv_def broker_start_def)
  moreover have "published_texts (redis_log (broker_start rs)) = []"
    using main_start_texts [OF assms(4)] by (simp add: broker_start_def)
  ultimately show ?thesis using node_inv_start by (auto simp: start_node_def)
qed

text \<open>
  C3. Between the clients and Redis nothing is lost, repeated, reordered or invented: after \<open>main\<close> has started the
  broker, under every interleaving of its tasks, with bounded channels, and whatever is published on Redis by others, the packets that
  the channel to the Redis task has accepted from the connections are, in order, those for which the task has called \<open>PUBLISH\<close> on the Redis
  channel \<open>sync\<close> (whatever the server answered: the code does not look at it), at most one the task is at, and those still waiting. So
  messages that come from Redis are never sent back to it. At most 200 packets and 1024 messages from Redis ever wait.
\<close>

theorem redis_channel_exact:
  assumes "broadcast_channel (bc P) V" "\<And>i. bc (Ps i) = bc P" "publish_builder (build_publish (mqtt P))" "ok V w"
    and "json_ok J" "main_start dbg C directive_from_str P J E be rng w [] = Some (Ok x, rs)"
    and "(estep Ps (P\<lparr>settings := cfg\<rparr>) J E c)\<^sup>*\<^sup>* (start_node (broker_start rs)) n"
  shows "map (sync_text J c) (accepted n) =
      published_texts (redis_log (proc n)) @ map (sync_text J c) (packet_of (busy n) @ to_redis n) \<and>
    length (to_redis n) \<le> 200 \<and> length (inbox n) \<le> 1024"
proof -
  let ?P = "P\<lparr>settings := cfg\<rparr>"
  have "broadcast_channel (bc ?P) V" "\<And>i. bc (Ps i) = bc ?P" using assms(1,2) by simp_all
  then have "node_inv V J c n"
    using reachable_node [OF _ _ assms(5,7)] started_node [OF assms(1,3,4,6)] by blast
  then show ?thesis by (simp add: node_inv_def)
qed

text \<open>A broker with the feature \<open>redis\<close>: it starts, accepts a connection and takes a publication from it.\<close>

definition redis_platform :: "(rworld, nat, nat, publish_packet) platform" where
  "redis_platform = demo_platform (default_features\<lparr>feat_redis := True\<rparr>)"

lemma redis_platform_simps [simp]:
  "bc redis_platform = rw_ops" "mqtt redis_platform = demo_lib" "env redis_platform = demo_env" "settings redis_platform = demo_settings"
  "feat redis_platform = default_features\<lparr>feat_redis := True\<rparr>" "redis_platform\<lparr>settings := demo_settings\<rparr> = redis_platform"
  by (simp_all add: redis_platform_def demo_platform_def)

lemma redis_platform_start:
  "\<exists>x. main_start dbg demo_config (\<lambda>_. None) redis_platform ref_json ref_redis demo_boot rng rw_init [] =
    Some (Ok x, \<lparr>rs_shared = topics_default rw_init, rlog = [GetConnection None, QueryKeys [''KEYS'', ''retain:*''] (Inr [])]\<rparr>)"
proof -
  have "get_all_retained_messages redis_platform ref_json ref_redis \<lparr>rs_shared = topics_default rw_init, rlog = []\<rparr> =
      Some (Ok (), \<lparr>rs_shared = topics_default rw_init, rlog = [GetConnection None, QueryKeys [''KEYS'', ''retain:*''] (Inr [])]\<rparr>)"
    by (simp add: get_all_retained_messages_def ref_up) (simp add: ref_redis_def ref_keys_def map_filter_simps)
  moreover have "\<exists>c. redis_client_new ref_redis rng host port 0 = Ok c" for host port
    by (simp add: redis_client_new_def) (simp add: ref_redis_def)
  then obtain c where "redis_client_new ref_redis rng ''redis'' 6379 0 = Ok c" by blast
  moreover have "cfg_redis demo_settings = Some \<lparr>redis_host = ''redis'', redis_port = 6379\<rparr>" by (simp add: demo_settings_def)
  ultimately show ?thesis
    by (simp add: main_start_def init_tracing_def SETTINGS_def load_def demo_config_def startup_def open_listeners_def
        load_certs_def load_keys_def demo_boot_def default_features_def start_redis_def)
qed

definition with_peer :: "string \<Rightarrow> (rworld, nat, nat, publish_packet) broker \<Rightarrow> (rworld, nat, nat, publish_packet) broker" where
  "with_peer addr = handle_new_connection (feat redis_platform) (\<lambda>_. CHR ''x'') addr (Inr ())"

lemma demo_accepts:
  assumes "sys n = idle b" "accept_step redis_platform b b'" "length (to_redis n) \<le> 200"
  shows "nstep Ps redis_platform J E c n (n\<lparr>sys := idle b'\<rparr>)"
proof -
  have "sstep Ps redis_platform J E c Acceptor (sys n) (idle b')"
    using sstep.accepts [of redis_platform "idle b" b' Ps J E c] assms by (simp add: idle_def)
  from nstep.broker_steps [OF this, of "[]"] assms(3) show ?thesis by (simp add: step_sends_def)
qed

lemma demo_connects:
  assumes "sys n = idle b" "handshake b = None" "length (to_redis n) \<le> 200"
  shows "(nstep Ps redis_platform J E c)\<^sup>*\<^sup>* n (n\<lparr>sys := idle (with_peer addr b)\<rparr>)"
proof -
  let ?b = "b\<lparr>handshake := Some addr\<rparr>"
  have "accept_step redis_platform b ?b"
    by (rule accept_step.accept_tls [where li = TcpListener]) (simp_all add: assms(2) accepts_from_def default_features_def)
  from demo_accepts [OF assms(1) this assms(3)] have s1: "nstep Ps redis_platform J E c n (n\<lparr>sys := idle ?b\<rparr>)" .
  have "accept_step redis_platform ?b (handle_new_connection (feat redis_platform) (\<lambda>_. CHR ''x'') addr (Inr ()) (?b\<lparr>handshake := None\<rparr>))"
    by (rule accept_step.handshake_done) simp
  moreover have "?b\<lparr>handshake := None\<rparr> = b" using assms(2) by (cases b) simp
  ultimately have "accept_step redis_platform ?b (with_peer addr b)" by (simp add: with_peer_def)
  from demo_accepts [of "n\<lparr>sys := idle ?b\<rparr>", OF _ this] have "nstep Ps redis_platform J E c (n\<lparr>sys := idle ?b\<rparr>) (n\<lparr>sys := idle (with_peer addr b)\<rparr>)"
    using assms(3) by simp
  with s1 show ?thesis by (rule two_steps)
qed

text \<open>The receiving task gets a message of anybody's, hands it over and begins a new round.\<close>

lemma node_receives:
  assumes "receiving n = AtConnect" "redis_alive (proc n)" "length (inbox n) < 1024"
  shows "(estep Ps P J E c)\<^sup>*\<^sup>* n (n\<lparr>inbox := inbox n @ [x]\<rparr>)"
proof -
  let ?e = "estep Ps P J E c" and ?n = "\<lambda>r. n\<lparr>receiving := r\<rparr>"
  have "?e (?n AtConnect) (?n AtSubscribe)" using nstep.receives [of "GetConnection None" "?n AtConnect" AtSubscribe Ps P J E c] by (intro estep.own) simp
  moreover have "?e (?n AtSubscribe) (?n (Subscribed []))"
    using nstep.receives [of "SubscribeTo ''sync'' None" "?n AtSubscribe" "Subscribed []" Ps P J E c] by (intro estep.own) simp
  moreover have "?e (?n (Subscribed [])) (?n (Subscribed [x]))"
    using estep.pushed [of Ps P J E c "?n (Subscribed [])" "[x]"] by (simp add: push_texts_def)
  moreover have "?e (?n (Subscribed [x])) (?n (Forwarding x))"
    using nstep.receives [of "GetMessage (Inr (Inr x))" "?n (Subscribed [x])" "Forwarding x" Ps P J E c] by (intro estep.own) simp
  moreover have "?e (?n (Forwarding x)) ((?n (Forwarding x))\<lparr>receiving := AtConnect, inbox := inbox n @ [x]\<rparr>)"
    using nstep.forwards [of "?n (Forwarding x)" x AtConnect Ps P J E c] assms(2,3) by (intro estep.own) simp
  moreover have "?n AtConnect = n" "(?n (Forwarding x))\<lparr>receiving := AtConnect, inbox := inbox n @ [x]\<rparr> = n\<lparr>inbox := inbox n @ [x]\<rparr>"
    using assms(1) by (cases n; simp)+
  ultimately show ?thesis by (metis (no_types, lifting) converse_rtranclp_into_rtranclp rtranclp.rtrancl_refl)
qed

abbreviation demo_packet :: publish_packet where
  "demo_packet \<equiv> plain_publish ''a'' [7] False"

abbreviation fresh_node :: "redis_call list \<Rightarrow> (rworld, nat, nat, publish_packet) node" where
  "fresh_node l \<equiv> start_node (broker_start \<lparr>rs_shared = topics_default rw_init, rlog = l\<rparr>)"

lemma demo_node_publishes:
  assumes "sys n = idle (proc n)" "broker_inv rw_view (proc n)" "redis_alive (proc n)" "length (to_redis n) < 200"
    and "tasks (proc n) 0 \<noteq> None"
  shows "\<exists>b. (nstep (\<lambda>_. redis_platform) redis_platform J E c)\<^sup>*\<^sup>* n
      (n\<lparr>sys := idle b, to_redis := to_redis n @ [demo_packet], accepted := accepted n @ [demo_packet]\<rparr>) \<and>
    broker_inv rw_view b \<and> tasks b 0 \<noteq> None \<and> redis_alive b \<and> redis_log b = redis_log (proc n)"
proof -
  obtain t where t: "tasks (proc n) 0 = Some t" using assms(5) by blast
  have d: "will_delay redis_platform = Some 32" by (simp add: redis_platform_def demo_delay)
  have "broadcast_channel (bc redis_platform) rw_view" using demo_bc by simp
  from broadcast_channel.node_publishes [where Ps = "\<lambda>_. redis_platform" and P = redis_platform and data = "[0x30]",
      OF this assms(1-4) t refl refl _ d, of demo_packet J E c]
  obtain b where b: "(silent_step (\<lambda>_. redis_platform) redis_platform J E c)\<^sup>*\<^sup>* n
      (n\<lparr>sys := idle b, to_redis := to_redis n @ [demo_packet], accepted := accepted n @ [demo_packet]\<rparr>)"
    "broker_inv rw_view b" "dom (tasks b) = dom (tasks (proc n))" "redis_alive b" "redis_log b = redis_log (proc n)"
    by (auto simp: demo_env_def demo_lib_def fill_buffer_def default_features_def)
  have "(nstep (\<lambda>_. redis_platform) redis_platform J E c)\<^sup>*\<^sup>* n
      (n\<lparr>sys := idle b, to_redis := to_redis n @ [demo_packet], accepted := accepted n @ [demo_packet]\<rparr>)"
    using b(1) by (rule rtranclp_mono [THEN predicate2D, rotated]) blast
  moreover have "tasks b 0 \<noteq> None" using b(3) assms(5) by (metis domIff)
  ultimately show ?thesis using b by blast
qed

lemma demo_run:
  assumes up: "get_connection E l = Some l'"
  shows "\<exists>b d. (nstep (\<lambda>_. redis_platform) redis_platform ref_json E c)\<^sup>*\<^sup>* (fresh_node l)
      ((fresh_node l)\<lparr>sys := idle b, accepted := [demo_packet]\<rparr>) \<and>
    broker_inv rw_view b \<and> tasks b 0 \<noteq> None \<and> redis_alive b \<and> redis_log b = l @ d \<and> sync_calls ref_json c demo_packet d"
proof -
  let ?b0 = "broker_start \<lparr>rs_shared = topics_default rw_init, rlog = l\<rparr> :: (rworld, nat, nat, publish_packet) broker"
  let ?b1 = "with_peer ''peer'' ?b0" and ?step = "nstep (\<lambda>_. redis_platform) redis_platform ref_json E c"
  let ?n1 = "(fresh_node l)\<lparr>sys := idle ?b1\<rparr>"
  have r1: "?step\<^sup>*\<^sup>* (fresh_node l) ?n1"
    by (rule demo_connects) (simp_all add: start_node_def broker_start_def)
  have "broker_inv rw_view ?b0" using default_inv [OF rw_ok_init] by (simp add: broker_inv_def broker_start_def)
  then have inv: "broker_inv rw_view ?b1" unfolding with_peer_def by (rule broker_inv_accept)
  have b1: "redis_alive ?b1" "tasks ?b1 0 \<noteq> None" "redis_log ?b1 = l"
    by (simp_all add: with_peer_def handle_new_connection_def broker_start_def default_features_def Let_def)
  have n1: "sys ?n1 = idle (proc ?n1)" "proc ?n1 = ?b1" "to_redis ?n1 = []" "busy ?n1 = None" "accepted ?n1 = []"
    by (simp_all add: idle_def start_node_def)
  from demo_node_publishes [of ?n1 ref_json E c] n1 inv b1 obtain b where
    r2: "?step\<^sup>*\<^sup>* ?n1 (?n1\<lparr>sys := idle b, to_redis := [demo_packet], accepted := [demo_packet]\<rparr>)"
    and b: "broker_inv rw_view b" "tasks b 0 \<noteq> None" "redis_alive b" "redis_log b = l" by auto
  define n2 where "n2 = ?n1\<lparr>sys := idle b, to_redis := [demo_packet], accepted := [demo_packet]\<rparr>"
  have n2: "redis_log (proc n2) = l" "redis_alive (proc n2)" "busy n2 = None" "to_redis n2 = [demo_packet]"
    using b n1 by (simp_all add: idle_def n2_def)
  have "get_connection E (redis_log (proc n2)) = Some l'" "feat_redis (feat redis_platform)" using up n2(1) by simp_all
  from publishes_head [OF ref_json_ok this n2(2-4), of "\<lambda>_. redis_platform" c] obtain d where
    r3: "?step\<^sup>*\<^sup>* n2 (n2\<lparr>sys := relog (l @ d) (sys n2), to_redis := []\<rparr>)" and d: "sync_calls ref_json c demo_packet d"
    unfolding n2(1) by blast
  have eq: "n2\<lparr>sys := relog (l @ d) (sys n2), to_redis := []\<rparr> = (fresh_node l)\<lparr>sys := idle (b\<lparr>redis_log := l @ d\<rparr>), accepted := [demo_packet]\<rparr>"
    by (simp add: n2_def start_node_def relog_def idle_def)
  have "?step\<^sup>*\<^sup>* (fresh_node l) ((fresh_node l)\<lparr>sys := idle (b\<lparr>redis_log := l @ d\<rparr>), accepted := [demo_packet]\<rparr>)"
    using r1 r2 [folded n2_def] r3 unfolding eq by (meson rtranclp_trans)
  moreover have "broker_inv rw_view (b\<lparr>redis_log := l @ d\<rparr>)" using b(1) by (simp add: broker_inv_def)
  ultimately show ?thesis using b d by (intro exI [of _ "b\<lparr>redis_log := l @ d\<rparr>"] exI [of _ d]) simp
qed

theorem redis_channel_exact_witness:
  "\<exists>n. (estep (\<lambda>_. redis_platform) (redis_platform\<lparr>settings := demo_settings\<rparr>) ref_json ref_redis (demo_broker ''A''))\<^sup>*\<^sup>*
       (fresh_node [GetConnection None, QueryKeys [''KEYS'', ''retain:*''] (Inr [])]) n \<and>
     accepted n = [demo_packet, demo_packet] \<and> to_redis n = [demo_packet] \<and> inbox n = [''hello''] \<and>
     published_texts (redis_log (proc n)) = [sync_text ref_json (demo_broker ''A'') demo_packet]"
proof -
  let ?l = "[GetConnection None, QueryKeys [''KEYS'', ''retain:*''] (Inr [])]"
  let ?P = "redis_platform\<lparr>settings := demo_settings\<rparr>" and ?c = "demo_broker ''A''"
  let ?step = "estep (\<lambda>_. redis_platform) redis_platform ref_json ref_redis ?c"
  obtain b d where r1: "(nstep (\<lambda>_. redis_platform) redis_platform ref_json ref_redis ?c)\<^sup>*\<^sup>* (fresh_node ?l)
      ((fresh_node ?l)\<lparr>sys := idle b, accepted := [demo_packet]\<rparr>)"
    and b: "broker_inv rw_view b" "tasks b 0 \<noteq> None" "redis_alive b" using demo_run [OF ref_up] by blast
  let ?n1 = "(fresh_node ?l)\<lparr>sys := idle b, accepted := [demo_packet]\<rparr>"
  have n1: "sys ?n1 = idle (proc ?n1)" "proc ?n1 = b" "to_redis ?n1 = []" by (simp_all add: idle_def start_node_def)
  from demo_node_publishes [of ?n1 ref_json ref_redis ?c] n1 b obtain b2 where
    r2: "(nstep (\<lambda>_. redis_platform) redis_platform ref_json ref_redis ?c)\<^sup>*\<^sup>* ?n1
      (?n1\<lparr>sys := idle b2, to_redis := [demo_packet], accepted := [demo_packet, demo_packet]\<rparr>)" and b2: "redis_alive b2" by auto
  let ?n2 = "?n1\<lparr>sys := idle b2, to_redis := [demo_packet], accepted := [demo_packet, demo_packet]\<rparr>"
  have "receiving ?n2 = AtConnect" "redis_alive (proc ?n2)" "inbox ?n2 = []" using b2 by (simp_all add: start_node_def idle_def)
  then have "?step\<^sup>*\<^sup>* ?n2 (?n2\<lparr>inbox := [''hello'']\<rparr>)" using node_receives [of ?n2] by simp
  with esteps [OF r1] esteps [OF r2] have run: "?step\<^sup>*\<^sup>* (fresh_node ?l) (?n2\<lparr>inbox := [''hello'']\<rparr>)" by (meson rtranclp_trans)
  obtain x where start: "main_start undefined demo_config (\<lambda>_. None) redis_platform ref_json ref_redis demo_boot undefined rw_init [] =
      Some (Ok x, \<lparr>rs_shared = topics_default rw_init, rlog = ?l\<rparr>)" using redis_platform_start by blast
  have "broadcast_channel (bc redis_platform) rw_view" "publish_builder (build_publish (mqtt redis_platform))"
    using demo_bc demo_builder by simp_all
  from redis_channel_exact [OF this(1) refl this(2) rw_ok_init ref_json_ok start, where cfg = demo_settings, simplified redis_platform_simps, OF run]
  show ?thesis using run
    by (intro exI [of _ "?n2\<lparr>inbox := [''hello'']\<rparr>"]) (simp add: start_node_def)
qed

text \<open>
  C8. The bounded channel and the mutex cannot deadlock: whatever state the tasks of a broker have got into, full
  channel included, and whatever has come from Redis, as long as Redis can be reached, the Redis task is alive and what it is at
  parses, all branches that have begun can be run to their ends and all accepted packets be published, without any
  further event. The mutex is never held while a connection waits for the channel, and the Redis task
  holds nothing while it waits for the mutex.
\<close>

theorem redis_channel_no_deadlock:
  assumes B: "broadcast_channel (bc P) V" and bcs: "\<And>i. bc (Ps i) = bc P" and J: "json_ok J"
    and b: "broker_inv V b" "published_texts (redis_log b) = []"
    and reach: "(estep Ps P J E c)\<^sup>*\<^sup>* (start_node b) n" and alive: "redis_alive (proc n)"
    and up: "\<And>l. \<exists>l'. get_connection E l = Some l'" and on: "feat_redis (feat P)"
    and acc: "\<And>i l ch p. env_mpsc_send (env (Ps i)) l ch p"
    and parses: "\<And>x. busy n = Some (FromRedis x) \<Longrightarrow> good_text P J x"
  shows "\<exists>n' b'. (nstep Ps P J E c)\<^sup>*\<^sup>* n n' \<and> sys n' = idle b' \<and> busy n' = None \<and> to_redis n' = []"
proof -
  have start: "node_inv V J c (start_node b)" "prudent Ps (sys (start_node b))"
    using node_inv_start [OF b] by (simp_all add: start_node_def)
  have inv: "node_inv V J c m \<and> prudent Ps (sys m)" if "(nstep Ps P J E c)\<^sup>*\<^sup>* n m" for m
    using reachable_node [OF B bcs J rtranclp_trans [OF reach esteps [OF that]] start] .
  have path: "\<exists>b'. (solo_step Ps P J E c)\<^sup>*\<^sup>* (sys m) (idle b')" if "(nstep Ps P J E c)\<^sup>*\<^sup>* n m" for m
    using inv [OF that] by (intro broadcast_channel.quiesces [OF B _ refl bcs]) (simp add: node_inv_def)
  note I = inv [OF rtranclp.rtrancl_refl, unfolded node_inv_def]
  obtain b1 where "(solo_step Ps P J E c)\<^sup>*\<^sup>* (sys n) (idle b1)" using path by blast
  from broadcast_channel.releases [OF B this refl _ _ alive acc refl bcs] I obtain g where
    n1: "(nstep Ps P J E c)\<^sup>*\<^sup>* n (n\<lparr>sys := g\<rparr>)" "holder g = None" "redis_alive (broker_of g)" by blast
  have "sched_inv V g" using inv [OF n1(1)] by (simp add: node_inv_def)
  then have wf: "bt_wf (topics (store (broker_of g)))" using sched_invD(1) broker_invD(1) shared_invD(1) by blast
  have "\<exists>m. (nstep Ps P J E c)\<^sup>*\<^sup>* (n\<lparr>sys := g\<rparr>) m \<and> busy m = None \<and> redis_alive (proc m)"
    using n1(2,3) wf I parses by (intro finish_busy [OF J up on]) auto
  then obtain m where m: "(nstep Ps P J E c)\<^sup>*\<^sup>* (n\<lparr>sys := g\<rparr>) m" "busy m = None" "redis_alive (proc m)" by blast
  obtain l where "(nstep Ps P J E c)\<^sup>*\<^sup>* m (m\<lparr>sys := relog l (sys m), to_redis := []\<rparr>)"
    using drain [OF J up on m(3,2)] by blast
  moreover define m1 where "m1 = m\<lparr>sys := relog l (sys m), to_redis := []\<rparr>"
  ultimately have n2: "(nstep Ps P J E c)\<^sup>*\<^sup>* n m1"
    using n1(1) m(1) by (meson rtranclp_trans)
  obtain b2 where b2: "(solo_step Ps P J E c)\<^sup>*\<^sup>* (sys m1) (idle b2)" using path [OF n2] by blast
  have "\<exists>m' l'. (nstep Ps P J E c)\<^sup>*\<^sup>* m1 m' \<and> sys m' = relog l' (idle b2) \<and> busy m' = None \<and> to_redis m' = []"
    using broadcast_channel.follows [OF B b2 _ refl _ _ _ J up on acc] inv [OF n2] m(2,3) by (auto simp: m1_def)
  then obtain m' l' where "(nstep Ps P J E c)\<^sup>*\<^sup>* m1 m'" "sys m' = relog l' (idle b2)" "busy m' = None" "to_redis m' = []"
    by blast
  moreover have "relog l' (idle b2) = idle (b2\<lparr>redis_log := l'\<rparr>)" by (simp add: relog_def idle_def)
  ultimately show ?thesis using n2 by (metis rtranclp_trans)
qed

theorem redis_channel_no_deadlock_witness:
  "\<exists>n n' b'. (estep (\<lambda>_. redis_platform) redis_platform ref_json ref_redis (demo_broker ''A''))\<^sup>*\<^sup>* (fresh_node []) n \<and>
     to_redis n = [demo_packet] \<and>
     (nstep (\<lambda>_. redis_platform) redis_platform ref_json ref_redis (demo_broker ''A''))\<^sup>*\<^sup>* n n' \<and>
     sys n' = idle b' \<and> busy n' = None \<and> to_redis n' = []"
proof -
  let ?c = "demo_broker ''A''" and ?step = "nstep (\<lambda>_. redis_platform) redis_platform ref_json ref_redis (demo_broker ''A'')"
  obtain b where r1: "?step\<^sup>*\<^sup>* (fresh_node []) ((fresh_node [])\<lparr>sys := idle b, accepted := [demo_packet]\<rparr>)"
    and b: "broker_inv rw_view b" "tasks b 0 \<noteq> None" "redis_alive b" using demo_run [OF ref_up] by blast
  let ?n1 = "(fresh_node [])\<lparr>sys := idle b, accepted := [demo_packet]\<rparr>"
  have n1: "sys ?n1 = idle (proc ?n1)" "proc ?n1 = b" "to_redis ?n1 = []" by (simp_all add: idle_def start_node_def)
  from demo_node_publishes [of ?n1 ref_json ref_redis ?c] n1 b obtain b2 where
    r2: "?step\<^sup>*\<^sup>* ?n1 (?n1\<lparr>sys := idle b2, to_redis := [demo_packet], accepted := [demo_packet, demo_packet]\<rparr>)"
    and b2: "redis_alive b2" by auto
  define n where "n = ?n1\<lparr>sys := idle b2, to_redis := [demo_packet], accepted := [demo_packet, demo_packet]\<rparr>"
  have n: "to_redis n = [demo_packet]" "redis_alive (proc n)" "busy n = None" using b2 by (simp_all add: n_def idle_def start_node_def)
  have reach: "(estep (\<lambda>_. redis_platform) redis_platform ref_json ref_redis ?c)\<^sup>*\<^sup>* (fresh_node []) n"
    unfolding n_def by (rule esteps [OF rtranclp_trans [OF r1 r2]])
  have "\<exists>n' b'. ?step\<^sup>*\<^sup>* n n' \<and> sys n' = idle b' \<and> busy n' = None \<and> to_redis n' = []"
  proof (rule redis_channel_no_deadlock [OF _ _ ref_json_ok _ _ reach n(2)])
    show "broadcast_channel (bc redis_platform) rw_view" using demo_bc by simp
    show "broker_inv rw_view (broker_start \<lparr>rs_shared = topics_default rw_init, rlog = []\<rparr>)"
      using default_inv [OF rw_ok_init] by (simp add: broker_inv_def broker_start_def)
    show "\<exists>l'. get_connection ref_redis l = Some l'" for l by (simp add: ref_up)
  qed (simp_all add: demo_env_def broker_start_def n(3))
  with reach n(1) show ?thesis by blast
qed

end
