(* ===== verification/Cluster.thy ===== *)
theory Cluster
  imports Channels
begin

text \<open>
  Several brokers on one Redis server: the purpose of \<open>src/src/redis_client.rs\<close>. Each broker is a node of theory
  \<open>Channels\<close>; a step of the cluster is a step of one of them, together with what its calls do to the server: a
  \<open>PUBLISH\<close> on the channel \<open>sync\<close> is added to the subscriptions that exist at that moment, the publisher's own
  included, and a \<open>SET\<close> is stored. The theory shows in which order messages travel, that a publication
  can reach the subscribers of all other brokers, that messages can get lost between subscriptions, and that the retained
  messages of two brokers can end up different.
\<close>

section \<open>The system\<close>

text \<open>\<open>sync_log\<close> is what has reached the channel \<open>sync\<close>, with the broker it came from; \<open>stored\<close> is the key-value store.\<close>

record ('w, 'tx, 'rx, 'will) cluster =
  nodes :: "nat \<Rightarrow> ('w, 'tx, 'rx, 'will) node"
  sync_log :: "(nat \<times> string) list"
  stored :: "string \<Rightarrow> string option"

text \<open>
  The result of \<open>PUBLISH\<close> is not looked at. What was answered has reached the server; when an error was reported
  the message may have reached it or not.
\<close>

fun acknowledged_text :: "redis_call \<Rightarrow> string option" where
  "acknowledged_text (Query [cmd, ch, x] (Inr r)) = (if cmd = ''PUBLISH'' \<and> ch = ''sync'' then Some x else None)"
| "acknowledged_text _ = None"

definition reaches :: "redis_call list \<Rightarrow> string list \<Rightarrow> bool" where
  "reaches l xs \<longleftrightarrow> subseq xs (published_texts l) \<and> subseq (List.map_filter acknowledged_text l) xs"

inductive cstep ::
    "(nat \<Rightarrow> nat \<Rightarrow> ('w, 'tx, 'rx, 'will) platform) \<Rightarrow> (nat \<Rightarrow> ('w, 'tx, 'rx, 'will) platform) \<Rightarrow> 'v json_lib \<Rightarrow>
     (nat \<Rightarrow> redis_env) \<Rightarrow> (nat \<Rightarrow> redis_client) \<Rightarrow> ('w, 'tx, 'rx, 'will) cluster \<Rightarrow> ('w, 'tx, 'rx, 'will) cluster \<Rightarrow> bool"
  for Ps P J E c where
  node_steps: "nstep (Ps i) (P i) J (E i) (c i) (nodes k i) n \<Longrightarrow>
    redis_log (proc n) = redis_log (proc (nodes k i)) @ l \<Longrightarrow> reaches l xs \<Longrightarrow>
    cstep Ps P J E c k
      \<lparr>nodes = (\<lambda>j. push_texts xs (if j = i then n else nodes k j)), sync_log = sync_log k @ map (Pair i) xs,
       stored = fold store_step l (stored k)\<rparr>"

inductive_cases cstep_cases: "cstep Ps P J E c k k'"

definition start_cluster :: "(nat \<Rightarrow> ('w, 'tx, 'rx, 'will) broker) \<Rightarrow> (string \<Rightarrow> string option) \<Rightarrow> ('w, 'tx, 'rx, 'will) cluster" where
  "start_cluster b S = \<lparr>nodes = (\<lambda>i. start_node (b i)), sync_log = [], stored = S\<rparr>"

section \<open>The order of messages\<close>

fun buffered :: "receiving \<Rightarrow> string list" where
  "buffered (Subscribed ms) = ms"
| "buffered _ = []"

fun in_hand :: "receiving \<Rightarrow> string list" where
  "in_hand (Forwarding m) = [m]"
| "in_hand _ = []"

text \<open>The messages from Redis a broker has got, from the first it has handled to the last it has taken from a subscription.\<close>

definition got :: "('w, 'tx, 'rx, 'will) node \<Rightarrow> string list" where
  "got n = handled n @ text_of (busy n) @ inbox n @ in_hand (receiving n)"

definition in_order :: "string list \<Rightarrow> ('w, 'tx, 'rx, 'will) node \<Rightarrow> bool" where
  "in_order xs n \<longleftrightarrow> (\<exists>pre. xs = pre @ buffered (receiving n) \<and> subseq (got n) pre)"

lemma subseq_snoc: "subseq xs ys \<Longrightarrow> subseq (xs @ [m]) (ys @ m # zs)"
  by (simp add: list_emb_append_mono)

lemma in_order_recv:
  assumes "recv_call call (receiving n) = Some r" "\<forall>m a. call \<noteq> Forward m a" "in_order xs n"
  shows "in_order xs (n\<lparr>receiving := r\<rparr>)"
proof -
  from assms(3) obtain pre where pre: "xs = pre @ buffered (receiving n)" "subseq (got n) pre"
    by (auto simp: in_order_def)
  define g where "g = handled n @ text_of (busy n) @ inbox n"
  have got: "got (n\<lparr>receiving := r\<rparr>) = g @ in_hand r" "subseq (g @ in_hand (receiving n)) pre"
    using pre(2) by (simp_all add: got_def g_def)
  have "\<exists>pre'. xs = pre' @ buffered r \<and> subseq (g @ in_hand r) pre'"
    using assms(1,2) pre(1) got(2)
    by (cases "(call, receiving n)" rule: recv_call.cases)
      (auto split: if_splits intro: subseq_rev_drop_many subseq_snoc)
  then show ?thesis by (simp add: in_order_def got)
qed

lemma in_order_step:
  assumes "nstep Ps P J E c n n'" "in_order xs n"
  shows "in_order xs n'"
  using assms(1)
proof cases
  case (receives call r)
  then show ?thesis using in_order_recv [OF receives(2,3) assms(2)] by simp
next
  case (forward_fails m r)
  from assms(2) obtain pre where "xs = pre" "subseq (got n' @ [m]) pre"
    using forward_fails by (auto simp: in_order_def got_def)
  moreover from this(2) have "subseq (got n') pre" by (meson prefixI prefix_imp_subseq subseq_order.order_trans)
  ultimately show ?thesis using forward_fails by (auto simp: in_order_def)
qed (use assms(2) in \<open>auto simp: in_order_def got_def\<close>)

lemma in_order_push: "in_order ys n \<Longrightarrow> in_order (ys @ xs) (push_texts xs n)"
  by (auto simp: in_order_def got_def push_texts_def intro: subseq_rev_drop_many split: receiving.split)

section \<open>The invariant of the cluster\<close>

definition origin :: "nat \<Rightarrow> (nat \<times> string) list \<Rightarrow> string list" where
  "origin i l = map snd (filter (\<lambda>x. fst x = i) l)"

lemma origin_append [simp]:
  "origin i (l @ map (Pair j) xs) = origin i l @ (if i = j then xs else [])" "origin i [] = []"
  by (simp_all add: origin_def filter_map comp_def)

text \<open>A stored message is the text of a retained packet that some broker accepted from a client for that topic.\<close>

definition stored_by_brokers ::
    "'v json_lib \<Rightarrow> (nat \<Rightarrow> redis_client) \<Rightarrow> ('w, 'tx, 'rx, 'will) cluster \<Rightarrow> bool" where
  "stored_by_brokers J c k \<longleftrightarrow> (\<forall>t v. stored k (retain_key t) = Some v \<longrightarrow>
     (\<exists>i p. p \<in> set (accepted (nodes k i)) \<and> p_retain p \<and> topic_name (p_topic p) = t \<and> v = sync_text J (c i) p))"

definition cluster_inv ::
    "('w, 'tx, 'rx) broadcast_view \<Rightarrow> 'v json_lib \<Rightarrow> (nat \<Rightarrow> redis_client) \<Rightarrow> ('w, 'tx, 'rx, 'will) cluster \<Rightarrow> bool" where
  "cluster_inv V J c k \<longleftrightarrow>
     (\<forall>i. node_inv V J (c i) (nodes k i) \<and> in_order (map snd (sync_log k)) (nodes k i) \<and>
        set (packet_of (busy (nodes k i)) @ to_redis (nodes k i)) \<subseteq> set (accepted (nodes k i)) \<and>
        subseq (origin i (sync_log k)) (published_texts (redis_log (proc (nodes k i))))) \<and>
     stored_by_brokers J c k"

lemma stored_kept:
  assumes k: "stored_by_brokers J c k" and acc: "\<And>j. set (accepted (nodes k j)) \<subseteq> set (accepted (nodes k' j))"
    and st: "stored k' = stored k \<or> (\<exists>p. p \<in> set (accepted (nodes k' i)) \<and> p_retain p \<and>
       stored k' = (stored k)(retain_key (topic_name (p_topic p)) \<mapsto> sync_text J (c i) p))"
  shows "stored_by_brokers J c k'"
  unfolding stored_by_brokers_def
proof (intro allI impI)
  fix t v assume v: "stored k' (retain_key t) = Some v"
  show "\<exists>i p. p \<in> set (accepted (nodes k' i)) \<and> p_retain p \<and> topic_name (p_topic p) = t \<and> v = sync_text J (c i) p"
  proof (cases "stored k (retain_key t) = Some v")
    case True
    with k acc show ?thesis unfolding stored_by_brokers_def by blast
  next
    case False
    with st v obtain p where "p \<in> set (accepted (nodes k' i))" "p_retain p"
      "stored k' = (stored k)(retain_key (topic_name (p_topic p)) \<mapsto> sync_text J (c i) p)" by auto
    with v False show ?thesis by (intro exI [of _ i] exI [of _ p]) (auto split: if_splits)
  qed
qed

lemma nstep_accepted:
  assumes "nstep Ps P J E c n n'" "set (packet_of (busy n) @ to_redis n) \<subseteq> set (accepted n)"
  shows "set (packet_of (busy n') @ to_redis n') \<subseteq> set (accepted n')" "set (accepted n) \<subseteq> set (accepted n')"
proof -
  have "set (packet_of (busy n') @ to_redis n') \<subseteq> set (accepted n') \<and> set (accepted n) \<subseteq> set (accepted n')"
    using assms(1) by cases (use assms(2) in auto)
  then show "set (packet_of (busy n') @ to_redis n') \<subseteq> set (accepted n')" "set (accepted n) \<subseteq> set (accepted n')" by auto
qed

text \<open>The calls of a step: none, or those of publishing the packet the Redis task was at.\<close>

lemma nstep_calls:
  assumes "nstep Ps P J E c n n'" "json_ok J" "redis_log (proc n') = redis_log (proc n) @ l"
  shows "l = [] \<or> (\<exists>p. busy n = Some (FromBroker p) \<and> sync_calls J c p l)"
  using assms(1)
proof cases
  case (broker_steps a f ps)
  then show ?thesis using broker_steps_log(1) [OF broker_steps(2,3)] assms(3) by simp
next
  case (publishes p b)
  with take_packet_only [OF publishes(3) assms(2)] assms(3) show ?thesis by auto
next
  case (handles x b)
  then show ?thesis using handle_text_log [OF handles(3)] assms(3) by simp
qed (use assms(3) in auto)

context broadcast_channel
begin

lemma cstep_inv:
  fixes k :: "('w, 'tx, 'rx, 'will) cluster"
  assumes step: "cstep Ps P J E c k k'" and inv: "cluster_inv V J c k" and J: "json_ok J"
    and bcs: "\<And>i. bc (P i) = B" "\<And>i j. bc (Ps i j) = B"
  shows "cluster_inv V J c k'"
  using step
proof cases
  case (node_steps i n l xs)
  note I = inv [unfolded cluster_inv_def]
  have n: "node_inv V J (c i) n" using nstep_inv [OF node_steps(2) _ J bcs] I by blast
  note acc = nstep_accepted [OF node_steps(2)]
  have calls: "l = [] \<or> (\<exists>p. busy (nodes k i) = Some (FromBroker p) \<and> sync_calls J (c i) p l)"
    by (rule nstep_calls [OF node_steps(2) J node_steps(3)])
  have stored: "stored_by_brokers J c k'"
  proof (rule stored_kept)
    show "stored_by_brokers J c k" using I by blast
    show "set (accepted (nodes k j)) \<subseteq> set (accepted (nodes k' j))" for j using acc(2) I by (simp add: node_steps(1))
    show "stored k' = stored k \<or> (\<exists>p. p \<in> set (accepted (nodes k' i)) \<and> p_retain p \<and>
         stored k' = (stored k)(retain_key (topic_name (p_topic p)) \<mapsto> sync_text J (c i) p))"
    proof (cases "l = []")
      case True
      then show ?thesis by (simp add: node_steps(1))
    next
      case False
      with calls obtain p where p: "busy (nodes k i) = Some (FromBroker p)" "sync_calls J (c i) p l" by blast
      have "p \<in> set (accepted (nodes k i))" using I p(1) by (metis Un_iff list.set_intros(1) packet_of.simps(1) set_append subsetD)
      then have "p \<in> set (accepted (nodes k' i))" using acc(2) I by (auto simp: node_steps(1))
      moreover have "stored k' = stored k \<or>
          p_retain p \<and> stored k' = (stored k)(retain_key (topic_name (p_topic p)) \<mapsto> sync_text J (c i) p)"
        using p(2) by (simp add: node_steps(1) sync_calls_def)
      ultimately show ?thesis by blast
    qed
  qed
  have "in_order (map snd (sync_log k')) (nodes k' j)" for j
    using in_order_push [of "map snd (sync_log k)"] in_order_step [OF node_steps(2)] I
    by (auto simp: node_steps(1) comp_def)
  moreover have "subseq (origin j (sync_log k')) (published_texts (redis_log (proc (nodes k' j))))" for j
    using I node_steps(3,4) by (auto simp: node_steps(1) reaches_def intro: list_emb_append_mono)
  ultimately show ?thesis
    using n I acc(1) stored unfolding cluster_inv_def by (simp add: node_steps(1))
qed

lemma reachable_cluster:
  fixes k :: "('w, 'tx, 'rx, 'will) cluster"
  assumes "(cstep Ps P J E c)\<^sup>*\<^sup>* k0 k" "cluster_inv V J c k0" "json_ok J"
    "\<And>i. bc (P i) = B" "\<And>i j. bc (Ps i j) = B"
  shows "cluster_inv V J c k"
  using assms(1,2) by (induction rule: rtranclp_induct) (use cstep_inv assms(3-5) in blast)+

end

section \<open>Runs of the cluster\<close>

definition set_node :: "nat \<Rightarrow> ('w, 'tx, 'rx, 'will) node \<Rightarrow> ('w, 'tx, 'rx, 'will) cluster \<Rightarrow> ('w, 'tx, 'rx, 'will) cluster" where
  "set_node i n k = \<lparr>nodes = (nodes k)(i := n), sync_log = sync_log k, stored = stored k\<rparr>"

text \<open>The server has got the text \<open>x\<close> from broker \<open>i\<close>.\<close>

definition server_got ::
    "nat \<Rightarrow> string \<Rightarrow> (string \<Rightarrow> string option) \<Rightarrow> ('w, 'tx, 'rx, 'will) cluster \<Rightarrow> ('w, 'tx, 'rx, 'will) cluster" where
  "server_got i x S k =
     \<lparr>nodes = (\<lambda>j. push_texts [x] (nodes k j)), sync_log = sync_log k @ [(i, x)], stored = S\<rparr>"

lemma nodes_simps [simp]:
  "nodes (set_node i n k) j = (if j = i then n else nodes k j)" "nodes (server_got i x S k) j = push_texts [x] (nodes k j)"
  "set_node i n (set_node i m k) = set_node i n k" "set_node i (nodes k i) k = k"
  by (simp_all add: set_node_def server_got_def)

lemma cstep_silent:
  assumes "nstep (Ps i) (P i) J (E i) (c i) (nodes k i) n" "redis_log (proc n) = redis_log (proc (nodes k i))"
  shows "cstep Ps P J E c k (set_node i n k)"
proof -
  have "reaches [] []" by (simp add: reaches_def map_filter_simps)
  with cstep.node_steps [where Ps = Ps and P = P and E = E and c = c and i = i and l = "[]" and xs = "[]", OF assms(1)] assms(2)
  show ?thesis by (simp add: set_node_def fun_upd_def)
qed

text \<open>A sequence of steps of one node that do not call Redis.\<close>

lemma csteps_silent:
  assumes "(\<lambda>n n'. nstep (Ps i) (P i) J (E i) (c i) n n' \<and> redis_log (proc n') = redis_log (proc n))\<^sup>*\<^sup>* (nodes k i) n"
  shows "(cstep Ps P J E c)\<^sup>*\<^sup>* k (set_node i n k)"
  using assms
proof (induction rule: rtranclp_induct)
  case (step y z)
  have "cstep Ps P J E c (set_node i y k) (set_node i z (set_node i y k))" using step(2) by (intro cstep_silent) simp_all
  with step.IH show ?case by simp
qed simp

text \<open>The Redis task publishes the packet at the head of its channel, and the server has it.\<close>

lemma acknowledged_published: "subseq (List.map_filter acknowledged_text l) (published_texts l)"
proof (induction l)
  case (Cons e l)
  then show ?case by (cases e rule: acknowledged_text.cases) (auto simp: map_filter_simps split: option.split)
qed (simp add: map_filter_simps)

lemma cluster_publishes:
  assumes J: "json_ok J" and up: "\<And>l. \<exists>l'. get_connection (E i) l = Some l'" and on: "feat_redis (feat (P i))"
    and n: "busy (nodes k i) = None" "redis_alive (proc (nodes k i))" "to_redis (nodes k i) = p # q"
  shows "\<exists>l S. (cstep Ps P J E c)\<^sup>*\<^sup>* k (server_got i (sync_text J (c i) p) S
    (set_node i ((nodes k i)\<lparr>sys := relog l (sys (nodes k i)), to_redis := q\<rparr>) k))"
proof -
  let ?n = "(nodes k i)\<lparr>to_redis := q, busy := Some (FromBroker p)\<rparr>" and ?x = "sync_text J (c i) p"
  let ?k = "set_node i ?n k"
  have s1: "cstep Ps P J E c k ?k" using nstep.takes [OF on n(2,1,3)] by (rule cstep_silent) simp
  obtain l where "get_connection (E i) (redis_log (proc (nodes k i))) = Some l" using up by blast
  from take_packet [OF J this on n(2)] obtain d where
    d: "redis_step (P i) J (E i) (c i) (FromBroker p) (proc (nodes k i))
        ((proc (nodes k i))\<lparr>redis_log := redis_log (proc (nodes k i)) @ d\<rparr>)" "sync_calls J (c i) p d" by blast
  let ?l = "redis_log (proc (nodes k i)) @ d"
  let ?m = "(nodes k i)\<lparr>sys := relog ?l (sys (nodes k i)), to_redis := q\<rparr>"
  have "set_proc ((proc (nodes k i))\<lparr>redis_log := ?l\<rparr>) ((nodes k i)\<lparr>to_redis := q, busy := None\<rparr>) = ?m"
    using n(1) by (cases "nodes k i") (simp add: set_proc_def relog_eq)
  with nstep.publishes [of ?n p "P i" J "E i" "c i" "(proc (nodes k i))\<lparr>redis_log := ?l\<rparr>" "Ps i"] d(1)
  have "nstep (Ps i) (P i) J (E i) (c i) (nodes ?k i) ?m" by simp
  moreover have "redis_log (proc ?m) = redis_log (proc (nodes ?k i)) @ d" by (simp add: relog_def)
  moreover have "reaches d [?x]" using acknowledged_published [of d] d(2) by (simp add: reaches_def sync_calls_def)
  ultimately have s2: "cstep Ps P J E c ?k \<lparr>nodes = (\<lambda>j. push_texts [?x] (if j = i then ?m else nodes ?k j)),
      sync_log = sync_log ?k @ map (Pair i) [?x], stored = fold store_step d (stored ?k)\<rparr>"
    by (rule cstep.node_steps)
  have eq: "\<lparr>nodes = (\<lambda>j. push_texts [?x] (if j = i then ?m else nodes ?k j)),
      sync_log = sync_log ?k @ map (Pair i) [?x], stored = fold store_step d (stored ?k)\<rparr> =
      server_got i ?x (fold store_step d (stored ?k)) (set_node i ?m k)"
    by (simp add: server_got_def fun_eq_iff) (simp add: set_node_def)
  from two_steps [where R = "cstep Ps P J E c", OF s1 s2 [unfolded eq]] show ?thesis by blast
qed

text \<open>The receiving task takes a message from its subscription, hands it over and subscribes again.\<close>

lemma cluster_receives:
  assumes n: "receiving (nodes k j) = Subscribed (x # xs)" "redis_alive (proc (nodes k j))" "length (inbox (nodes k j)) < 1024"
  shows "(cstep Ps P J E c)\<^sup>*\<^sup>* k
    (set_node j ((nodes k j)\<lparr>receiving := Subscribed [], inbox := inbox (nodes k j) @ [x]\<rparr>) k)"
proof -
  let ?n = "nodes k j" and ?r = "\<lambda>n n'. nstep (Ps j) (P j) J (E j) (c j) n n' \<and> redis_log (proc n') = redis_log (proc n)"
  let ?i = "inbox ?n @ [x]"
  have swap [simp]: "?n\<lparr>inbox := l, receiving := r\<rparr> = ?n\<lparr>receiving := r, inbox := l\<rparr>" for l r by (cases ?n) simp
  have s1: "?r ?n (?n\<lparr>receiving := Forwarding x\<rparr>)"
    using nstep.receives [of "GetMessage (Inr (Inr x))" ?n "Forwarding x"] n(1) by simp
  have s2: "?r (?n\<lparr>receiving := Forwarding x\<rparr>) (?n\<lparr>receiving := AtConnect, inbox := ?i\<rparr>)"
    using nstep.forwards [of "?n\<lparr>receiving := Forwarding x\<rparr>" x AtConnect] n(2,3) by simp
  have s3: "?r (?n\<lparr>receiving := AtConnect, inbox := ?i\<rparr>) (?n\<lparr>receiving := AtSubscribe, inbox := ?i\<rparr>)"
    using nstep.receives [of "GetConnection None" "?n\<lparr>receiving := AtConnect, inbox := ?i\<rparr>" AtSubscribe] by simp
  have s4: "?r (?n\<lparr>receiving := AtSubscribe, inbox := ?i\<rparr>) (?n\<lparr>receiving := Subscribed [], inbox := ?i\<rparr>)"
    using nstep.receives [of "SubscribeTo ''sync'' None" "?n\<lparr>receiving := AtSubscribe, inbox := ?i\<rparr>" "Subscribed []"] by simp
  show ?thesis
    by (rule csteps_silent, rule rtranclp_trans [OF two_steps [where R = ?r, OF s1 s2] two_steps [where R = ?r, OF s3 s4]])
qed

text \<open>The Redis task handles the message at the head of its other channel.\<close>

lemma cluster_handles:
  assumes n: "inbox (nodes k j) = x # xs" "busy (nodes k j) = None" "redis_alive (proc (nodes k j))" "feat_redis (feat (P j))"
    and free: "holder (sys (nodes k j)) = None"
    and run: "handle_message (P j) J (c j) x \<lparr>rs_shared = store (proc (nodes k j)), rlog = redis_log (proc (nodes k j))\<rparr> =
      (Ok (), \<lparr>rs_shared = sh, rlog = redis_log (proc (nodes k j))\<rparr>)"
  shows "(cstep Ps P J E c)\<^sup>*\<^sup>* k (set_node j (set_proc ((proc (nodes k j))\<lparr>store := sh\<rparr>)
    ((nodes k j)\<lparr>inbox := xs, handled := handled (nodes k j) @ [x]\<rparr>)) k)"
proof -
  let ?n = "nodes k j" and ?r = "\<lambda>n n'. nstep (Ps j) (P j) J (E j) (c j) n n' \<and> redis_log (proc n') = redis_log (proc n)"
  let ?m = "?n\<lparr>inbox := xs, busy := Some (FromRedis x)\<rparr>"
  have "redis_step (P j) J (E j) (c j) (FromRedis x) (proc ?n) ((proc ?n)\<lparr>store := sh\<rparr>)"
    using redis_step.redis_goes_on [OF n(4,3), of J "E j" "c j" "FromRedis x" "\<lparr>rs_shared = sh, rlog = redis_log (proc ?n)\<rparr>"] run
    by (simp add: listen_step_def)
  with nstep.handles [of ?m x "P j" J "E j" "c j" "(proc ?n)\<lparr>store := sh\<rparr>" "Ps j"] free
  have s2: "?r ?m (set_proc ((proc ?n)\<lparr>store := sh\<rparr>) (?m\<lparr>busy := None, handled := handled ?m @ [x]\<rparr>))" by simp
  have eq: "set_proc ((proc ?n)\<lparr>store := sh\<rparr>) (?m\<lparr>busy := None, handled := handled ?m @ [x]\<rparr>) =
      set_proc ((proc ?n)\<lparr>store := sh\<rparr>) (?n\<lparr>inbox := xs, handled := handled ?n @ [x]\<rparr>)"
    using n(2) by (cases ?n) (simp add: set_proc_def)
  have s1: "?r ?n ?m" using nstep.picks [OF n(4,3,2,1)] by simp
  from two_steps [where R = ?r, OF s1 s2 [unfolded eq]] show ?thesis by (rule csteps_silent)
qed

section \<open>A client of one broker publishes\<close>

text \<open>
  A broker at rest: no branch has begun, the Redis task is at its \<open>select!\<close>, the receiving task is subscribed, and nothing
  waits but the packets \<open>q\<close> for Redis.
\<close>

definition waiting ::
    "('w, 'tx, 'rx) broadcast_view \<Rightarrow> publish_packet list \<Rightarrow> ('w, 'tx, 'rx, 'will) node \<Rightarrow> bool" where
  "waiting V q n \<longleftrightarrow> sys n = idle (proc n) \<and> broker_inv V (proc n) \<and> redis_alive (proc n) \<and> busy n = None \<and>
     to_redis n = q \<and> inbox n = [] \<and> receiving n = Subscribed []"

lemma waitingD:
  assumes "waiting V q n"
  shows "sys n = idle (proc n)" "broker_inv V (proc n)" "redis_alive (proc n)" "busy n = None" "to_redis n = q" "inbox n = []"
    "receiving n = Subscribed []" "holder (sys n) = None" "bt_wf (topics (store (proc n)))"
proof -
  show *: "sys n = idle (proc n)" "broker_inv V (proc n)" "redis_alive (proc n)" "busy n = None" "to_redis n = q" "inbox n = []"
    "receiving n = Subscribed []" using assms by (auto simp: waiting_def)
  show "holder (sys n) = None" by (subst *(1)) (simp add: idle_def)
  show "bt_wf (topics (store (proc n)))" using shared_invD(1) [OF broker_invD(1) [OF *(2)]] .
qed

lemma idle_sel: "broker_of (idle b) = b" "holder (idle b) = None"
  by (simp_all add: idle_def)

lemma idle_set: "f = idle (broker_of f) \<Longrightarrow> f\<lparr>broker_of := b\<rparr> = idle b"
  by (cases f) (simp add: idle_def)

lemma sync_text_parses: "json_ok J \<Longrightarrow> from_str J (sync_text J c p) = Inr (redis_message_of c p)"
  by (auto simp: json_ok_def sync_text_def) (metis (no_types, lifting) sum.case(2))

context broadcast_channel
begin

lemma client_publishes:
  fixes k :: "('w, 'tx, 'rx, 'will) cluster"
  assumes n: "waiting V q (nodes k i)" "length q < 200" and t: "tasks (proc (nodes k i)) m = Some t"
    and bcs: "bc (P i) = B" "\<And>m. bc (Ps i m) = B" and acc: "\<And>m l ch p. env_mpsc_send (env (Ps i m)) l ch p"
    and d: "will_delay (Ps i m) = Some d" and data: "data \<noteq> []" "length data \<le> 1024"
      "decode_mqtt (mqtt (Ps i m)) (fill_buffer data) V500 = Inr (Some (PublishP p))"
    and p: "p_qos p = AtMostOnce" "feat_redis (feat (Ps i m))" "\<not> feat_bq_logging (feat (Ps i m))"
  shows "\<exists>k'. (cstep Ps P J E c)\<^sup>*\<^sup>* k k' \<and> waiting V (q @ [p]) (nodes k' i) \<and>
    store (proc (nodes k' i)) = snd (topics_publish B p (store (proc (nodes k i)))) \<and> (\<forall>j. j \<noteq> i \<longrightarrow> nodes k' j = nodes k j) \<and>
    dom (tasks (proc (nodes k' i))) = dom (tasks (proc (nodes k i)))"
proof -
  let ?n = "nodes k i"
  note N = waitingD [OF n(1)]
  have room: "length (to_redis ?n) < 200" using n(2) N(5) by simp
  from node_publishes [where Ps = "Ps i" and P = "P i" and J = J and E = "E i" and c = "c i",
      OF N(1-3) room t bcs acc d data p] obtain b where
    steps: "(silent_step (Ps i) (P i) J (E i) (c i))\<^sup>*\<^sup>* ?n
      (?n\<lparr>sys := idle b, to_redis := to_redis ?n @ [p], accepted := accepted ?n @ [p]\<rparr>)" and
    b: "broker_inv V b" "store b = snd (topics_publish B p (store (proc ?n)))" "dom (tasks b) = dom (tasks (proc ?n))"
      "redis_alive b" by blast
  have "waiting V (q @ [p]) (?n\<lparr>sys := idle b, to_redis := to_redis ?n @ [p], accepted := accepted ?n @ [p]\<rparr>)"
    using N b(1,4) by (simp add: waiting_def) (simp add: idle_def)
  with b(2,3) show ?thesis
    using csteps_silent [where i = i and k = k and Ps = Ps and P = P and E = E and c = c, OF steps]
    by (intro exI [of _ "set_node i _ k"] conjI) (assumption | simp add: idle_def)+
qed

text \<open>
  The Redis task publishes all that waits, before any subscription is read: every subscription has all the messages.
\<close>

lemma queue_published:
  fixes k :: "('w, 'tx, 'rx, 'will) cluster"
  assumes J: "json_ok J" and up: "\<And>l. \<exists>l'. get_connection (E i) l = Some l'" and on: "feat_redis (feat (P i))"
    and n: "busy (nodes k i) = None" "redis_alive (proc (nodes k i))" "to_redis (nodes k i) = qs"
  shows "\<exists>k' l. (cstep Ps P J E c)\<^sup>*\<^sup>* k k' \<and>
    nodes k' i = push_texts (map (sync_text J (c i)) qs) ((nodes k i)\<lparr>sys := relog l (sys (nodes k i)), to_redis := []\<rparr>) \<and>
    (\<forall>j. j \<noteq> i \<longrightarrow> nodes k' j = push_texts (map (sync_text J (c i)) qs) (nodes k j))"
  using n
proof (induction qs arbitrary: k)
  case Nil
  then have "nodes k i = (nodes k i)\<lparr>sys := relog (redis_log (proc (nodes k i))) (sys (nodes k i)), to_redis := []\<rparr>"
    by (cases "nodes k i") (simp add: relog_def)
  then show ?case by (intro exI [of _ k] exI [of _ "redis_log (proc (nodes k i))"]) simp
next
  case (Cons p qs)
  let ?n = "nodes k i"
  obtain l S where s1: "(cstep Ps P J E c)\<^sup>*\<^sup>* k (server_got i (sync_text J (c i) p) S
      (set_node i (?n\<lparr>sys := relog l (sys ?n), to_redis := qs\<rparr>) k))"
    using cluster_publishes [where E = E and P = P and i = i and k = k, OF J up on Cons.prems] by blast
  let ?k = "server_got i (sync_text J (c i) p) S (set_node i (?n\<lparr>sys := relog l (sys ?n), to_redis := qs\<rparr>) k)"
  have "busy (nodes ?k i) = None" "redis_alive (proc (nodes ?k i))" "to_redis (nodes ?k i) = qs"
    using Cons.prems by (simp_all add: relog_def)
  from Cons.IH [OF this] obtain k' l' where k': "(cstep Ps P J E c)\<^sup>*\<^sup>* ?k k'"
    "nodes k' i = push_texts (map (sync_text J (c i)) qs) ((nodes ?k i)\<lparr>sys := relog l' (sys (nodes ?k i)), to_redis := []\<rparr>)"
    "\<forall>j. j \<noteq> i \<longrightarrow> nodes k' j = push_texts (map (sync_text J (c i)) qs) (nodes ?k j)" by blast
  have "nodes k' i = push_texts (map (sync_text J (c i)) (p # qs)) (?n\<lparr>sys := relog l' (sys ?n), to_redis := []\<rparr>)"
    by (cases ?n) (simp add: k'(2) push_texts_def relog_def split: receiving.split)
  with k' rtranclp_trans [OF s1 k'(1)] show ?case by (intro exI [of _ k'] exI [of _ l']) (simp add: push_texts_push)
qed

text \<open>Then the broker ignores its own first message when it comes back, and subscribes again.\<close>

lemma packets_published:
  fixes k :: "('w, 'tx, 'rx, 'will) cluster"
  assumes ni: "waiting V (p # qs) (nodes k i)" and J: "json_ok J" and up: "\<And>l. \<exists>l'. get_connection (E i) l = Some l'"
    and on: "feat_redis (feat (P i))"
  shows "\<exists>k'. (cstep Ps P J E c)\<^sup>*\<^sup>* k k' \<and> waiting V [] (nodes k' i) \<and> store (proc (nodes k' i)) = store (proc (nodes k i)) \<and>
    (\<forall>j. j \<noteq> i \<longrightarrow> nodes k' j = push_texts (map (sync_text J (c i)) (p # qs)) (nodes k j))"
proof -
  let ?x = "sync_text J (c i) p" and ?xs = "map (sync_text J (c i)) (p # qs)"
  note I = waitingD [OF ni]
  obtain k1 l where s1: "(cstep Ps P J E c)\<^sup>*\<^sup>* k k1"
    and m1: "nodes k1 i = push_texts ?xs ((nodes k i)\<lparr>sys := relog l (sys (nodes k i)), to_redis := []\<rparr>)"
    and o1: "\<forall>j. j \<noteq> i \<longrightarrow> nodes k1 j = push_texts ?xs (nodes k j)"
    using queue_published [where Ps = Ps and P = P and c = c and E = E, OF J up on I(4,3,5)] by blast
  have n1: "nodes k1 i = (nodes k i)\<lparr>sys := relog l (sys (nodes k i)), to_redis := [], receiving := Subscribed ?xs\<rparr>"
    using I(7) by (simp add: m1 push_texts_def)
  define k2 where "k2 = set_node i ((nodes k1 i)\<lparr>receiving := Subscribed [], inbox := inbox (nodes k1 i) @ [?x]\<rparr>) k1"
  have s2: "(cstep Ps P J E c)\<^sup>*\<^sup>* k1 k2"
    unfolding k2_def using I(2-7) by (intro cluster_receives [where xs = "map (sync_text J (c i)) qs"]) (simp_all add: n1)
  have n2: "nodes k2 i = (nodes k i)\<lparr>sys := relog l (sys (nodes k i)), to_redis := [], receiving := Subscribed [], inbox := [?x]\<rparr>"
    using I(6) by (simp add: k2_def n1)
  have own: "handle_message (P i) J (c i) ?x s = (Ok (), s)" for s :: "('w, 'tx) redis_state"
    by (rule handle_message_own [OF sync_text_parses [OF J]])
  define k3 where "k3 = set_node i (set_proc ((proc (nodes k2 i))\<lparr>store := store (proc (nodes k2 i))\<rparr>)
    ((nodes k2 i)\<lparr>inbox := [], handled := handled (nodes k2 i) @ [?x]\<rparr>)) k2"
  have s3: "(cstep Ps P J E c)\<^sup>*\<^sup>* k2 k3"
    unfolding k3_def using I(2-8) on own by (intro cluster_handles) (simp_all add: n2)
  have "proc (nodes k3 i) = (proc (nodes k i))\<lparr>redis_log := l\<rparr>" "waiting V [] (nodes k3 i)" "j \<noteq> i \<Longrightarrow> nodes k3 j = nodes k1 j" for j
    using I(2-7) by (simp_all add: k3_def k2_def n1 waiting_def set_proc_def relog_eq broker_inv_def idle_set [OF I(1)] idle_sel)
  moreover have "(cstep Ps P J E c)\<^sup>*\<^sup>* k k3" using s1 s2 s3 by (meson rtranclp_trans)
  ultimately show ?thesis using o1 by (intro exI [of _ k3]) simp
qed

text \<open>
  Another broker takes the first message from its subscription and publishes it in its own store; what else was in the
  subscription is gone when it subscribes again.
\<close>

lemma message_arrives:
  fixes k :: "('w, 'tx, 'rx, 'will) cluster"
  assumes nj: "waiting V q n" "nodes k j = push_texts (sync_text J (c i) p # xs) n" and bcs: "bc (P j) = B" and J: "json_ok J"
    and on: "feat_redis (feat (P j))" and id: "rc_sender_id (c i) \<noteq> rc_sender_id (c j)"
    and r: "build_publish (mqtt (P j)) (topic_name (p_topic p)) (p_payload p) (Some (p_retain p)) = Inr r"
  shows "\<exists>k'. (cstep Ps P J E c)\<^sup>*\<^sup>* k k' \<and> waiting V q (nodes k' j) \<and>
    store (proc (nodes k' j)) = snd (topics_publish B r (store (proc n))) \<and> tasks (proc (nodes k' j)) = tasks (proc n) \<and>
    (\<forall>i. i \<noteq> j \<longrightarrow> nodes k' i = nodes k i)"
proof -
  let ?x = "sync_text J (c i) p"
  note K = waitingD [OF nj(1)]
  have n1: "nodes k j = n\<lparr>receiving := Subscribed (?x # xs)\<rparr>" using nj(2) K(7) by (simp add: push_texts_def)
  define k1 where "k1 = set_node j ((nodes k j)\<lparr>receiving := Subscribed [], inbox := inbox (nodes k j) @ [?x]\<rparr>) k"
  have s1: "(cstep Ps P J E c)\<^sup>*\<^sup>* k k1"
    unfolding k1_def using K(2-7) by (intro cluster_receives [where xs = xs]) (simp_all add: n1)
  have n2: "nodes k1 j = n\<lparr>receiving := Subscribed [], inbox := [?x]\<rparr>" using K(6) by (simp add: k1_def n1)
  let ?sh = "snd (topics_publish B r (store (proc n)))"
  have other: "handle_message (P j) J (c j) ?x \<lparr>rs_shared = store (proc n), rlog = g\<rparr> = (Ok (), \<lparr>rs_shared = ?sh, rlog = g\<rparr>)" for g
    using handle_message_other [OF sync_text_parses [OF J] id r, of "\<lparr>rs_shared = store (proc n), rlog = g\<rparr>"] K(9) bcs by simp
  define k2 where "k2 = set_node j (set_proc ((proc (nodes k1 j))\<lparr>store := ?sh\<rparr>)
    ((nodes k1 j)\<lparr>inbox := [], handled := handled (nodes k1 j) @ [?x]\<rparr>)) k1"
  have s2: "(cstep Ps P J E c)\<^sup>*\<^sup>* k1 k2"
    unfolding k2_def using K(2-8) on other by (intro cluster_handles) (simp_all add: n2)
  have step: "redis_step (P j) J (E j) (c j) (FromRedis ?x) (proc n) ((proc n)\<lparr>store := ?sh\<rparr>)"
    using redis_step.redis_goes_on [OF on K(3), of J "E j" "c j" "FromRedis ?x" "\<lparr>rs_shared = ?sh, rlog = redis_log (proc n)\<rparr>"] other
    by (simp add: listen_step_def)
  have "broker_inv V ((proc n)\<lparr>store := ?sh\<rparr>)" using redis_step_kept [OF step K(2) bcs] by simp
  then have "waiting V q (nodes k2 j)" "proc (nodes k2 j) = (proc n)\<lparr>store := ?sh\<rparr>"
    using K(2-7) by (simp_all add: k2_def n2 waiting_def set_proc_def idle_set [OF K(1)] idle_sel)
  moreover have "\<forall>i. i \<noteq> j \<longrightarrow> nodes k2 i = nodes k i" by (simp add: k2_def k1_def)
  ultimately show ?thesis using rtranclp_trans [OF s1 s2] by (intro exI [of _ k2]) simp
qed

text \<open>All of a number of brokers do.\<close>

lemma messages_arrive:
  fixes k :: "('w, 'tx, 'rx, 'will) cluster"
  assumes "distinct js" and "\<And>j. j \<in> set js \<Longrightarrow> waiting V (q j) (n j) \<and> nodes k j = push_texts (sync_text J (c i) p # xs) (n j) \<and>
      rc_sender_id (c i) \<noteq> rc_sender_id (c j) \<and>
      build_publish (mqtt (P j)) (topic_name (p_topic p)) (p_payload p) (Some (p_retain p)) = Inr (r j)"
    and bcs: "\<And>j. bc (P j) = B" and J: "json_ok J" and on: "\<And>j. feat_redis (feat (P j))"
  shows "\<exists>k'. (cstep Ps P J E c)\<^sup>*\<^sup>* k k' \<and> (\<forall>j. if j \<in> set js
      then waiting V (q j) (nodes k' j) \<and> store (proc (nodes k' j)) = snd (topics_publish B (r j) (store (proc (n j)))) \<and>
        tasks (proc (nodes k' j)) = tasks (proc (n j))
      else nodes k' j = nodes k j)"
  using assms(1,2)
proof (induction js)
  case (Cons a js)
  then obtain k1 where k1: "(cstep Ps P J E c)\<^sup>*\<^sup>* k k1" and n1: "\<forall>j. if j \<in> set js
      then waiting V (q j) (nodes k1 j) \<and> store (proc (nodes k1 j)) = snd (topics_publish B (r j) (store (proc (n j)))) \<and>
        tasks (proc (nodes k1 j)) = tasks (proc (n j))
      else nodes k1 j = nodes k j"
    by auto
  have a: "a \<notin> set js" "waiting V (q a) (n a)" "nodes k1 a = push_texts (sync_text J (c i) p # xs) (n a)"
    "rc_sender_id (c i) \<noteq> rc_sender_id (c a)" "build_publish (mqtt (P a)) (topic_name (p_topic p)) (p_payload p) (Some (p_retain p)) = Inr (r a)"
    using Cons.prems n1 by auto
  obtain k2 where k2: "(cstep Ps P J E c)\<^sup>*\<^sup>* k1 k2" "waiting V (q a) (nodes k2 a)"
      "store (proc (nodes k2 a)) = snd (topics_publish B (r a) (store (proc (n a))))" "tasks (proc (nodes k2 a)) = tasks (proc (n a))"
      "\<forall>j. j \<noteq> a \<longrightarrow> nodes k2 j = nodes k1 j"
    using message_arrives [where Ps = Ps and P = P and c = c and E = E and k = k1, OF a(2,3) bcs J on a(4,5)] by blast
  show ?case using n1 k2 a(1) by (intro exI [of _ k2] conjI rtranclp_trans [OF k1 k2(1)]) auto
qed (auto intro!: exI [of _ k])

text \<open>
  Of the packets that wait at one broker, the first reaches any number of other brokers at rest; and it may be the only one that does.
\<close>

lemma brokers_sync:
  fixes k :: "('w, 'tx, 'rx, 'will) cluster"
  assumes ni: "waiting V (p # qs) (nodes k i)" and js: "distinct js" "i \<notin> set js"
    and nj: "\<And>j. j \<in> set js \<Longrightarrow> waiting V (q j) (nodes k j) \<and> rc_sender_id (c i) \<noteq> rc_sender_id (c j) \<and>
      build_publish (mqtt (P j)) (topic_name (p_topic p)) (p_payload p) (Some (p_retain p)) = Inr (r j)"
    and bcs: "\<And>j. bc (P j) = B" and J: "json_ok J" and up: "\<And>l. \<exists>l'. get_connection (E i) l = Some l'"
    and on: "\<And>j. feat_redis (feat (P j))"
  shows "\<exists>k'. (cstep Ps P J E c)\<^sup>*\<^sup>* k k' \<and> waiting V [] (nodes k' i) \<and> store (proc (nodes k' i)) = store (proc (nodes k i)) \<and>
    (\<forall>j \<in> set js. waiting V (q j) (nodes k' j) \<and> tasks (proc (nodes k' j)) = tasks (proc (nodes k j)) \<and>
       store (proc (nodes k' j)) = snd (topics_publish B (r j) (store (proc (nodes k j)))))"
proof -
  let ?xs = "map (sync_text J (c i)) qs"
  obtain k1 where k1: "(cstep Ps P J E c)\<^sup>*\<^sup>* k k1" "waiting V [] (nodes k1 i)" "store (proc (nodes k1 i)) = store (proc (nodes k i))"
      "\<forall>j. j \<noteq> i \<longrightarrow> nodes k1 j = push_texts (sync_text J (c i) p # ?xs) (nodes k j)"
    using packets_published [where Ps = Ps and P = P and c = c and E = E, OF ni J up on] by auto
  then have "j \<in> set js \<Longrightarrow> waiting V (q j) (nodes k j) \<and> nodes k1 j = push_texts (sync_text J (c i) p # ?xs) (nodes k j) \<and>
      rc_sender_id (c i) \<noteq> rc_sender_id (c j) \<and>
      build_publish (mqtt (P j)) (topic_name (p_topic p)) (p_payload p) (Some (p_retain p)) = Inr (r j)" for j
    using nj js(2) by metis
  from messages_arrive [where Ps = Ps and E = E and q = q and n = "nodes k" and P = P and r = r, OF js(1) this bcs J on] obtain k2 where
    k2: "(cstep Ps P J E c)\<^sup>*\<^sup>* k1 k2" and "\<forall>j. if j \<in> set js
      then waiting V (q j) (nodes k2 j) \<and> store (proc (nodes k2 j)) = snd (topics_publish B (r j) (store (proc (nodes k j)))) \<and>
        tasks (proc (nodes k2 j)) = tasks (proc (nodes k j))
      else nodes k2 j = nodes k1 j"
    by blast
  with k1 js(2) show ?thesis by (intro exI [of _ k2] conjI rtranclp_trans [OF k1(1) k2]) auto
qed

end

section \<open>Properties of the cluster\<close>

definition demo_cluster :: "(rworld, nat, nat, publish_packet) cluster" where
  "demo_cluster = start_cluster (\<lambda>_. demo_system) (\<lambda>_. None)"

text \<open>The brokers of the witnesses read every packet as a retained publication of its first byte on the topic \<open>a\<close>.\<close>

definition sync_platform :: "(rworld, nat, nat, publish_packet) platform" where
  "sync_platform = redis_platform\<lparr>mqtt := demo_lib\<lparr>decode_mqtt :=
     (\<lambda>data v. case data of [] \<Rightarrow> Inr None | x # _ \<Rightarrow> Inr (Some (PublishP (plain_publish ''a'' [x] True))))\<rparr>\<rparr>"

abbreviation demo_id :: "nat \<Rightarrow> redis_client" where
  "demo_id i \<equiv> demo_broker (replicate i CHR ''B'')"

abbreviation demo_cstep :: "(rworld, nat, nat, publish_packet) cluster \<Rightarrow> (rworld, nat, nat, publish_packet) cluster \<Rightarrow> bool" where
  "demo_cstep \<equiv> cstep (\<lambda>_ _. sync_platform) (\<lambda>_. sync_platform) ref_json (\<lambda>_. ref_redis) demo_id"

lemma sync_platform_sel [simp]:
  "bc sync_platform = rw_ops" "env sync_platform = demo_env" "feat sync_platform = default_features\<lparr>feat_redis := True\<rparr>"
  "settings sync_platform = demo_settings" "build_publish (mqtt sync_platform) = plain_builder"
  "decode_mqtt (mqtt sync_platform) (x # xs) v = Inr (Some (PublishP (plain_publish ''a'' [x] True)))"
  by (simp_all add: sync_platform_def redis_platform_def demo_lib_def)

lemma demo_subscribes:
  assumes "receiving (nodes k i) = AtConnect"
  shows "demo_cstep\<^sup>*\<^sup>* k (set_node i ((nodes k i)\<lparr>receiving := Subscribed []\<rparr>) k)"
proof -
  let ?n = "nodes k i"
  have "demo_cstep k (set_node i (?n\<lparr>receiving := AtSubscribe\<rparr>) k)"
    using assms by (intro cstep_silent nstep.receives [of "GetConnection None"]) simp_all
  moreover have "demo_cstep (set_node i (?n\<lparr>receiving := AtSubscribe\<rparr>) k)
      (set_node i (?n\<lparr>receiving := Subscribed []\<rparr>) (set_node i (?n\<lparr>receiving := AtSubscribe\<rparr>) k))"
    by (rule cstep_silent) (simp_all add: nstep.receives [of "SubscribeTo ''sync'' None" "?n\<lparr>receiving := AtSubscribe\<rparr>", simplified])
  ultimately show ?thesis by (simp add: two_steps)
qed

lemma demo_cluster_ready:
  "\<exists>k. demo_cstep\<^sup>*\<^sup>* demo_cluster k \<and> (\<forall>j. if j \<in> set js then waiting rw_view [] (nodes k j) \<and> proc (nodes k j) = demo_system
     else nodes k j = start_node demo_system)"
proof (induction js)
  case Nil
  show ?case by (intro exI [of _ demo_cluster]) (simp add: demo_cluster_def start_cluster_def)
next
  case (Cons a js)
  then obtain k where k: "demo_cstep\<^sup>*\<^sup>* demo_cluster k" "\<forall>j. if j \<in> set js
    then waiting rw_view [] (nodes k j) \<and> proc (nodes k j) = demo_system else nodes k j = start_node demo_system" by blast
  show ?case
  proof (cases "a \<in> set js")
    case True
    then show ?thesis using k by (intro exI [of _ k]) (auto split: if_splits)
  next
    case False
    then have a: "nodes k a = start_node demo_system" using k(2) by metis
    then have "receiving (nodes k a) = AtConnect" by (simp add: start_node_def)
    note k' = rtranclp_trans [OF k(1) demo_subscribes [OF this]]
    have "redis_alive demo_system" by (simp add: demo_system_def)
    then have "waiting rw_view [] ((nodes k a)\<lparr>receiving := Subscribed []\<rparr>)" "proc ((nodes k a)\<lparr>receiving := Subscribed []\<rparr>) = demo_system"
      using demo_system_inv by (simp_all add: a start_node_def waiting_def idle_sel)
    with k(2) show ?thesis by (intro exI [of _ "set_node a ((nodes k a)\<lparr>receiving := Subscribed []\<rparr>) k"] conjI k') simp
  qed
qed

lemma in_order_handled: "in_order xs n \<Longrightarrow> subseq (handled n) xs"
  by (auto simp: in_order_def got_def intro: subseq_rev_drop_many)
    (meson prefixI prefix_imp_subseq subseq_order.order_trans)

text \<open>
  C5. What the brokers of a cluster agree on. From start, whatever the tasks, the brokers, the network and the server do:
  the messages a broker has handled are a subsequence of the channel \<open>sync\<close>, so no broker handles a
  message twice or out of order, and any two brokers see the messages they both see in the same order; what a
  broker has put on the channel are packets its connections accepted, in the order of acceptance; the retained messages
  stored in Redis are texts of retained packets that a broker accepted for that topic; and every broker keeps its own invariant.
\<close>

theorem cluster_messages_in_order:
  assumes B: "broadcast_channel B V" and bcs: "\<And>i. bc (P i) = B" "\<And>i m. bc (Ps i m) = B" and J: "json_ok J"
    and b: "\<And>i. broker_inv V (b i)" "\<And>i. published_texts (redis_log (b i)) = []"
    and reach: "(cstep Ps P J E c)\<^sup>*\<^sup>* (start_cluster b (\<lambda>_. None)) k"
  shows "broker_inv V (proc (nodes k i)) \<and>
    subseq (handled (nodes k i)) (map snd (sync_log k)) \<and>
    subseq (origin i (sync_log k)) (map (sync_text J (c i)) (accepted (nodes k i))) \<and>
    stored_by_brokers J c k"
proof -
  have "in_order [] (start_node (b i))" for i by (simp add: in_order_def got_def start_node_def)
  moreover have "to_redis (start_node (b i)) = []" "busy (start_node (b i)) = None" for i by (simp_all add: start_node_def)
  ultimately have "cluster_inv V J c (start_cluster b (\<lambda>_. None))"
    using b by (simp add: node_inv_start cluster_inv_def start_cluster_def stored_by_brokers_def)
  then have I: "cluster_inv V J c k" using broadcast_channel.reachable_cluster [OF B reach _ J bcs] by blast
  then have n: "node_inv V J (c i) (nodes k i)" and o: "in_order (map snd (sync_log k)) (nodes k i)"
    and p: "subseq (origin i (sync_log k)) (published_texts (redis_log (proc (nodes k i))))"
    by (simp_all add: cluster_inv_def)
  have "subseq (handled (nodes k i)) (map snd (sync_log k))"
    using o by (rule in_order_handled)
  moreover have "prefix (published_texts (redis_log (proc (nodes k i)))) (map (sync_text J (c i)) (accepted (nodes k i)))"
    using n by (auto simp: node_inv_def)
  then have "subseq (origin i (sync_log k)) (map (sync_text J (c i)) (accepted (nodes k i)))"
    using p by (meson prefix_imp_subseq subseq_order.order_trans)
  ultimately show ?thesis using I n by (auto simp: cluster_inv_def node_inv_def dest: sched_invD)
qed

theorem cluster_messages_in_order_witness:
  "\<exists>k. demo_cstep\<^sup>*\<^sup>* demo_cluster k \<and> receiving (nodes k 1) = Subscribed [] \<and> broker_inv rw_view (proc (nodes k 1)) \<and>
     subseq (handled (nodes k 1)) (map snd (sync_log k)) \<and> stored_by_brokers ref_json demo_id k"
proof -
  obtain k where k: "demo_cstep\<^sup>*\<^sup>* demo_cluster k" "waiting rw_view [] (nodes k 1)"
    using demo_cluster_ready [of "[1]"] by auto
  have bcs: "bc sync_platform = rw_ops" by simp
  have B: "broadcast_channel rw_ops rw_view" using demo_bc by simp
  have none: "published_texts (redis_log demo_system) = []" by (simp add: demo_system_def)
  from cluster_messages_in_order [OF B bcs bcs ref_json_ok demo_system_inv none k(1) [unfolded demo_cluster_def]] k show ?thesis
    by (intro exI [of _ k]) (simp add: waiting_def)
qed

text \<open>
  C4. Messages get from the clients of a broker to the clients of all others. A number of brokers are at rest, subscribed to the channel
  \<open>sync\<close>, and Redis answers. When a client of one sends a QoS 0 publication, there is an execution, step by step
  through the programs, the channels and the server, at whose end all of them are at rest again, the first has
  published the packet in its own store, and at each of the others the queue of every client that is subscribed to the topic and has room
  has exactly one message more, with the same topic, payload and retain flag.
\<close>

theorem cluster_delivers:
  assumes B: "broadcast_channel B V" and bcs: "\<And>i. bc (P i) = B" "\<And>i m. bc (Ps i m) = B" and J: "json_ok J"
    and up: "\<And>l. \<exists>l'. get_connection (E i) l = Some l'" and acc: "\<And>m l ch p. env_mpsc_send (env (Ps i m)) l ch p"
    and on: "\<And>i. feat_redis (feat (P i))" "feat_redis (feat (Ps i m))" "\<not> feat_bq_logging (feat (Ps i m))"
    and ni: "waiting V [] (nodes k i)" and js: "distinct js" "i \<notin> set js"
    and nj: "\<And>j. j \<in> set js \<Longrightarrow> waiting V [] (nodes k j) \<and> rc_sender_id (c i) \<noteq> rc_sender_id (c j)"
    and t: "tasks (proc (nodes k i)) m = Some t" "will_delay (Ps i m) = Some d" "data \<noteq> []" "length data \<le> 1024"
    and p: "decode_mqtt (mqtt (Ps i m)) (fill_buffer data) V500 = Inr (Some (PublishP p))" "p_qos p = AtMostOnce"
    and r: "\<And>j. publish_builder (build_publish (mqtt (P j)))"
      "\<And>j. build_publish (mqtt (P j)) (topic_name (p_topic p)) (p_payload p) (Some (p_retain p)) = Inr (r j)"
  shows "\<exists>k'. (cstep Ps P J E c)\<^sup>*\<^sup>* k k' \<and> waiting V [] (nodes k' i) \<and>
    store (proc (nodes k' i)) = snd (topics_publish B p (store (proc (nodes k i)))) \<and>
    (\<forall>j \<in> set js. waiting V [] (nodes k' j) \<and> tasks (proc (nodes k' j)) = tasks (proc (nodes k j)) \<and>
      (\<forall>u rx. u \<in> ran (tasks (proc (nodes k j))) \<and> bt_get (topic_name (p_topic p)) (receivers (t_client u)) = Some rx \<and>
         length (unread V (chans (store (proc (nodes k j)))) rx) < 1024 \<longrightarrow>
         unread V (chans (store (proc (nodes k' j)))) rx = unread V (chans (store (proc (nodes k j)))) rx @ [Publish (r j)])) \<and>
    (\<forall>j. topic_name (p_topic (r j)) = topic_name (p_topic p) \<and> p_payload (r j) = p_payload p \<and> p_retain (r j) = p_retain p)"
proof -
  note b = publish_builder.build_topic [OF r] publish_builder.build_payload [OF r] publish_builder.build_retain [OF r]
  obtain k1 where k1: "(cstep Ps P J E c)\<^sup>*\<^sup>* k k1" "waiting V [p] (nodes k1 i)" "\<forall>j. j \<noteq> i \<longrightarrow> nodes k1 j = nodes k j"
      "store (proc (nodes k1 i)) = snd (topics_publish B p (store (proc (nodes k i))))"
    using broadcast_channel.client_publishes [where Ps = Ps and P = P and J = J and E = E and c = c, OF B ni _ t(1) bcs acc t(2-4) p on(2,3)]
    by auto
  have "j \<in> set js \<Longrightarrow> waiting V [] (nodes k1 j) \<and> rc_sender_id (c i) \<noteq> rc_sender_id (c j) \<and>
      build_publish (mqtt (P j)) (topic_name (p_topic p)) (p_payload p) (Some (p_retain p)) = Inr (r j)" for j
    using nj r(2) k1(3) js(2) by metis
  from broadcast_channel.brokers_sync [where Ps = Ps and P = P and c = c and E = E and q = "\<lambda>_. []" and r = r, OF B k1(2) js this bcs(1) J up on(1)]
  obtain k2 where k2: "(cstep Ps P J E c)\<^sup>*\<^sup>* k1 k2" "waiting V [] (nodes k2 i)" "store (proc (nodes k2 i)) = store (proc (nodes k1 i))"
      "\<forall>j \<in> set js. waiting V [] (nodes k2 j) \<and> tasks (proc (nodes k2 j)) = tasks (proc (nodes k1 j)) \<and>
         store (proc (nodes k2 j)) = snd (topics_publish B (r j) (store (proc (nodes k1 j))))" by blast
  have "unread V (chans (store (proc (nodes k2 j)))) rx = unread V (chans (store (proc (nodes k j)))) rx @ [Publish (r j)]"
    if j: "j \<in> set js" and "u \<in> ran (tasks (proc (nodes k j)))" "bt_get (topic_name (p_topic p)) (receivers (t_client u)) = Some rx"
      "length (unread V (chans (store (proc (nodes k j)))) rx) < 1024" for j u rx
  proof -
    have I: "broker_inv V (proc (nodes k j))" using nj [OF j] waitingD(2) by blast
    have eq: "nodes k1 j = nodes k j" using k1(3) js(2) j by metis
    have "client_inv V (t_client u) (store (proc (nodes k j)))" using that(2) broker_invD(2) [OF I] by (auto simp: ran_def)
    then have "rx \<in> subscribers (topic_name (p_topic (r j))) (topic_view V (store (proc (nodes k j))))"
      using that(3) b(1) by (simp add: client_inv_def)
    then show ?thesis
      using broadcast_channel.publish_law(6) [OF B broker_invD(1) [OF I]] that(4) k2(4) [rule_format, OF j] by (simp add: eq)
  qed
  moreover have "\<forall>j \<in> set js. nodes k1 j = nodes k j" using k1(3) js(2) by metis
  ultimately show ?thesis using k1 k2 b by (intro exI [of _ k2] conjI rtranclp_trans [OF k1(1) k2(1)]) auto
qed

text \<open>A client of one broker publishes, and the subscribers of two others, which have just started, have the message in their queues.\<close>

theorem cluster_delivers_witness:
  "\<exists>k. demo_cstep\<^sup>*\<^sup>* demo_cluster k \<and>
     unread rw_view (chans (store (proc (nodes k 1)))) 0 = [Publish (plain_publish ''a'' [7] True)] \<and>
     unread rw_view (chans (store (proc (nodes k 2)))) 0 = [Publish (plain_publish ''a'' [7] True)]"
proof -
  let ?p = "plain_publish ''a'' [7] True" and ?u = "\<lparr>t_addr = ''p1'', t_client = client demo_sub, t_iolog = []\<rparr> :: (nat, publish_packet) task"
  obtain k where k: "demo_cstep\<^sup>*\<^sup>* demo_cluster k" "waiting rw_view [] (nodes k 0)" "waiting rw_view [] (nodes k 1)"
    "waiting rw_view [] (nodes k 2)" "proc (nodes k 0) = demo_system" "proc (nodes k 1) = demo_system" "proc (nodes k 2) = demo_system"
    using demo_cluster_ready [of "[0, 1, 2]"] by (auto dest: spec [of _ 0] spec [of _ 1] spec [of _ 2])
  have B: "broadcast_channel rw_ops rw_view" using demo_bc by simp
  have nj: "waiting rw_view [] (nodes k j) \<and> rc_sender_id (demo_id 0) \<noteq> rc_sender_id (demo_id j)" if "j \<in> set [1, 2]" for j
    using k(3,4) that by (auto simp: demo_broker_def numeral_2_eq_2)
  have t: "tasks (proc (nodes k 0)) 0 = Some \<lparr>t_addr = ''p0'', t_client = client demo_conn, t_iolog = []\<rparr>"
    by (simp add: k(5) demo_system_def)
  have "\<exists>k'. demo_cstep\<^sup>*\<^sup>* k k' \<and> waiting rw_view [] (nodes k' 0) \<and>
    store (proc (nodes k' 0)) = snd (topics_publish rw_ops ?p (store (proc (nodes k 0)))) \<and>
    (\<forall>j \<in> set [1, 2]. waiting rw_view [] (nodes k' j) \<and> tasks (proc (nodes k' j)) = tasks (proc (nodes k j)) \<and>
      (\<forall>u rx. u \<in> ran (tasks (proc (nodes k j))) \<and> bt_get (topic_name (p_topic ?p)) (receivers (t_client u)) = Some rx \<and>
         length (unread rw_view (chans (store (proc (nodes k j)))) rx) < 1024 \<longrightarrow>
         unread rw_view (chans (store (proc (nodes k' j)))) rx = unread rw_view (chans (store (proc (nodes k j)))) rx @ [Publish ?p])) \<and>
    (\<forall>j :: nat. topic_name (p_topic ?p) = topic_name (p_topic ?p) \<and> p_payload ?p = p_payload ?p \<and> p_retain ?p = p_retain ?p)"
    by (rule cluster_delivers [where m = 0 and data = "[7]" and d = 32 and r = "\<lambda>_. ?p", OF B _ _ ref_json_ok _ _ _ _ _ k(2) _ _ nj t])
      (use demo_builder in \<open>simp_all add: ref_up demo_env_def default_features_def will_delay_def
        demo_settings_def fill_buffer_def plain_builder_def plain_publish_def demo_lib_def checked_plus_def\<close>)
  then obtain k' where k': "demo_cstep\<^sup>*\<^sup>* k k'" "\<forall>j \<in> set [1, 2]. \<forall>u rx. u \<in> ran (tasks (proc (nodes k j))) \<and>
       bt_get (topic_name (p_topic ?p)) (receivers (t_client u)) = Some rx \<and> length (unread rw_view (chans (store (proc (nodes k j)))) rx) < 1024 \<longrightarrow>
       unread rw_view (chans (store (proc (nodes k' j)))) rx = unread rw_view (chans (store (proc (nodes k j)))) rx @ [Publish ?p]"
    by blast
  have u: "?u \<in> ran (tasks demo_system)" by (rule ranI [of _ 1]) (simp add: demo_system_def)
  have "unread rw_view (chans (store (proc (nodes k' j)))) 0 = [Publish ?p]" if j: "j \<in> set [1, 2]" for j
  proof -
    have "proc (nodes k j) = demo_system" using j k(6,7) by auto
    with k'(2) [rule_format, OF j, of ?u 0] u show ?thesis by (simp add: demo_sub_def plain_publish_def) (simp add: demo_system_def demo_store_obs)
  qed
  then show ?thesis using rtranclp_trans [OF k(1) k'(1)] by auto
qed

text \<open>
  C15. Brokers can disagree about a retained message for ever. A broker stores a retained message of its own client before it has
  gone through Redis, and ignores its own messages coming back, so the order of the channel \<open>sync\<close> does not decide. When
  clients of two brokers each publish a retained QoS 0 message for one topic, there is an execution that ends with both brokers at rest and
  nothing on its way, where each has kept the message of the other's client: a client that subscribes gets one or
  the other, depending on its broker.
\<close>

theorem retained_messages_diverge:
  assumes B: "broadcast_channel B V" and bcs: "\<And>i. bc (P i) = B" "\<And>i m. bc (Ps i m) = B" and J: "json_ok J"
    and up: "\<And>i l. \<exists>l'. get_connection (E i) l = Some l'" and acc: "\<And>i m l ch p. env_mpsc_send (env (Ps i m)) l ch p"
    and on: "\<And>i. feat_redis (feat (P i))" "\<And>i m. feat_redis (feat (Ps i m))" "\<And>i m. \<not> feat_bq_logging (feat (Ps i m))"
    and ij: "i \<noteq> j" "rc_sender_id (c i) \<noteq> rc_sender_id (c j)" "waiting V [] (nodes k i)" "waiting V [] (nodes k j)"
    and t: "tasks (proc (nodes k i)) m = Some t" "will_delay (Ps i m) = Some d" "data \<noteq> []" "length data \<le> 1024"
    and p: "decode_mqtt (mqtt (Ps i m)) (fill_buffer data) V500 = Inr (Some (PublishP p))" "p_qos p = AtMostOnce" "p_retain p"
    and t': "tasks (proc (nodes k j)) m' = Some t'" "will_delay (Ps j m') = Some d'" "data' \<noteq> []" "length data' \<le> 1024"
    and p': "decode_mqtt (mqtt (Ps j m')) (fill_buffer data') V500 = Inr (Some (PublishP p'))" "p_qos p' = AtMostOnce" "p_retain p'"
    and same: "topic_name (p_topic p) = x" "topic_name (p_topic p') = x"
    and r: "publish_builder (build_publish (mqtt (P j)))" "build_publish (mqtt (P j)) x (p_payload p) (Some True) = Inr r"
    and r': "publish_builder (build_publish (mqtt (P i)))" "build_publish (mqtt (P i)) x (p_payload p') (Some True) = Inr r'"
  shows "\<exists>k'. (cstep Ps P J E c)\<^sup>*\<^sup>* k k' \<and> waiting V [] (nodes k' i) \<and> waiting V [] (nodes k' j) \<and>
    get_retained_message x (store (proc (nodes k' i))) = Some r' \<and> p_payload r' = p_payload p' \<and>
    get_retained_message x (store (proc (nodes k' j))) = Some r \<and> p_payload r = p_payload p"
proof -
  note b = publish_builder.build_topic [OF r] publish_builder.build_payload [OF r] publish_builder.build_retain [OF r]
  note b' = publish_builder.build_topic [OF r'] publish_builder.build_payload [OF r'] publish_builder.build_retain [OF r']
  obtain k1 where k1: "(cstep Ps P J E c)\<^sup>*\<^sup>* k k1" "waiting V [p] (nodes k1 i)" "nodes k1 j = nodes k j"
    using broadcast_channel.client_publishes [where Ps = Ps and P = P and J = J and E = E and c = c, OF B ij(3) _ t(1) bcs acc t(2-4) p(1,2) on(2,3)] ij(1)
    by auto
  obtain k2 where k2: "(cstep Ps P J E c)\<^sup>*\<^sup>* k1 k2" "waiting V [p'] (nodes k2 j)" "nodes k2 i = nodes k1 i"
    using broadcast_channel.client_publishes [where Ps = Ps and P = P and J = J and E = E and c = c and k = k1 and i = j, OF B _ _ _ bcs acc t'(2-4) p'(1,2) on(2,3)]
      ij(1,4) t'(1) k1(3) by (metis append_Nil list.size(3) zero_less_numeral)
  obtain k3 where k3: "(cstep Ps P J E c)\<^sup>*\<^sup>* k2 k3" "waiting V [] (nodes k3 i)" "waiting V [p'] (nodes k3 j)"
      "store (proc (nodes k3 j)) = snd (topics_publish B r (store (proc (nodes k2 j))))"
    using broadcast_channel.brokers_sync [where Ps = Ps and P = P and c = c and E = E and js = "[j]" and q = "\<lambda>_. [p']" and r = "\<lambda>_. r" and qs = "[]",
        OF B _ _ _ _ bcs(1) J up on(1), of p k2 i] r(2) k1(2) k2(2,3) p(3) same(1) ij(1,2)
    by auto
  obtain k4 where k4: "(cstep Ps P J E c)\<^sup>*\<^sup>* k3 k4" "waiting V [] (nodes k4 j)" "waiting V [] (nodes k4 i)"
      "store (proc (nodes k4 j)) = store (proc (nodes k3 j))"
      "store (proc (nodes k4 i)) = snd (topics_publish B r' (store (proc (nodes k3 i))))"
    using broadcast_channel.brokers_sync [where Ps = Ps and P = P and c = c and E = E and js = "[i]" and q = "\<lambda>_. []" and r = "\<lambda>_. r'" and qs = "[]",
        OF B k3(3) _ _ _ bcs(1) J up on(1)] r'(2) k3(2) p'(3) same(2) ij(1,2)
    by auto
  have "get_retained_message x (store (proc (nodes k4 i))) = Some r'" "get_retained_message x (store (proc (nodes k4 j))) = Some r"
    using b b'
    by (simp_all add: k4 k3 get_retained_publish [OF waitingD(9) [OF k3(2)]] get_retained_publish [OF waitingD(9) [OF k2(2)]])
  moreover have "(cstep Ps P J E c)\<^sup>*\<^sup>* k k4" using k1(1) k2(1) k3(1) k4(1) by (meson rtranclp_trans)
  ultimately show ?thesis using k4 b b' by blast
qed

theorem retained_messages_diverge_witness:
  "\<exists>k. demo_cstep\<^sup>*\<^sup>* demo_cluster k \<and> waiting rw_view [] (nodes k 0) \<and> waiting rw_view [] (nodes k 1) \<and>
     get_retained_message ''a'' (store (proc (nodes k 0))) = Some (plain_publish ''a'' [8] True) \<and>
     get_retained_message ''a'' (store (proc (nodes k 1))) = Some (plain_publish ''a'' [7] True)"
proof -
  obtain k where k: "demo_cstep\<^sup>*\<^sup>* demo_cluster k" "waiting rw_view [] (nodes k 0)" "waiting rw_view [] (nodes k 1)"
    "proc (nodes k 0) = demo_system" "proc (nodes k 1) = demo_system"
    using demo_cluster_ready [of "[0, 1]"] by (auto dest: spec [of _ 0] spec [of _ 1])
  have B: "broadcast_channel rw_ops rw_view" using demo_bc by simp
  let ?p = "plain_publish ''a'' [7] True" and ?p' = "plain_publish ''a'' [8] True"
  have "\<exists>k'. demo_cstep\<^sup>*\<^sup>* k k' \<and> waiting rw_view [] (nodes k' 0) \<and> waiting rw_view [] (nodes k' 1) \<and>
    get_retained_message ''a'' (store (proc (nodes k' 0))) = Some ?p' \<and> p_payload ?p' = p_payload ?p' \<and>
    get_retained_message ''a'' (store (proc (nodes k' 1))) = Some ?p \<and> p_payload ?p = p_payload ?p"
    by (rule retained_messages_diverge [where m = 0 and m' = 0 and data = "[7]" and data' = "[8]" and d = 32 and d' = 32, OF B _ _ ref_json_ok])
      (use k demo_builder in \<open>simp_all add: ref_up demo_env_def default_features_def demo_broker_def demo_system_def will_delay_def
        demo_settings_def fill_buffer_def plain_builder_def plain_publish_def demo_lib_def checked_plus_def\<close>)
  then show ?thesis using k(1) by (blast intro: rtranclp_trans)
qed



end
