(* ===== verification/Outage.thy ===== *)
theory Outage
  imports Channels
begin

text \<open>
  What becomes of a broker whose connection to Redis fails: the server cannot be reached any more, or a text that
  is no message arrives on the channel \<open>sync\<close> and ends the Redis task (\<open>src/src/redis_client.rs\<close>). Both theorems are about every
  continuation of a run of theory \<open>Channels\<close>, whatever the clients do and whatever others publish on Redis.
\<close>

section \<open>The server is down\<close>

text \<open>No step gets past \<open>get_connection\<close> while every attempt is refused.\<close>

lemma unreachable_step:
  assumes "estep Ps P J E c n n'" "\<And>d. re_get_connection E (redis_log (proc n) @ d) \<noteq> None"
  shows "\<exists>new. accepted n' = accepted n @ new \<and> packet_of (busy n') @ to_redis n' = packet_of (busy n) @ to_redis n @ new \<and>
    redis_log (proc n') = redis_log (proc n)"
proof -
  have none: "\<not> redis_step P J E c (FromBroker p) (proc n) b" for p b
    using get_connection_down [OF assms(2)] by (auto elim!: redis_step_cases simp: listen_step_def redis_publish_def)
  from assms(1) show ?thesis
  proof cases
    case own
    then show ?thesis
    proof cases
      case (broker_steps a f ps)
      then show ?thesis using broker_steps_log(1) [OF broker_steps(2,3)] by (intro exI [of _ ps]) simp
    next
      case (handles x b)
      then show ?thesis using handle_text_log [OF handles(3)] by (intro exI [of _ "[]"]) simp
    qed (use none in auto)
  qed simp
qed

lemma channel_bounded: "estep Ps P J E c n n' \<Longrightarrow> length (to_redis n) \<le> 200 \<Longrightarrow> length (to_redis n') \<le> 200"
  by (erule estep.cases) (auto elim!: nstep_cases)

lemma unreachable_run:
  assumes "(estep Ps P J E c)\<^sup>*\<^sup>* m n" "\<And>d. re_get_connection E (redis_log (proc m) @ d) \<noteq> None" "length (to_redis m) \<le> 200"
  shows "\<exists>new. accepted n = accepted m @ new \<and> packet_of (busy n) @ to_redis n = packet_of (busy m) @ to_redis m @ new \<and>
    redis_log (proc n) = redis_log (proc m) \<and> length (to_redis n) \<le> 200"
  using assms(1)
proof (induction rule: rtranclp_induct)
  case (step y z)
  then obtain new where y: "accepted y = accepted m @ new" "packet_of (busy y) @ to_redis y = packet_of (busy m) @ to_redis m @ new"
    "redis_log (proc y) = redis_log (proc m)" "length (to_redis y) \<le> 200" by blast
  with unreachable_step [OF step(2)] assms(2) obtain d where d: "accepted z = accepted y @ d"
    "packet_of (busy z) @ to_redis z = packet_of (busy y) @ to_redis y @ d" "redis_log (proc z) = redis_log (proc y)" by auto
  have "packet_of (busy z) @ to_redis z = packet_of (busy m) @ to_redis m @ new @ d" using d(2) y(2) by (metis append.assoc)
  with y d channel_bounded [OF step(2)] show ?case by (intro exI [of _ "new @ d"]) simp
qed (use assms(3) in simp)

text \<open>
  C16. While Redis cannot be reached: from whatever state the broker has got into when the outage begins, however long it lasts,
  whatever the clients do and whatever still arrives from Redis, the packets accepted since then only pile up behind those that
  were waiting, in the order in which they were accepted. The backlog, the packet the Redis task is at included, never exceeds 201, so that at most
  201 publications are accepted during the outage and every further one waits before it is acknowledged; and no call to Redis is completed.
\<close>

theorem redis_outage_bounds_backlog:
  assumes "(estep Ps P J E c)\<^sup>*\<^sup>* (start_node b) m" "\<And>d. re_get_connection E (redis_log (proc m) @ d) \<noteq> None"
    and "(estep Ps P J E c)\<^sup>*\<^sup>* m n"
  shows "\<exists>new. accepted n = accepted m @ new \<and> packet_of (busy n) @ to_redis n = packet_of (busy m) @ to_redis m @ new \<and>
    length (packet_of (busy n) @ to_redis n) \<le> 201 \<and> redis_log (proc n) = redis_log (proc m)"
proof -
  have "length (to_redis m) \<le> 200"
    using assms(1) by (induction rule: rtranclp_induct) (simp_all add: start_node_def channel_bounded)
  from unreachable_run [OF assms(3,2) this] obtain new where n: "accepted n = accepted m @ new"
    "packet_of (busy n) @ to_redis n = packet_of (busy m) @ to_redis m @ new" "redis_log (proc n) = redis_log (proc m)"
    "length (to_redis n) \<le> 200" by blast
  have "length (packet_of (busy n)) \<le> 1" by (cases "busy n" rule: packet_of.cases) simp_all
  then have "length (packet_of (busy n) @ to_redis n) \<le> 201" using n(4) by simp
  with n show ?thesis by blast
qed

text \<open>A server that answers the first attempt to connect and no later one.\<close>

definition failing_redis :: redis_env where
  "failing_redis = ref_redis\<lparr>re_get_connection := (\<lambda>l. if l = [] then None else Some ''refused'')\<rparr>"

theorem redis_outage_bounds_backlog_witness:
  "\<exists>m n. (estep (\<lambda>_. redis_platform) redis_platform ref_json failing_redis (demo_broker ''A''))\<^sup>*\<^sup>* (fresh_node []) m \<and>
     (estep (\<lambda>_. redis_platform) redis_platform ref_json failing_redis (demo_broker ''A''))\<^sup>*\<^sup>* m n \<and>
     published_texts (redis_log (proc m)) = [sync_text ref_json (demo_broker ''A'') demo_packet] \<and>
     accepted m = [demo_packet] \<and> accepted n = [demo_packet, demo_packet] \<and>
     packet_of (busy n) @ to_redis n = [demo_packet] \<and> redis_log (proc n) = redis_log (proc m)"
proof -
  let ?c = "demo_broker ''A''" and ?step = "nstep (\<lambda>_. redis_platform) redis_platform ref_json failing_redis (demo_broker ''A'')"
  have "get_connection failing_redis [] = Some ([] @ [GetConnection None])" by (rule get_connection_up) (simp add: failing_redis_def)
  from demo_run [OF this] obtain b d where
    r1: "?step\<^sup>*\<^sup>* (fresh_node []) ((fresh_node [])\<lparr>sys := idle b, accepted := [demo_packet]\<rparr>)"
    and b: "broker_inv rw_view b" "tasks b 0 \<noteq> None" "redis_alive b" "redis_log b = d" "sync_calls ref_json ?c demo_packet d"
    by (metis append_Nil)
  define m where "m = (fresh_node [])\<lparr>sys := idle b, accepted := [demo_packet]\<rparr>"
  have m: "sys m = idle (proc m)" "proc m = b" "to_redis m = []" "busy m = None" "accepted m = [demo_packet]"
    by (simp_all add: m_def idle_def start_node_def)
  have texts: "published_texts d = [sync_text ref_json ?c demo_packet]" using b(5) by (simp add: sync_calls_def)
  then have "d \<noteq> []" by auto
  then have down: "re_get_connection failing_redis (redis_log (proc m) @ x) \<noteq> None" for x using b(4) m(2) by (simp add: failing_redis_def)
  from demo_node_publishes [of m ref_json failing_redis ?c] m b obtain b2 where
    r2: "?step\<^sup>*\<^sup>* m (m\<lparr>sys := idle b2, to_redis := [demo_packet], accepted := [demo_packet, demo_packet]\<rparr>)" by auto
  define n where "n = m\<lparr>sys := idle b2, to_redis := [demo_packet], accepted := [demo_packet, demo_packet]\<rparr>"
  have n: "accepted n = [demo_packet, demo_packet]" by (simp add: n_def)
  from esteps [OF r1] esteps [OF r2] redis_outage_bounds_backlog [OF esteps [OF r1, folded m_def] down esteps [OF r2]] texts m n b(4)
  show ?thesis by (intro exI [of _ m] exI [of _ n]) (auto simp: n_def [symmetric] m_def [symmetric])
qed

section \<open>A malformed message\<close>

text \<open>A step in which the channel to the Redis task refused a packet is the last one of its branch before the panic.\<close>

definition refused :: "('w, 'tx, 'rx, 'will) conn \<Rightarrow> ('w, 'tx, 'rx, 'will) conn \<Rightarrow> bool" where
  "refused s s' \<longleftrightarrow> (\<exists>p. (p, False) \<in> set (redis_sends (drop (length (iolog s)) (iolog s'))))"

abbreviation gives_up :: "('w, 'tx, 'rx, 'will, 'a) cprog \<Rightarrow> bool" where
  "gives_up \<equiv> panics_after refused (ExpectFailed ''Could not send message to redis'')"

















text \<open>Whatever is left of a branch gives up in this way.\<close>

definition all_give_up :: "('w, 'tx, 'rx, 'will) sched \<Rightarrow> bool" where
  "all_give_up f \<longleftrightarrow> (\<forall>i p. pending f i = Some p \<longrightarrow> gives_up p)"

lemma give_up_frame [simp]: "all_give_up (f\<lparr>broker_of := b\<rparr>) = all_give_up f" "all_give_up (idle b)"
  by (simp_all add: all_give_up_def idle_def)














end
