(* ===== verification/Settings.thy ===== *)
theory Settings
  imports Configuration "HOL-Library.Monad_Syntax"
begin

text \<open>
  What the structs of \<open>src/src/config.rs\<close> accept: the code that \<open>derive(Deserialize)\<close> stands for, field by
  field and feature by feature, and the tests of that file. Reading TOML and the conversion of single values belong to
  the crate \<open>config\<close> and are parameters; the locale \<open>toml_reader\<close> says what is relied on, and a small reader
  interprets it.
\<close>

section \<open>Deserialising the structs\<close>

text \<open>
  A value of the crate is a table or converts to numbers, strings and truth values. The text of an error depends on the
  order in which a table is visited and is not modelled.
\<close>

record 'v value_lib =
  field :: "'v \<Rightarrow> string \<Rightarrow> 'v option"
  as_u16 :: "'v \<Rightarrow> u16 option"
  as_str :: "'v \<Rightarrow> string option"
  as_bool :: "'v \<Rightarrow> bool option"

definition req :: "'v value_lib \<Rightarrow> 'v \<Rightarrow> string \<Rightarrow> ('v \<Rightarrow> 'a option) \<Rightarrow> 'a option" where
  "req L v k d = Option.bind (field L v k) d"

definition de_ports :: "'v value_lib \<Rightarrow> 'v \<Rightarrow> ports option" where
  "de_ports L v = do {
     a \<leftarrow> req L v ''tcp'' (as_u16 L);
     b \<leftarrow> req L v ''ws'' (as_u16 L);
     Some \<lparr>tcp = a, ws = b\<rparr> }"

definition de_tls :: "'v value_lib \<Rightarrow> 'v \<Rightarrow> tls option" where
  "de_tls L v = do {
     a \<leftarrow> req L v ''certfile'' (as_str L);
     b \<leftarrow> req L v ''keyfile'' (as_str L);
     Some \<lparr>certfile = a, keyfile = b\<rparr> }"

definition de_general :: "'v value_lib \<Rightarrow> 'v \<Rightarrow> general option" where
  "de_general L v = do {
     a \<leftarrow> req L v ''websocket'' (as_bool L);
     b \<leftarrow> req L v ''timeout'' (as_u16 L);
     Some \<lparr>websocket = a, timeout = b\<rparr> }"

definition de_big_query :: "'v value_lib \<Rightarrow> 'v \<Rightarrow> big_query option" where
  "de_big_query L v = do {
     a \<leftarrow> req L v ''project_id'' (as_str L);
     b \<leftarrow> req L v ''dataset_id'' (as_str L);
     c \<leftarrow> req L v ''table_id'' (as_str L);
     d \<leftarrow> req L v ''credentials_path'' (as_str L);
     Some \<lparr>project_id = a, dataset_id = b, table_id = c, credentials_path = d\<rparr> }"

definition de_redis :: "'v value_lib \<Rightarrow> 'v \<Rightarrow> redis_settings option" where
  "de_redis L v = do {
     a \<leftarrow> req L v ''host'' (as_str L);
     b \<leftarrow> req L v ''port'' (as_u16 L);
     Some \<lparr>redis_host = a, redis_port = b\<rparr> }"

text \<open>The fields \<open>bigquery\<close> and \<open>redis\<close> exist, and are then required, only with their features.\<close>

definition de_configuration :: "'v value_lib \<Rightarrow> features \<Rightarrow> 'v \<Rightarrow> configuration option" where
  "de_configuration L F v = do {
     p \<leftarrow> req L v ''ports'' (de_ports L);
     t \<leftarrow> req L v ''tls'' (de_tls L);
     g \<leftarrow> req L v ''general'' (de_general L);
     b \<leftarrow> (if feat_bq_logging F then map_option Some (req L v ''bigquery'' (de_big_query L)) else Some None);
     r \<leftarrow> (if feat_redis F then map_option Some (req L v ''redis'' (de_redis L)) else Some None);
     Some \<lparr>cfg_ports = p, cfg_tls = t, cfg_general = g, cfg_bigquery = b, cfg_redis = r\<rparr> }"

text \<open>\<open>Configuration::load\<close> uses the derived code of the build it is in.\<close>

definition derived_config ::
    "(config_source list \<Rightarrow> string + 'v) \<Rightarrow> 'v value_lib \<Rightarrow> features \<Rightarrow> 'v config_lib" where
  "derived_config build L F =
     \<lparr>config_build = build,
      try_deserialize = (\<lambda>v. case de_configuration L F v of None \<Rightarrow> Inl ''deserialize'' | Some c \<Rightarrow> Inr c)\<rparr>"

lemma configuration_matches_features:
  assumes "de_configuration L F v = Some c"
  shows "cfg_bigquery c \<noteq> None \<longleftrightarrow> feat_bq_logging F" "cfg_redis c \<noteq> None \<longleftrightarrow> feat_redis F"
  using assms by (auto simp: de_configuration_def bind_eq_Some_conv split: if_splits)

lemma settings_match_features:
  assumes "SETTINGS dbg (derived_config build L F) = Ok c"
  shows "cfg_bigquery c \<noteq> None \<longleftrightarrow> feat_bq_logging F" "cfg_redis c \<noteq> None \<longleftrightarrow> feat_redis F"
  using assms configuration_matches_features [of L F _ c]
  by (auto simp: SETTINGS_def load_def derived_config_def split: sum.splits option.splits)

section \<open>TOML documents\<close>

text \<open>
  The documents of the repository: sections with lines \<open>key = value\<close>, and empty lines. Numbers fit into 16 bits, as every number
  of the structs has to; what the crates do with others is not relied on.
\<close>

datatype leaf = TStr string | TNum nat | TBool bool

datatype toml_line = Blank | Section string | Entry string leaf

fun leaf_text :: "leaf \<Rightarrow> string" where
  "leaf_text (TStr s) = CHR 0x22 # s @ [CHR 0x22]"
| "leaf_text (TNum n) = show_nat n"
| "leaf_text (TBool b) = (if b then ''true'' else ''false'')"

fun line_text :: "toml_line \<Rightarrow> string" where
  "line_text Blank = []"
| "line_text (Section s) = ''['' @ s @ '']''"
| "line_text (Entry k x) = k @ '' = '' @ leaf_text x"

fun join_lines :: "string list \<Rightarrow> string" where
  "join_lines [] = []"
| "join_lines [l] = l"
| "join_lines (l # ls) = l @ CHR 0x0A # join_lines ls"

definition toml_text :: "toml_line list \<Rightarrow> string" where
  "toml_text ls = join_lines (map line_text ls)"

text \<open>The entries before the first section, and the sections.\<close>

fun sections :: "toml_line list \<Rightarrow> (string \<times> leaf) list \<times> (string \<times> (string \<times> leaf) list) list" where
  "sections [] = ([], [])"
| "sections (Blank # ls) = sections ls"
| "sections (Entry k x # ls) = (let (es, ss) = sections ls in ((k, x) # es, ss))"
| "sections (Section s # ls) = (let (es, ss) = sections ls in ([], (s, es) # ss))"

definition bare :: "char \<Rightarrow> bool" where
  "bare c \<longleftrightarrow> c \<in> set ''abcdefghijklmnopqrstuvwxyz0123456789_''"

fun plain_line :: "toml_line \<Rightarrow> bool" where
  "plain_line Blank = True"
| "plain_line (Section s) = (s \<noteq> [] \<and> list_all bare s)"
| "plain_line (Entry k x) = (k \<noteq> [] \<and> list_all bare k \<and>
     (case x of TStr s \<Rightarrow> list_all (\<lambda>c. 32 \<le> (of_char c :: nat) \<and> (of_char c :: nat) < 127 \<and> c \<noteq> CHR 0x22 \<and> c \<noteq> CHR 0x5C) s
      | TNum n \<Rightarrow> n < 65536
      | TBool b \<Rightarrow> True))"

definition plain_toml :: "toml_line list \<Rightarrow> bool" where
  "plain_toml ls \<longleftrightarrow> list_all plain_line ls \<and> fst (sections ls) = [] \<and> distinct (map fst (snd (sections ls))) \<and>
     list_all (\<lambda>(s, es). distinct (map fst es)) (snd (sections ls))"

fun denotes :: "'v value_lib \<Rightarrow> 'v \<Rightarrow> leaf \<Rightarrow> bool" where
  "denotes L u (TStr s) = (as_str L u = Some s)"
| "denotes L u (TNum n) = (as_u16 L u = Some (of_nat n))"
| "denotes L u (TBool b) = (as_bool L u = Some b)"

definition reads_entries :: "'v value_lib \<Rightarrow> 'v \<Rightarrow> (string \<times> leaf) list \<Rightarrow> bool" where
  "reads_entries L t es \<longleftrightarrow> (\<forall>k. case map_of es k of
     None \<Rightarrow> field L t k = None
   | Some x \<Rightarrow> (\<exists>u. field L t k = Some u \<and> denotes L u x))"

text \<open>
  What is relied on: a document of this form is read, its sections are the tables of the
  result, and its entries their values.
\<close>

locale toml_reader =
  fixes parse :: "string \<Rightarrow> string + 'v" and L :: "'v value_lib"
  assumes reads: "plain_toml ls \<Longrightarrow> \<exists>v. parse (toml_text ls) = Inr v \<and>
    (\<forall>s. case map_of (snd (sections ls)) s of
       None \<Rightarrow> field L v s = None
     | Some es \<Rightarrow> (\<exists>t. field L v s = Some t \<and> reads_entries L t es))"

section \<open>Documents read field by field\<close>

text \<open>The values of a document, and its deserialisation without any conversion between kinds.\<close>

datatype rval = Leaf leaf | Table "(string \<times> rval) list"

definition entry_table :: "(string \<times> leaf) list \<Rightarrow> rval" where
  "entry_table es = Table (map (\<lambda>(k, x). (k, Leaf x)) es)"

definition doc_val :: "toml_line list \<Rightarrow> rval" where
  "doc_val ls = Table (map (\<lambda>(s, es). (s, entry_table es)) (snd (sections ls)))"

definition doc_lib :: "rval value_lib" where
  "doc_lib =
     \<lparr>field = (\<lambda>v k. case v of Table m \<Rightarrow> map_of m k | Leaf _ \<Rightarrow> None),
      as_u16 = (\<lambda>v. case v of Leaf (TNum n) \<Rightarrow> Some (of_nat n) | _ \<Rightarrow> None),
      as_str = (\<lambda>v. case v of Leaf (TStr s) \<Rightarrow> Some s | _ \<Rightarrow> None),
      as_bool = (\<lambda>v. case v of Leaf (TBool b) \<Rightarrow> Some b | _ \<Rightarrow> None)\<rparr>"

lemma doc_field:
  "field doc_lib (doc_val ls) s =
     map_option entry_table (map_of (snd (sections ls)) s)"
  "field doc_lib (entry_table es) k = map_option Leaf (map_of es k)"
  by (simp_all add: doc_lib_def doc_val_def map_of_map) (simp add: entry_table_def map_of_map)

lemma denotes_doc: "denotes doc_lib (Leaf x) x"
  by (cases x) (simp_all add: doc_lib_def)

text \<open>The kind of value that each field needs.\<close>

datatype kind = KStr | KNum | KBool

fun kind_of :: "leaf \<Rightarrow> kind" where
  "kind_of (TStr s) = KStr"
| "kind_of (TNum n) = KNum"
| "kind_of (TBool b) = KBool"

definition field_kinds :: "((string \<times> string) \<times> kind) list" where
  "field_kinds =
     [((''ports'', ''tcp''), KNum), ((''ports'', ''ws''), KNum),
      ((''tls'', ''certfile''), KStr), ((''tls'', ''keyfile''), KStr),
      ((''general'', ''websocket''), KBool), ((''general'', ''timeout''), KNum),
      ((''bigquery'', ''project_id''), KStr), ((''bigquery'', ''dataset_id''), KStr), ((''bigquery'', ''table_id''), KStr),
      ((''bigquery'', ''credentials_path''), KStr), ((''redis'', ''host''), KStr), ((''redis'', ''port''), KNum)]"

definition well_kinded :: "toml_line list \<Rightarrow> bool" where
  "well_kinded ls \<longleftrightarrow> list_all (\<lambda>(s, es). list_all (\<lambda>(k, x). map_of field_kinds (s, k) \<in> {None, Some (kind_of x)}) es)
     (snd (sections ls))"

lemma well_kindedD:
  assumes "well_kinded ls" "map_of (snd (sections ls)) s = Some es" "map_of es k = Some x" "map_of field_kinds (s, k) = Some K"
  shows "kind_of x = K"
proof -
  have "(s, es) \<in> set (snd (sections ls))" "(k, x) \<in> set es" using assms(2,3) by (auto dest: map_of_SomeD)
  with assms(1) have "map_of field_kinds (s, k) \<in> {None, Some (kind_of x)}" by (force simp: well_kinded_def list_all_iff)
  with assms(4) show ?thesis by simp
qed

text \<open>A table with fields of the right kinds is read by every library as by the reference.\<close>

lemma req_agrees:
  assumes "reads_entries L t es" "\<And>x. map_of es k = Some x \<Longrightarrow> kind_of x = K"
  shows "K = KNum \<Longrightarrow> req L t k (as_u16 L) = req doc_lib (entry_table es) k (as_u16 doc_lib)"
    "K = KStr \<Longrightarrow> req L t k (as_str L) = req doc_lib (entry_table es) k (as_str doc_lib)"
    "K = KBool \<Longrightarrow> req L t k (as_bool L) = req doc_lib (entry_table es) k (as_bool doc_lib)"
proof -
  have "field L t k = None \<and> field doc_lib (entry_table es) k = None \<or>
    (\<exists>x u. kind_of x = K \<and> field L t k = Some u \<and> denotes L u x \<and> field doc_lib (entry_table es) k = Some (Leaf x))"
    using assms(1) [unfolded reads_entries_def, rule_format, of k] assms(2)
    by (cases "map_of es k") (auto simp: doc_field)
  then show "K = KNum \<Longrightarrow> req L t k (as_u16 L) = req doc_lib (entry_table es) k (as_u16 doc_lib)"
    "K = KStr \<Longrightarrow> req L t k (as_str L) = req doc_lib (entry_table es) k (as_str doc_lib)"
    "K = KBool \<Longrightarrow> req L t k (as_bool L) = req doc_lib (entry_table es) k (as_bool doc_lib)"
    by (auto simp: req_def doc_lib_def elim!: kind_of.elims)
qed

context toml_reader
begin

lemma section_agrees:
  assumes v: "plain_toml ls" "parse (toml_text ls) = Inr v"
    and d: "\<And>es t. map_of (snd (sections ls)) s = Some es \<Longrightarrow> reads_entries L t es \<Longrightarrow>
      d t = d' (entry_table es)"
  shows "req L v s d = req doc_lib (doc_val ls) s d'"
proof (cases "map_of (snd (sections ls)) s")
  case None
  with reads [OF v(1)] v(2) have "field L v s = None" by (auto dest!: spec [of _ s])
  with None show ?thesis by (simp add: req_def doc_field)
next
  case (Some es)
  with reads [OF v(1)] v(2) obtain t where "field L v s = Some t" "reads_entries L t es" by (auto dest!: spec [of _ s])
  with Some d [OF Some] show ?thesis by (simp add: req_def doc_field)
qed

lemma reads_as_document:
  assumes v: "plain_toml ls" "parse (toml_text ls) = Inr v" and k: "well_kinded ls"
  shows "de_configuration L F v = de_configuration doc_lib F (doc_val ls)"
proof -
  note kinds = well_kindedD [OF k]
  have "req L v ''ports'' (de_ports L) = req doc_lib (doc_val ls) ''ports'' (de_ports doc_lib)"
    by (rule section_agrees [OF v])
      (simp add: de_ports_def req_agrees(1) [where K = KNum] kinds [of "''ports''"] field_kinds_def)
  moreover have "req L v ''tls'' (de_tls L) = req doc_lib (doc_val ls) ''tls'' (de_tls doc_lib)"
    by (rule section_agrees [OF v])
      (simp add: de_tls_def req_agrees(2) [where K = KStr] kinds [of "''tls''"] field_kinds_def)
  moreover have "req L v ''general'' (de_general L) = req doc_lib (doc_val ls) ''general'' (de_general doc_lib)"
    by (rule section_agrees [OF v])
      (simp add: de_general_def req_agrees(1) [where K = KNum] req_agrees(3) [where K = KBool] kinds [of "''general''"] field_kinds_def)
  moreover have "req L v ''bigquery'' (de_big_query L) = req doc_lib (doc_val ls) ''bigquery'' (de_big_query doc_lib)"
    by (rule section_agrees [OF v])
      (simp add: de_big_query_def req_agrees(2) [where K = KStr] kinds [of "''bigquery''"] field_kinds_def)
  moreover have "req L v ''redis'' (de_redis L) = req doc_lib (doc_val ls) ''redis'' (de_redis doc_lib)"
    by (rule section_agrees [OF v])
      (simp add: de_redis_def req_agrees(1) [where K = KNum] req_agrees(2) [where K = KStr] kinds [of "''redis''"] field_kinds_def)
  ultimately show ?thesis by (simp add: de_configuration_def)
qed

end

section \<open>A reader of such documents\<close>

text \<open>It reads line by line, and interprets the contract.\<close>

fun split_lines :: "string \<Rightarrow> string list" where
  "split_lines [] = [[]]"
| "split_lines (c # cs) =
     (if c = CHR 0x0A then [] # split_lines cs
      else case split_lines cs of [] \<Rightarrow> [[c]] | l # ls \<Rightarrow> (c # l) # ls)"

definition digit :: "char \<Rightarrow> bool" where
  "digit c \<longleftrightarrow> 48 \<le> (of_char c :: nat) \<and> (of_char c :: nat) < 58"

definition read_nat :: "string \<Rightarrow> nat" where
  "read_nat = foldl (\<lambda>n c. 10 * n + (of_char c - 48)) 0"

definition read_leaf :: "string \<Rightarrow> leaf option" where
  "read_leaf s =
     (if s = [] then None
      else if hd s = CHR 0x22 then (if tl s \<noteq> [] \<and> last s = CHR 0x22 then Some (TStr (butlast (tl s))) else None)
      else if s = ''true'' then Some (TBool True)
      else if s = ''false'' then Some (TBool False)
      else if list_all digit s then Some (TNum (read_nat s))
      else None)"

definition read_line :: "string \<Rightarrow> toml_line option" where
  "read_line s =
     (if s = [] then Some Blank
      else if hd s = CHR ''['' then (if last s = CHR '']'' then Some (Section (butlast (tl s))) else None)
      else let r = dropWhile bare s
           in if take 3 r = '' = '' then map_option (Entry (takeWhile bare s)) (read_leaf (drop 3 r)) else None)"

definition read_toml :: "string \<Rightarrow> string + rval" where
  "read_toml s = (case those (map read_line (split_lines s)) of Some ls \<Rightarrow> Inr (doc_val ls) | None \<Rightarrow> Inl ''invalid TOML'')"

lemma split_lines_ne: "split_lines s \<noteq> []"
  by (cases s) (auto split: list.split)

lemma split_lines_line: "CHR 0x0A \<notin> set l \<Longrightarrow> split_lines l = [l]"
  by (induction l) auto

lemma split_lines_append: "CHR 0x0A \<notin> set l \<Longrightarrow> split_lines (l @ CHR 0x0A # s) = l # split_lines s"
  by (induction l) auto

lemma split_join: "\<forall>l \<in> set ls. CHR 0x0A \<notin> set l \<Longrightarrow> ls \<noteq> [] \<Longrightarrow> split_lines (join_lines ls) = ls"
  by (induction ls rule: join_lines.induct) (auto simp: split_lines_line split_lines_append)

lemma show_nat_digits: "list_all digit (show_nat n) \<and> show_nat n \<noteq> []"
proof (induction n rule: show_nat.induct)
  case (1 n)
  have "digit (char_of (48 + n mod 10 :: nat))" by (simp add: digit_def)
  with 1 show ?case by (subst (1 2) show_nat.simps) auto
qed

lemma read_show: "read_nat (show_nat n) = n"
proof (induction n rule: show_nat.induct)
  case (1 n)
  then show ?case by (subst show_nat.simps) (auto simp: read_nat_def)
qed

lemma digits_plain:
  assumes "list_all digit s" "s \<noteq> []"
  shows "hd s \<noteq> CHR 0x22" "s \<noteq> ''true''" "s \<noteq> ''false''" "CHR 0x0A \<notin> set s"
  using assms by (cases s; auto simp: digit_def list_all_iff)+

lemma read_leaf_text: "read_leaf (leaf_text x) = Some x"
proof (cases x)
  case (TNum n)
  show ?thesis using digits_plain [OF conjunct1 [OF show_nat_digits] conjunct2 [OF show_nat_digits], of n] show_nat_digits [of n]
    by (simp add: TNum read_leaf_def read_show)
qed (auto simp: read_leaf_def)

lemma bare_plain: "\<not> bare (CHR '' '')" "\<not> bare (CHR ''['')" "\<not> bare (CHR 0x0A)"
  by (simp_all add: bare_def)

lemma read_line_text:
  assumes "plain_line l"
  shows "read_line (line_text l) = Some l"
proof (cases l)
  case (Section s)
  then show ?thesis by (simp add: read_line_def)
next
  case (Entry k x)
  with assms have k: "k \<noteq> []" "\<forall>c \<in> set k. bare c" by (auto simp: list_all_iff)
  then have "hd (k @ s) \<noteq> CHR ''[''" for s using bare_plain(2) by (cases k) auto
  with k show ?thesis
    by (simp add: Entry read_line_def Let_def takeWhile_append2 dropWhile_append2 bare_plain read_leaf_text)
qed (simp add: read_line_def)

lemma line_text_plain: "plain_line l \<Longrightarrow> CHR 0x0A \<notin> set (line_text l)"
proof (cases l)
  case (Entry k x)
  moreover assume "plain_line l"
  moreover have "CHR 0x0A \<notin> set (show_nat n)" for n using digits_plain(4) show_nat_digits by blast
  ultimately show ?thesis by (cases x) (auto simp: list_all_iff bare_plain)
qed (auto simp: list_all_iff bare_plain)

lemma those_map: "\<forall>x \<in> set xs. f x = Some (g x) \<Longrightarrow> those (map f xs) = Some (map g xs)"
  by (induction xs) auto

lemma read_toml_text:
  assumes "list_all plain_line ls"
  shows "read_toml (toml_text ls) = Inr (doc_val ls)"
proof (cases "ls = []")
  case True
  then show ?thesis by (simp add: read_toml_def toml_text_def read_line_def doc_val_def)
next
  case False
  have "split_lines (toml_text ls) = map line_text ls"
    unfolding toml_text_def using assms False by (intro split_join) (auto simp: list_all_iff line_text_plain)
  moreover have "those (map read_line (map line_text ls)) = Some ls"
    using those_map [of ls "\<lambda>l. read_line (line_text l)" "\<lambda>l. l"] assms by (simp add: list_all_iff read_line_text comp_def)
  ultimately show ?thesis by (simp add: read_toml_def)
qed

interpretation plain: toml_reader read_toml doc_lib
proof
  fix ls assume "plain_toml ls"
  then have "read_toml (toml_text ls) = Inr (doc_val ls)" by (simp add: plain_toml_def read_toml_text)
  moreover have "reads_entries doc_lib (entry_table es) es" for es
    by (auto simp: reads_entries_def doc_field denotes_doc split: option.split)
  ultimately show "\<exists>v. read_toml (toml_text ls) = Inr v \<and> (\<forall>s. case map_of (snd (sections ls)) s of
       None \<Rightarrow> field doc_lib v s = None | Some es \<Rightarrow> (\<exists>t. field doc_lib v s = Some t \<and> reads_entries doc_lib t es))"
    by (auto simp: doc_field split: option.split)
qed

section \<open>The configuration files of the repository\<close>

text \<open>\<open>File::from_str(..).build().unwrap().try_deserialize().unwrap()\<close>\<close>

definition config_from_str :: "(string \<Rightarrow> string + 'v) \<Rightarrow> 'v value_lib \<Rightarrow> features \<Rightarrow> string \<Rightarrow> configuration result" where
  "config_from_str parse L F text =
     (case parse text of
        Inl e \<Rightarrow> Panic (UnwrapErr e)
      | Inr v \<Rightarrow>
          (case de_configuration L F v of
             None \<Rightarrow> Panic (UnwrapErr ''deserialize'')
           | Some config \<Rightarrow> Ok config))"

definition TEST_CONFIG :: string where
  \<open>TEST_CONFIG = join_lines
     ['''',
      ''[general]'',
      ''websocket = true'',
      ''timeout = 10'',
      '''',
      ''[tls]'',
      ''certfile = "certs/broker/broker.crt"'',
      ''keyfile = "certs/broker/broker.key"'',
      '''',
      ''[ports]'',
      ''tcp = 1883'',
      ''ws = 8080'',
      '''']\<close>

definition test_ports :: "(string \<Rightarrow> string + 'v) \<Rightarrow> 'v value_lib \<Rightarrow> features \<Rightarrow> bool" where
  "test_ports parse L F =
     (case config_from_str parse L F TEST_CONFIG of
        Ok config \<Rightarrow>
          tcp (cfg_ports config) = 1883 \<and> ws (cfg_ports config) = 8080 \<and>
          certfile (cfg_tls config) = ''certs/broker/broker.crt'' \<and>
          keyfile (cfg_tls config) = ''certs/broker/broker.key'' \<and> websocket (cfg_general config)
      | _ \<Rightarrow> False)"

definition bigquery_config :: string where
  \<open>bigquery_config = TEST_CONFIG @ join_lines
     ['''',
      ''[bigquery]'',
      ''project_id = "azubi-knowhow-building"'',
      ''dataset_id = "mcloudttbq"'',
      ''table_id = "topic-log"'',
      ''credentials_path = "sa.key"'']\<close>

definition test_bigquery :: "(string \<Rightarrow> string + 'v) \<Rightarrow> 'v value_lib \<Rightarrow> features \<Rightarrow> bool" where
  "test_bigquery parse L F =
     (case config_from_str parse L F bigquery_config of
        Ok config \<Rightarrow>
          (case cfg_bigquery config of
             Some b \<Rightarrow> project_id b = ''azubi-knowhow-building'' \<and> dataset_id b = ''mcloudttbq'' \<and> table_id b = ''topic-log''
           | None \<Rightarrow> False)
      | _ \<Rightarrow> False)"

definition redis_config :: string where
  \<open>redis_config = TEST_CONFIG @ join_lines ['''', ''[redis]'', ''host = "redis"'', ''port = 6379'']\<close>

definition test_redis :: "(string \<Rightarrow> string + 'v) \<Rightarrow> 'v value_lib \<Rightarrow> features \<Rightarrow> bool" where
  "test_redis parse L F =
     (case config_from_str parse L F redis_config of
        Ok config \<Rightarrow> (case cfg_redis config of Some r \<Rightarrow> redis_host r = ''redis'' \<and> redis_port r = 6379 | None \<Rightarrow> False)
      | _ \<Rightarrow> False)"

text \<open>The file \<open>config.toml\<close> of the repository.\<close>

definition config_toml :: string where
  \<open>config_toml = join_lines
     [''[general]'', ''websocket = true'', ''timeout = 30'', '''',
      ''[tls]'', ''certfile = "certs/server.crt"'', ''keyfile = "certs/server.key"'', '''',
      ''[ports]'', ''tcp = 1883'', ''ws = 8080'', '''',
      ''[bigquery]'', ''project_id = "your-project-id"'', ''dataset_id = "mcloudttbq"'', ''table_id = "topic-log"'',
      ''credentials_path = "sa.key"'', '''',
      ''[redis]'', ''host = "redis"'', ''port = 6379'']\<close>

text \<open>These texts as lines.\<close>

definition test_lines :: "toml_line list" where
  "test_lines =
     [Blank, Section ''general'', Entry ''websocket'' (TBool True), Entry ''timeout'' (TNum 10),
      Blank, Section ''tls'', Entry ''certfile'' (TStr ''certs/broker/broker.crt''), Entry ''keyfile'' (TStr ''certs/broker/broker.key''),
      Blank, Section ''ports'', Entry ''tcp'' (TNum 1883), Entry ''ws'' (TNum 8080)]"

definition bigquery_lines :: "string \<Rightarrow> toml_line list" where
  "bigquery_lines project =
     [Blank, Section ''bigquery'', Entry ''project_id'' (TStr project), Entry ''dataset_id'' (TStr ''mcloudttbq''),
      Entry ''table_id'' (TStr ''topic-log''), Entry ''credentials_path'' (TStr ''sa.key'')]"

definition redis_lines :: "toml_line list" where
  "redis_lines = [Blank, Section ''redis'', Entry ''host'' (TStr ''redis''), Entry ''port'' (TNum 6379)]"

definition shipped_lines :: "toml_line list" where
  "shipped_lines =
     [Section ''general'', Entry ''websocket'' (TBool True), Entry ''timeout'' (TNum 30),
      Blank, Section ''tls'', Entry ''certfile'' (TStr ''certs/server.crt''), Entry ''keyfile'' (TStr ''certs/server.key''),
      Blank, Section ''ports'', Entry ''tcp'' (TNum 1883), Entry ''ws'' (TNum 8080)] @
     bigquery_lines ''your-project-id'' @ redis_lines"

lemmas lines_defs = test_lines_def bigquery_lines_def redis_lines_def shipped_lines_def


lemma numbers_text:
  "show_nat 10 = ''10''" "show_nat 30 = ''30''" "show_nat 1883 = ''1883''" "show_nat 8080 = ''8080''" "show_nat 6379 = ''6379''"
  by (simp_all add: show_nat.simps char_of_def bit_0)

lemma texts_as_lines:
  "TEST_CONFIG = toml_text (test_lines @ [Blank])"
  "bigquery_config = toml_text (test_lines @ [Blank] @ tl (bigquery_lines ''azubi-knowhow-building''))"
  "redis_config = toml_text (test_lines @ [Blank] @ tl redis_lines)"
  "config_toml = toml_text shipped_lines"
  by (simp_all add: TEST_CONFIG_def bigquery_config_def redis_config_def config_toml_def lines_defs toml_text_def numbers_text)

lemma texts_plain:
  "plain_toml (test_lines @ [Blank])" "plain_toml (test_lines @ [Blank] @ tl (bigquery_lines ''azubi-knowhow-building''))"
  "plain_toml (test_lines @ [Blank] @ tl redis_lines)" "plain_toml shipped_lines"
  by (simp_all add: plain_toml_def lines_defs bare_def)

lemma texts_well_kinded:
  "well_kinded (test_lines @ [Blank])" "well_kinded (test_lines @ [Blank] @ tl (bigquery_lines ''azubi-knowhow-building''))"
  "well_kinded (test_lines @ [Blank] @ tl redis_lines)" "well_kinded shipped_lines"
  by (simp_all add: well_kinded_def lines_defs field_kinds_def)

lemmas read_defs = de_configuration_def de_ports_def de_tls_def de_general_def de_big_query_def de_redis_def req_def doc_lib_def
  doc_val_def entry_table_def lines_defs

definition test_general :: "ports \<times> tls \<times> general" where
  "test_general = (\<lparr>tcp = 1883, ws = 8080\<rparr>, \<lparr>certfile = ''certs/broker/broker.crt'', keyfile = ''certs/broker/broker.key''\<rparr>,
     \<lparr>websocket = True, timeout = 10\<rparr>)"

definition with_sections :: "ports \<times> tls \<times> general \<Rightarrow> big_query option \<Rightarrow> redis_settings option \<Rightarrow> configuration" where
  "with_sections g b r = \<lparr>cfg_ports = fst g, cfg_tls = fst (snd g), cfg_general = snd (snd g), cfg_bigquery = b, cfg_redis = r\<rparr>"

lemma read_texts:
  "de_configuration doc_lib F (doc_val (test_lines @ [Blank])) =
     (if feat_bq_logging F \<or> feat_redis F then None else Some (with_sections test_general None None))"
  "de_configuration doc_lib F (doc_val (test_lines @ [Blank] @ tl (bigquery_lines p))) =
     (if feat_redis F then None else Some (with_sections test_general
        (if feat_bq_logging F
         then Some \<lparr>project_id = p, dataset_id = ''mcloudttbq'', table_id = ''topic-log'', credentials_path = ''sa.key''\<rparr>
         else None) None))"
  "de_configuration doc_lib F (doc_val (test_lines @ [Blank] @ tl redis_lines)) =
     (if feat_bq_logging F then None else Some (with_sections test_general None
        (if feat_redis F then Some \<lparr>redis_host = ''redis'', redis_port = 6379\<rparr> else None)))"
  by (simp_all add: read_defs with_sections_def test_general_def)

lemma shipped_read:
  "\<exists>c. de_configuration doc_lib F (doc_val shipped_lines) = Some c \<and> cfg_ports c = \<lparr>tcp = 1883, ws = 8080\<rparr> \<and>
     cfg_tls c = \<lparr>certfile = ''certs/server.crt'', keyfile = ''certs/server.key''\<rparr> \<and> cfg_general c = \<lparr>websocket = True, timeout = 30\<rparr>"
  by (simp add: read_defs)

context toml_reader
begin

lemma config_from_lines:
  assumes "plain_toml ls" "well_kinded ls"
  shows "config_from_str parse L F (toml_text ls) =
    (case de_configuration doc_lib F (doc_val ls) of None \<Rightarrow> Panic (UnwrapErr ''deserialize'') | Some c \<Rightarrow> Ok c)"
proof -
  obtain v where "parse (toml_text ls) = Inr v" using reads [OF assms(1)] by blast
  with reads_as_document [OF assms(1) this assms(2)] show ?thesis by (simp add: config_from_str_def)
qed

lemma load_from_lines:
  assumes "plain_toml ls" "well_kinded ls"
    and "build [ConfigFile ''config.toml'', EnvironmentPrefix ''mcloudtt''] = parse (toml_text ls)"
  shows "load (derived_config build L F) =
    (case de_configuration doc_lib F (doc_val ls) of None \<Rightarrow> Err (from_config_error ''deserialize'') | Some c \<Rightarrow> Ok c)"
proof -
  obtain v where "parse (toml_text ls) = Inr v" using reads [OF assms(1)] by blast
  with reads_as_document [OF assms(1) this assms(2)] assms(3) show ?thesis
    by (simp add: load_def derived_config_def split: option.split)
qed

end

section \<open>Property\<close>

text \<open>
  C40. Which builds the configuration files fit. Whatever reader of TOML is used: \<open>Configuration::load\<close> accepts \<open>config.toml\<close> of
  the repository, when no variable of the environment changes it, with every choice of features and with the sections of exactly the
  chosen features in the result; but each test of
  \<open>config.rs\<close> passes only without the features whose section its text lacks: \<open>test_ports\<close> with neither \<open>bq_logging\<close> nor \<open>redis\<close>,
  \<open>test_bigquery\<close> and \<open>test_redis\<close> only with their own feature and without the other. With both features every one of them fails.
\<close>

theorem configuration_by_features:
  assumes "toml_reader parse L"
    and "build [ConfigFile ''config.toml'', EnvironmentPrefix ''mcloudtt''] = parse config_toml"
  shows "(\<exists>c. load (derived_config build L F) = Ok c \<and> cfg_ports c = \<lparr>tcp = 1883, ws = 8080\<rparr> \<and>
      cfg_tls c = \<lparr>certfile = ''certs/server.crt'', keyfile = ''certs/server.key''\<rparr> \<and>
      cfg_general c = \<lparr>websocket = True, timeout = 30\<rparr> \<and>
      (cfg_bigquery c \<noteq> None \<longleftrightarrow> feat_bq_logging F) \<and> (cfg_redis c \<noteq> None \<longleftrightarrow> feat_redis F)) \<and>
    (test_ports parse L F \<longleftrightarrow> \<not> feat_bq_logging F \<and> \<not> feat_redis F) \<and>
    (test_bigquery parse L F \<longleftrightarrow> feat_bq_logging F \<and> \<not> feat_redis F) \<and>
    (test_redis parse L F \<longleftrightarrow> feat_redis F \<and> \<not> feat_bq_logging F)"
proof -
  note read = toml_reader.config_from_lines [OF assms(1)]
  obtain c where c: "de_configuration doc_lib F (doc_val shipped_lines) = Some c" "cfg_ports c = \<lparr>tcp = 1883, ws = 8080\<rparr>"
    "cfg_tls c = \<lparr>certfile = ''certs/server.crt'', keyfile = ''certs/server.key''\<rparr>" "cfg_general c = \<lparr>websocket = True, timeout = 30\<rparr>"
    using shipped_read by blast
  have "load (derived_config build L F) = Ok c"
    using toml_reader.load_from_lines [where build = build, OF assms(1) texts_plain(4) texts_well_kinded(4) assms(2) [unfolded texts_as_lines]] by (simp add: c)
  moreover have "test_ports parse L F \<longleftrightarrow> \<not> feat_bq_logging F \<and> \<not> feat_redis F"
    unfolding test_ports_def texts_as_lines read [OF texts_plain(1) texts_well_kinded(1)] read_texts
    by (simp add: with_sections_def test_general_def)
  moreover have "test_bigquery parse L F \<longleftrightarrow> feat_bq_logging F \<and> \<not> feat_redis F"
    unfolding test_bigquery_def texts_as_lines read [OF texts_plain(2) texts_well_kinded(2)] read_texts
    by (simp add: with_sections_def)
  moreover have "test_redis parse L F \<longleftrightarrow> feat_redis F \<and> \<not> feat_bq_logging F"
    unfolding test_redis_def texts_as_lines read [OF texts_plain(3) texts_well_kinded(3)] read_texts
    by (simp add: with_sections_def)
  ultimately show ?thesis using c configuration_matches_features [OF c(1)] by blast
qed

text \<open>Sources that are the shipped file and an environment without variables of the broker.\<close>

definition shipped_build :: "config_source list \<Rightarrow> string + rval" where
  "shipped_build srcs =
     (if srcs = [ConfigFile ''config.toml'', EnvironmentPrefix ''mcloudtt''] then read_toml config_toml else Inl ''no such file'')"

theorem configuration_by_features_witness:
  "test_ports read_toml doc_lib default_features \<and> \<not> test_ports read_toml doc_lib (default_features\<lparr>feat_redis := True\<rparr>) \<and>
   test_redis read_toml doc_lib (default_features\<lparr>feat_redis := True\<rparr>) \<and>
   (\<exists>c. load (derived_config shipped_build doc_lib (default_features\<lparr>feat_redis := True\<rparr>)) = Ok c \<and> timeout (cfg_general c) = 30 \<and>
      cfg_redis c \<noteq> None)"
proof -
  have build: "shipped_build [ConfigFile ''config.toml'', EnvironmentPrefix ''mcloudtt''] = read_toml config_toml"
    by (simp add: shipped_build_def)
  have on: "feat_redis (default_features\<lparr>feat_redis := True\<rparr>)" "\<not> feat_bq_logging default_features" "\<not> feat_redis default_features"
    by (simp_all add: default_features_def)
  from configuration_by_features [where build = shipped_build, OF plain.toml_reader_axioms build, of default_features]
    configuration_by_features [where build = shipped_build, OF plain.toml_reader_axioms build, of "default_features\<lparr>feat_redis := True\<rparr>"]
  show ?thesis using on by auto
qed

end
