(* ===== verification/Firmware.thy ===== *)
theory Firmware
  imports Broker "HOL-Library.Sublist"
begin

text \<open>
  An example client of the broker: the motion sensor firmware of
  \<open>src/examples/esp32-client/src/main.rs\<close> and the program \<open>src/examples/package_generator.rs\<close> that prints
  the publication the firmware sends. The endless loops of the firmware are a state machine whose
  locations are the loop heads; a step is one iteration, or one attempt to report. Calls to the network stack, the
  sensor and the timers are entries of a log, and what they return is decided by a record of answer
  functions, as for a connection of the broker in theory \<open>Platform\<close>. Texts printed to the console are
  left out.
\<close>

section \<open>The packets\<close>

definition ascii :: "string \<Rightarrow> bytes" where
  "ascii s = map (\<lambda>c. of_nat (of_char c)) s"

definition CONNECT_PACKET :: bytes where
  "CONNECT_PACKET = [0x10, 0x0e, 0, 0, 5, 0, 0, 0, 0, 0, 5] @ ascii ''esp32''"

definition PUBLISH_PACKET :: bytes where
  "PUBLISH_PACKET = ascii ''0'' @ [0x22, 0, 8] @ ascii ''esp32-c3'' @ [0] @ ascii ''Motion sensor triggered''"

definition PING_REQ :: bytes where
  "PING_REQ = [0xc0, 0]"

text \<open>The packet of the generator, and what it prints: the crate's encoding for the default version.\<close>

definition generator_packet :: publish_packet where
  "generator_packet =
     \<lparr>p_is_duplicate = False, p_qos = AtMostOnce, p_retain = False, p_topic = Topic ''esp32-c3'',
      p_packet_id = None, p_payload_format_indicator = None, p_message_expiry_interval = None,
      p_topic_alias = None, p_response_topic = None, p_correlation_data = None, p_user_properties = [],
      p_subscription_identifiers = [], p_content_type = None, p_payload = ascii ''Motion sensor triggered''\<rparr>"

definition generator_main :: "'will mqtt_lib \<Rightarrow> protocol_version \<Rightarrow> bytes" where
  "generator_main L default_version = encode_mqtt L (PublishP generator_packet) default_version"

section \<open>The task that reports motion\<close>

text \<open>Durations are in milliseconds; an address is its four bytes and the port.\<close>

type_synonym endpoint = "nat list \<times> nat"

datatype fw_call =
    IsLinkUp bool
  | StackConfig "string option"
  | TimerAfter nat
  | NewSocket
  | SetTimeout nat
  | IsHigh bool
  | SocketConnect endpoint "string option"
  | SocketWrite bytes "string option"
  | SocketRead "string + bytes"

record fw_env =
  fw_link_up :: "fw_call list \<Rightarrow> bool"
  fw_config :: "fw_call list \<Rightarrow> string option"
  fw_is_high :: "fw_call list \<Rightarrow> string + bool"
  fw_connect :: "fw_call list \<Rightarrow> endpoint \<Rightarrow> string option"
  fw_write :: "fw_call list \<Rightarrow> bytes \<Rightarrow> string option"
  fw_read :: "fw_call list \<Rightarrow> string + bytes"

type_synonym 'a fw_io = "(fw_call list, string, 'a) io"

definition timer_after :: "nat \<Rightarrow> unit fw_io" where
  "timer_after ms = modify_io (\<lambda>l. l @ [TimerAfter ms])"

definition is_high_unwrap :: "fw_env \<Rightarrow> bool fw_io" where
  "is_high_unwrap E l =
     (case fw_is_high E l of
        Inl e \<Rightarrow> (Panic (UnwrapErr e), l)
      | Inr high \<Rightarrow> (Ok high, l @ [IsHigh high]))"

definition socket_connect :: "fw_env \<Rightarrow> endpoint \<Rightarrow> string option fw_io" where
  "socket_connect E remote l = (Ok (fw_connect E l remote), l @ [SocketConnect remote (fw_connect E l remote)])"

definition socket_write_all :: "fw_env \<Rightarrow> bytes \<Rightarrow> string option fw_io" where
  "socket_write_all E buf l = (Ok (fw_write E l buf), l @ [SocketWrite buf (fw_write E l buf)])"

definition socket_read :: "fw_env \<Rightarrow> (string + bytes) fw_io" where
  "socket_read E l = (Ok (fw_read E l), l @ [SocketRead (fw_read E l)])"

text \<open>
  The loop heads of \<open>task\<close>: waiting for the link and for an address, the outer loop that makes a
  socket, the loop that polls the sensor, the rest of the inner loop once motion was seen, and the
  long wait after the inner loop was left.
\<close>

datatype location = WaitLink | WaitAddress | MakeSocket | PollSensor | Report | Pause

definition wait_link :: "fw_env \<Rightarrow> location fw_io" where
  "wait_link E l =
     (let up = fw_link_up E l; l' = l @ [IsLinkUp up]
      in if up then (Ok WaitAddress, l') else (Ok WaitLink, l' @ [TimerAfter 500]))"

definition wait_address :: "fw_env \<Rightarrow> location fw_io" where
  "wait_address E l =
     (let config = fw_config E l; l' = l @ [StackConfig config]
      in case config of Some _ \<Rightarrow> (Ok MakeSocket, l') | None \<Rightarrow> (Ok WaitAddress, l' @ [TimerAfter 500]))"

definition make_socket :: "location fw_io" where
  "make_socket l = (Ok PollSensor, l @ [TimerAfter 1000, NewSocket, SetTimeout 10000])"

text \<open>The pin is read for the message on the console and again for the decision.\<close>

definition poll_sensor :: "fw_env \<Rightarrow> location fw_io" where
  "poll_sensor E =
     then_io (timer_after 100)
     (then_io (is_high_unwrap E)
     (bind_io (is_high_unwrap E) (\<lambda>high. ret_io (if high then Report else PollSensor))))"

definition remote_endpoint :: endpoint where
  "remote_endpoint = ([34, 66, 45, 21], 1883)"

definition report :: "fw_env \<Rightarrow> location fw_io" where
  "report E =
     bind_io (socket_connect E remote_endpoint) (\<lambda>r.
       case r of
         Some e \<Rightarrow> ret_io PollSensor
       | None \<Rightarrow>
           bind_io (socket_write_all E CONNECT_PACKET) (\<lambda>r.
             case r of
               Some e \<Rightarrow> ret_io Pause
             | None \<Rightarrow>
                 bind_io (socket_read E) (\<lambda>r.
                   case r of
                     Inl e \<Rightarrow> ret_io Pause
                   | Inr data \<Rightarrow>
                       if data = [] then ret_io Pause
                       else (case from_utf8 data of
                               None \<Rightarrow> panic_io (UnwrapErr ''Utf8Error'')
                             | Some _ \<Rightarrow>
                                 then_io (timer_after 1000)
                                 (then_io (socket_write_all E PUBLISH_PACKET)
                                 (then_io (timer_after 30000) (ret_io PollSensor)))))))"

definition fw_step :: "fw_env \<Rightarrow> location \<Rightarrow> location fw_io" where
  "fw_step E loc =
     (case loc of
        WaitLink \<Rightarrow> wait_link E
      | WaitAddress \<Rightarrow> wait_address E
      | MakeSocket \<Rightarrow> make_socket
      | PollSensor \<Rightarrow> poll_sensor E
      | Report \<Rightarrow> report E
      | Pause \<Rightarrow> then_io (timer_after 120000) (ret_io MakeSocket))"

text \<open>The locations and logs the task gets to; a panic ends it.\<close>

inductive fw_reaches :: "fw_env \<Rightarrow> location \<Rightarrow> fw_call list \<Rightarrow> bool" for E where
  starts: "fw_reaches E WaitLink []"
| steps: "fw_reaches E loc l \<Longrightarrow> fw_step E loc l = (Ok loc', l') \<Longrightarrow> fw_reaches E loc' l'"

section \<open>The task that keeps the wifi connected\<close>

datatype wifi_call =
    GetWifiState bool
  | WaitDisconnected
  | WifiTimer nat
  | IsStarted "string + bool"
  | SetConfiguration string string "string option"
  | WifiStart "string option"
  | WifiConnect "string option"

record wifi_env =
  wf_sta_connected :: "wifi_call list \<Rightarrow> bool"
  wf_is_started :: "wifi_call list \<Rightarrow> string + bool"
  wf_set_configuration :: "wifi_call list \<Rightarrow> string \<Rightarrow> string \<Rightarrow> string option"
  wf_start :: "wifi_call list \<Rightarrow> string option"
  wf_connect :: "wifi_call list \<Rightarrow> string option"

type_synonym wifi_io = "(wifi_call list, string, unit) io"

definition wait_while_connected :: "wifi_env \<Rightarrow> wifi_io" where
  "wait_while_connected E l =
     (let connected = wf_sta_connected E l; l' = l @ [GetWifiState connected]
      in (Ok (), if connected then l' @ [WaitDisconnected, WifiTimer 5000] else l'))"

text \<open>Both results are unwrapped.\<close>

definition configure_and_start :: "wifi_env \<Rightarrow> string \<Rightarrow> string \<Rightarrow> wifi_io" where
  "configure_and_start E ssid password l =
     (let r = wf_set_configuration E l ssid password; l1 = l @ [SetConfiguration ssid password r]
      in case r of
           Some e \<Rightarrow> (Panic (UnwrapErr e), l1)
         | None \<Rightarrow>
             let r = wf_start E l1; l2 = l1 @ [WifiStart r]
             in case r of Some e \<Rightarrow> (Panic (UnwrapErr e), l2) | None \<Rightarrow> (Ok (), l2))"

definition start_if_needed :: "wifi_env \<Rightarrow> string \<Rightarrow> string \<Rightarrow> wifi_io" where
  "start_if_needed E ssid password l =
     (let r = wf_is_started E l; l' = l @ [IsStarted r]
      in if r = Inr True then (Ok (), l') else configure_and_start E ssid password l')"

definition wifi_connect :: "wifi_env \<Rightarrow> wifi_io" where
  "wifi_connect E l =
     (let r = wf_connect E l; l' = l @ [WifiConnect r]
      in (Ok (), case r of None \<Rightarrow> l' | Some _ \<Rightarrow> l' @ [WifiTimer 5000]))"

text \<open>One iteration of the loop of \<open>connection\<close>, and \<open>n\<close> of them.\<close>

definition wifi_round :: "wifi_env \<Rightarrow> string \<Rightarrow> string \<Rightarrow> wifi_io" where
  "wifi_round E ssid password =
     then_io (wait_while_connected E) (then_io (start_if_needed E ssid password) (wifi_connect E))"

definition wifi_rounds :: "wifi_env \<Rightarrow> string \<Rightarrow> string \<Rightarrow> nat \<Rightarrow> wifi_io" where
  "wifi_rounds E ssid password n = for_io (\<lambda>_. wifi_round E ssid password) [0..<n]"

text \<open>
  Along every run of the task, the radio is asked to connect only right after it has been found started, or
  has just been given the credentials and started.
\<close>

definition connects_ready :: "string \<Rightarrow> string \<Rightarrow> wifi_call list \<Rightarrow> bool" where
  "connects_ready ssid password xs \<longleftrightarrow>
     (\<forall>ys c zs. xs = ys @ WifiConnect c # zs \<longrightarrow>
        suffix [IsStarted (Inr True)] ys \<or> suffix [SetConfiguration ssid password None, WifiStart None] ys)"

lemma connects_ready_Nil [simp]: "connects_ready ssid password []"
  by (simp add: connects_ready_def)

lemma connects_ready_append:
  assumes "connects_ready ssid password xs" "connects_ready ssid password xs'"
  shows "connects_ready ssid password (xs @ xs')"
  unfolding connects_ready_def
proof (intro allI impI)
  fix ys c zs
  assume "xs @ xs' = ys @ WifiConnect c # zs"
  then consider vs where "xs = ys @ WifiConnect c # vs" | vs where "ys = xs @ vs" "xs' = vs @ WifiConnect c # zs"
    by (auto simp: append_eq_append_conv2 append_eq_Cons_conv)
  then show "suffix [IsStarted (Inr True)] ys \<or> suffix [SetConfiguration ssid password None, WifiStart None] ys"
    by cases (use assms in \<open>unfold connects_ready_def, blast intro: suffix_appendI\<close>)+
qed

lemma wifi_round_ready:
  "\<exists>xs. snd (wifi_round E ssid password l) = l @ xs \<and> connects_ready ssid password xs"
  by (simp add: wifi_round_def then_io_def bind_io_def wait_while_connected_def start_if_needed_def
      configure_and_start_def wifi_connect_def Let_def connects_ready_def suffix_def Cons_eq_append_conv append_eq_Cons_conv
      split: option.split)

lemma wifi_rounds_ready: "connects_ready ssid password (snd (wifi_rounds E ssid password n []))"
proof -
  have "tracks (\<lambda>l l'. connects_ready ssid password l \<longrightarrow> connects_ready ssid password l') (wifi_rounds E ssid password n)"
    unfolding wifi_rounds_def
    by (intro keep_inv.loop tracksI impI) (metis wifi_round_ready connects_ready_append)
  then show ?thesis by (simp add: tracks_def)
qed

section \<open>Bringing up the board\<close>

text \<open>
  \<open>main\<close>: the calls to the drivers in their order, with the arguments the source gives them; only starting the radio can
  fail. The executor then runs the tasks that could be spawned: an error of \<open>spawn\<close> is dropped by \<open>ok()\<close>. \<open>net_task\<close> does nothing
  but run the network stack, whose behaviour is the answers of \<open>fw_env\<close>.
\<close>

datatype fw_task = ConnectionTask | NetTask | MotionTask

datatype boot_call =
    InitLogger
  | InitHeap
  | TakePeripherals
  | ConfigureClocks nat
  | DisableSwd
  | DisableRwdt
  | InitializeWifi "string option"
  | NewWifi
  | InitEmbassy
  | NewStack nat nat
  | PullDownInput nat
  | Spawn fw_task bool

record fw_boot =
  boot_initialize :: "boot_call list \<Rightarrow> string option"
  boot_spawn :: "boot_call list \<Rightarrow> fw_task \<Rightarrow> bool"

definition spawn_ok :: "fw_boot \<Rightarrow> fw_task \<Rightarrow> (boot_call list, string, unit) io" where
  "spawn_ok E t l = (Ok (), l @ [Spawn t (boot_spawn E l t)])"

definition fw_main :: "fw_boot \<Rightarrow> (boot_call list, string, unit) io" where
  "fw_main E l =
     (let l1 = l @ [InitLogger, InitHeap, TakePeripherals, ConfigureClocks 160, DisableSwd, DisableRwdt];
          r = boot_initialize E l1; l2 = l1 @ [InitializeWifi r]
      in case r of
           Some e \<Rightarrow> (Panic (UnwrapErr e), l2)
         | None \<Rightarrow>
             then_io (spawn_ok E ConnectionTask)
             (then_io (spawn_ok E NetTask) (spawn_ok E MotionTask))
               (l2 @ [NewWifi, InitEmbassy, NewStack 3 1234, PullDownInput 10]))"

definition spawned :: "boot_call list \<Rightarrow> fw_task list" where
  "spawned l = List.map_filter (\<lambda>c. case c of Spawn t True \<Rightarrow> Some t | _ \<Rightarrow> None) l"

text \<open>
  The firmware comes up exactly when the radio starts; otherwise no task runs. It comes up also when tasks could not be spawned:
  each runs at most once, and on an executor with room for them all three run.
\<close>

lemma fw_main_comes_up:
  "fst (fw_main E []) = Ok () \<longleftrightarrow> InitializeWifi None \<in> set (snd (fw_main E []))"
  "fst (fw_main E []) \<noteq> Ok () \<Longrightarrow> spawned (snd (fw_main E [])) = []"
  "subseq (spawned (snd (fw_main E []))) [ConnectionTask, NetTask, MotionTask]"
  "fst (fw_main E []) = Ok () \<Longrightarrow> (\<And>l t. boot_spawn E l t) \<Longrightarrow>
     spawned (snd (fw_main E [])) = [ConnectionTask, NetTask, MotionTask]"
  by (cases "boot_initialize E [InitLogger, InitHeap, TakePeripherals, ConfigureClocks 160, DisableSwd, DisableRwdt]";
      simp add: fw_main_def spawn_ok_def then_io_def bind_io_def Let_def spawned_def map_filter_simps split: bool.split)+

section \<open>What a step adds to the log\<close>

abbreviation published :: "fw_call \<Rightarrow> bool" where
  "published c \<equiv> \<exists>r. c = SocketWrite PUBLISH_PACKET r"

text \<open>The calls of a report up to the publication; \<open>d\<close> is what the broker answered to CONNECT.\<close>

definition handshake_calls :: "bytes \<Rightarrow> fw_call list" where
  "handshake_calls d =
     [SocketConnect remote_endpoint None, SocketWrite CONNECT_PACKET None, SocketRead (Inr d), TimerAfter 1000]"

text \<open>How an exchange fails after the connection was made: CONNECT cannot be written, or reading fails or ends.\<close>

definition failed_exchange :: "fw_call list \<Rightarrow> bool" where
  "failed_exchange xs \<longleftrightarrow> (\<exists>e. xs = [SocketWrite CONNECT_PACKET (Some e)]) \<or>
     (\<exists>r. xs = [SocketWrite CONNECT_PACKET None, SocketRead r] \<and> (\<forall>d. r = Inr d \<longrightarrow> d = []))"

lemma CONNECT_not_PUBLISH [simp]: "CONNECT_PACKET \<noteq> PUBLISH_PACKET" "PUBLISH_PACKET \<noteq> CONNECT_PACKET"
  by (simp_all add: CONNECT_PACKET_def PUBLISH_PACKET_def ascii_def)

lemma report_cases:
  assumes "report E l = (Ok loc, l')"
  obtains (refused) e where "fw_connect E l remote_endpoint = Some e" "loc = PollSensor"
      "l' = l @ [SocketConnect remote_endpoint (Some e)]"
    | (broken) xs where "fw_connect E l remote_endpoint = None" "loc = Pause"
      "l' = l @ SocketConnect remote_endpoint None # xs" "failed_exchange xs"
    | (sent) d r where "fw_connect E l remote_endpoint = None" "loc = PollSensor" "d \<noteq> []" "valid_utf8 d"
      "l' = l @ handshake_calls d @ [SocketWrite PUBLISH_PACKET r, TimerAfter 30000]"
proof -
  note defs = report_def bind_io_def then_io_def socket_connect_def socket_write_all_def socket_read_def timer_after_def
  let ?l2 = "l @ [SocketConnect remote_endpoint None, SocketWrite CONNECT_PACKET None]"
  consider (c) e where "fw_connect E l remote_endpoint = Some e"
    | (w) e where "fw_connect E l remote_endpoint = None"
        "fw_write E (l @ [SocketConnect remote_endpoint None]) CONNECT_PACKET = Some e"
    | (r) "fw_connect E l remote_endpoint = None" "fw_write E (l @ [SocketConnect remote_endpoint None]) CONNECT_PACKET = None"
        "\<And>d. fw_read E ?l2 = Inr d \<Longrightarrow> d = []"
    | (p) d where "fw_connect E l remote_endpoint = None"
        "fw_write E (l @ [SocketConnect remote_endpoint None]) CONNECT_PACKET = None" "fw_read E ?l2 = Inr d" "d \<noteq> []"
    by (metis not_None_eq)
  then show ?thesis
  proof cases
    case c
    with assms show ?thesis by (intro refused) (auto simp: defs)
  next
    case w
    with assms show ?thesis by (intro broken [of "[SocketWrite CONNECT_PACKET (Some e)]"]) (auto simp: defs failed_exchange_def)
  next
    case r
    with assms show ?thesis
      by (intro broken [of "[SocketWrite CONNECT_PACKET None, SocketRead (fw_read E ?l2)]"])
        (cases "fw_read E ?l2"; auto simp: defs failed_exchange_def)+
  next
    case p
    with assms show ?thesis
      by (intro sent [of d]) (auto simp: defs handshake_calls_def from_utf8_def split: if_splits)
  qed
qed

text \<open>All other steps only wait, look at the sensor or make a socket.\<close>

lemma other_step_calls:
  assumes "fw_step E loc l = (Ok loc', l')" "loc \<noteq> Report"
  shows "\<exists>xs. l' = l @ xs \<and> (\<forall>c\<in>set xs. \<forall>b r. c \<noteq> SocketWrite b r) \<and>
    (loc \<noteq> MakeSocket \<longrightarrow> NewSocket \<notin> set xs) \<and> (loc' = Report \<longrightarrow> (\<exists>ys. xs = ys @ [IsHigh True])) \<and>
    (loc = PollSensor \<longrightarrow> loc' = PollSensor \<or> loc' = Report) \<and>
    (\<forall>c\<in>set xs. \<forall>a r. c \<noteq> SocketConnect a r) \<and> (loc = Pause \<longrightarrow> loc' = MakeSocket \<and> xs = [TimerAfter 120000]) \<and>
    (loc = WaitLink \<or> loc = WaitAddress \<longrightarrow> loc' = WaitLink \<or> loc' = WaitAddress \<or> loc' = MakeSocket)"
  using assms
  by (cases loc)
    (auto simp: fw_step_def wait_link_def wait_address_def make_socket_def poll_sensor_def is_high_unwrap_def timer_after_def
      Let_def then_io_def bind_io_def split: if_splits option.splits sum.splits)

section \<open>Properties of the firmware\<close>

text \<open>Every entry of a kind has a past of a kind: what it takes to keep this while a log grows.\<close>

definition preceded :: "(fw_call \<Rightarrow> bool) \<Rightarrow> (fw_call list \<Rightarrow> bool) \<Rightarrow> fw_call list \<Rightarrow> bool" where
  "preceded C Q l \<longleftrightarrow> (\<forall>pre c post. l = pre @ c # post \<and> C c \<longrightarrow> Q pre)"

lemma preceded_Nil [simp]: "preceded C Q []"
  by (simp add: preceded_def)

lemma preceded_snoc: "preceded C Q (l @ [c]) \<longleftrightarrow> preceded C Q l \<and> (C c \<longrightarrow> Q l)"
proof
  assume "preceded C Q (l @ [c])"
  then show "preceded C Q l \<and> (C c \<longrightarrow> Q l)" unfolding preceded_def by (metis append_Cons append_assoc)
next
  assume R: "preceded C Q l \<and> (C c \<longrightarrow> Q l)"
  show "preceded C Q (l @ [c])"
    unfolding preceded_def
  proof (intro allI impI, elim conjE)
    fix pre d post assume "l @ [c] = pre @ d # post" "C d"
    then show "Q pre" using R unfolding preceded_def by (cases post rule: rev_cases) auto
  qed
qed

lemma preceded_append: "preceded C Q l \<Longrightarrow> \<forall>c\<in>set xs. \<not> C c \<Longrightarrow> preceded C Q (l @ xs)"
proof (induction xs rule: rev_induct)
  case (snoc c xs)
  then show ?case by (simp add: preceded_snoc flip: append_assoc)
qed simp

abbreviation reports_in_order :: "fw_call list \<Rightarrow> bool" where
  "reports_in_order \<equiv> preceded published
     (\<lambda>pre. \<exists>pre' d. pre = pre' @ IsHigh True # handshake_calls d \<and> d \<noteq> [] \<and> valid_utf8 d)"

lemma reports_publish:
  assumes "reports_in_order l" "l = pre @ [IsHigh True]" "d \<noteq> []" "valid_utf8 d"
  shows "reports_in_order (l @ handshake_calls d @ [SocketWrite PUBLISH_PACKET r, TimerAfter ms])"
proof -
  have "reports_in_order (l @ handshake_calls d)"
    using assms(1) by (rule preceded_append) (simp add: handshake_calls_def)
  then have "reports_in_order (((l @ handshake_calls d) @ [SocketWrite PUBLISH_PACKET r]) @ [TimerAfter ms])"
    unfolding preceded_snoc using assms(2-4) by auto
  then show ?thesis by simp
qed

lemma reaches_in_order:
  "fw_reaches E loc l \<Longrightarrow> reports_in_order l \<and> (loc = Report \<longrightarrow> (\<exists>pre. l = pre @ [IsHigh True]))"
proof (induction rule: fw_reaches.induct)
  case starts
  then show ?case by simp
next
  case (steps loc l loc' l')
  show ?case
  proof (cases "loc = Report")
    case True
    then obtain pre where pre: "l = pre @ [IsHigh True]" and ok: "reports_in_order l" using steps.IH by blast
    have "report E l = (Ok loc', l')" using steps.hyps(2) True by (simp add: fw_step_def)
    then show ?thesis
    proof (cases rule: report_cases)
      case sent
      then show ?thesis using reports_publish [OF ok pre] by simp
    qed (auto intro!: preceded_append [OF ok] simp: failed_exchange_def)
  next
    case False
    with other_step_calls [OF steps.hyps(2)] steps.IH show ?thesis
      by (auto intro!: preceded_append)
  qed
qed

text \<open>
  C24. Whenever the firmware has sent the publication, the calls right before were, in this order: the sensor was
  read as high, the connection to the broker was established, CONNECT was written, a non-empty
  answer that is valid UTF-8 was read, and a second was waited. Nothing is reported without motion and
  without an answered CONNECT on the same connection.
\<close>

theorem firmware_reports_in_order:
  assumes "fw_reaches E loc (pre @ SocketWrite PUBLISH_PACKET r # post)"
  shows "\<exists>pre' d. pre = pre' @ [IsHigh True, SocketConnect remote_endpoint None, SocketWrite CONNECT_PACKET None,
    SocketRead (Inr d), TimerAfter 1000] \<and> d \<noteq> [] \<and> valid_utf8 d"
  using reaches_in_order [OF assms] by (auto simp: preceded_def handshake_calls_def)

text \<open>
  Environments in which the network is up and the sensor sees motion: in the first a socket accepts one connect and then refuses, in the second the
  broker closes the connection instead of answering.
\<close>

definition demo_fw :: fw_env where
  "demo_fw = \<lparr>fw_link_up = (\<lambda>_. True), fw_config = (\<lambda>_. Some ''10.0.0.2''), fw_is_high = (\<lambda>_. Inr True),
     fw_connect = (\<lambda>l a. if SocketConnect a None \<in> set l then Some ''InvalidState'' else None),
     fw_write = (\<lambda>_ _. None), fw_read = (\<lambda>_. Inr [0x20])\<rparr>"

definition closing_fw :: fw_env where
  "closing_fw = demo_fw\<lparr>fw_connect := (\<lambda>_ _. None), fw_read := (\<lambda>_. Inr [])\<rparr>"

primrec fw_run :: "fw_env \<Rightarrow> nat \<Rightarrow> (location \<times> fw_call list) option" where
  "fw_run E 0 = Some (WaitLink, [])"
| "fw_run E (Suc n) =
     (case fw_run E n of
        None \<Rightarrow> None
      | Some (loc, l) \<Rightarrow> (case fw_step E loc l of (Ok loc', l') \<Rightarrow> Some (loc', l') | _ \<Rightarrow> None))"

lemma fw_run_reaches: "fw_run E n = Some (loc, l) \<Longrightarrow> fw_reaches E loc l"
  by (induction n arbitrary: loc l)
    (auto intro: fw_reaches.intros split: option.splits prod.splits outcome.splits)

definition demo_fw_log :: "fw_call list" where
  "demo_fw_log = [IsLinkUp True, StackConfig (Some ''10.0.0.2''), TimerAfter 1000, NewSocket, SetTimeout 10000,
     TimerAfter 100, IsHigh True, IsHigh True, SocketConnect remote_endpoint None, SocketWrite CONNECT_PACKET None,
     SocketRead (Inr [0x20]), TimerAfter 1000, SocketWrite PUBLISH_PACKET None, TimerAfter 30000,
     TimerAfter 100, IsHigh True, IsHigh True, SocketConnect remote_endpoint (Some ''InvalidState'')]"

definition closing_fw_log :: "fw_call list" where
  "closing_fw_log = [IsLinkUp True, StackConfig (Some ''10.0.0.2''), TimerAfter 1000, NewSocket, SetTimeout 10000,
     TimerAfter 100, IsHigh True, IsHigh True, SocketConnect remote_endpoint None, SocketWrite CONNECT_PACKET None,
     SocketRead (Inr []), TimerAfter 120000, TimerAfter 1000, NewSocket, SetTimeout 10000]"

lemma demo_fw_reaches: "fw_reaches demo_fw PollSensor demo_fw_log" "fw_reaches closing_fw PollSensor closing_fw_log"
  by (rule fw_run_reaches [of _ "Suc (Suc (Suc (Suc (Suc (Suc (Suc 0))))))"], simp add: fw_step_def demo_fw_def closing_fw_def Let_def wait_link_def
      wait_address_def make_socket_def poll_sensor_def report_def then_io_def bind_io_def timer_after_def is_high_unwrap_def
      socket_connect_def socket_write_all_def socket_read_def from_utf8_def demo_fw_log_def closing_fw_log_def)+

theorem firmware_reports_in_order_witness: "\<exists>pre'. take 12 demo_fw_log = pre' @
    [IsHigh True, SocketConnect remote_endpoint None, SocketWrite CONNECT_PACKET None, SocketRead (Inr [0x20]), TimerAfter 1000]"
proof -
  have "demo_fw_log = take 12 demo_fw_log @ SocketWrite PUBLISH_PACKET None # drop 13 demo_fw_log"
    by (simp add: demo_fw_log_def)
  with demo_fw_reaches(1) have "fw_reaches demo_fw PollSensor (take 12 demo_fw_log @ SocketWrite PUBLISH_PACKET None # drop 13 demo_fw_log)"
    by simp
  from firmware_reports_in_order [OF this] show ?thesis by (auto simp: demo_fw_log_def)
qed

text \<open>
  The socket is never closed by the firmware. \<open>settled\<close> is what a location says of the calls made so far, \<open>no_way_out\<close>
  that a publication is followed by a successful connect, or else the task is still in the inner loop and has
  neither made a socket nor published again.
\<close>

definition replaces_broken :: "fw_call list \<Rightarrow> bool" where
  "replaces_broken pre \<longleftrightarrow> (\<forall>c\<in>set pre. c \<noteq> NewSocket \<and> (\<forall>a r. c \<noteq> SocketConnect a r)) \<or>
     (\<exists>pre' xs. pre = pre' @ SocketConnect remote_endpoint None # xs @ [TimerAfter 120000, TimerAfter 1000] \<and> failed_exchange xs)"

definition settled :: "location \<Rightarrow> fw_call list \<Rightarrow> bool" where
  "settled loc l \<longleftrightarrow> preceded (\<lambda>c. c = NewSocket) replaces_broken l \<and>
     (loc = WaitLink \<or> loc = WaitAddress \<longrightarrow> (\<forall>c\<in>set l. c \<noteq> NewSocket \<and> (\<forall>a r. c \<noteq> SocketConnect a r))) \<and>
     (loc = Pause \<longrightarrow> (\<exists>pre xs. l = pre @ SocketConnect remote_endpoint None # xs \<and> failed_exchange xs)) \<and>
     (loc = MakeSocket \<longrightarrow> replaces_broken (l @ [TimerAfter 1000]))"

definition no_way_out :: "location \<Rightarrow> fw_call list \<Rightarrow> bool" where
  "no_way_out loc l \<longleftrightarrow> (\<forall>pre r post. l = pre @ SocketWrite PUBLISH_PACKET r # post \<and> (\<forall>a. SocketConnect a None \<notin> set post) \<longrightarrow>
     (loc = PollSensor \<or> loc = Report) \<and> NewSocket \<notin> set post \<and> (\<forall>c\<in>set post. \<not> published c))"

lemma published_split:
  assumes "l @ xs = pre @ SocketWrite PUBLISH_PACKET r # post" "\<forall>c\<in>set xs. \<not> published c"
  obtains us where "l = pre @ SocketWrite PUBLISH_PACKET r # us" "post = us @ xs"
  using assms by (auto simp: append_eq_append_conv2 append_eq_Cons_conv Cons_eq_append_conv)

lemma no_way_out_append:
  assumes "no_way_out loc l" "\<forall>c\<in>set xs. \<not> published c"
    and "(\<exists>a. SocketConnect a None \<in> set xs) \<or> (loc = PollSensor \<or> loc = Report \<longrightarrow> (loc' = PollSensor \<or> loc' = Report) \<and> NewSocket \<notin> set xs)"
  shows "no_way_out loc' (l @ xs)"
  unfolding no_way_out_def
proof (intro allI impI, elim conjE)
  fix pre r post assume eq: "l @ xs = pre @ SocketWrite PUBLISH_PACKET r # post" and none: "\<forall>a. SocketConnect a None \<notin> set post"
  obtain us where us: "l = pre @ SocketWrite PUBLISH_PACKET r # us" "post = us @ xs" using published_split [OF eq assms(2)] .
  then have "(loc = PollSensor \<or> loc = Report) \<and> NewSocket \<notin> set us \<and> (\<forall>c\<in>set us. \<not> published c)"
    using assms(1) none unfolding no_way_out_def us(1) us(2) set_append by blast
  then show "(loc' = PollSensor \<or> loc' = Report) \<and> NewSocket \<notin> set post \<and> (\<forall>c\<in>set post. \<not> published c)"
    using assms(2,3) none us(2) by auto
qed

lemma no_way_out_sent:
  "no_way_out PollSensor (l @ handshake_calls d @ [SocketWrite PUBLISH_PACKET r, TimerAfter ms])"
  unfolding no_way_out_def
proof (intro allI impI, elim conjE)
  fix pre q post
  assume eq: "l @ handshake_calls d @ [SocketWrite PUBLISH_PACKET r, TimerAfter ms] = pre @ SocketWrite PUBLISH_PACKET q # post"
    and none: "\<forall>a. SocketConnect a None \<notin> set post"
  moreover from none have "SocketConnect remote_endpoint None \<notin> set post" by blast
  ultimately have "post = [TimerAfter ms]"
    by (auto simp: handshake_calls_def append_eq_append_conv2 append_eq_Cons_conv Cons_eq_append_conv)
  then show "(PollSensor = PollSensor \<or> PollSensor = Report) \<and> NewSocket \<notin> set post \<and> (\<forall>c\<in>set post. \<not> published c)" by simp
qed

lemma settled_report:
  assumes "report E l = (Ok loc', l')" "settled Report l" "no_way_out Report l"
  shows "settled loc' l' \<and> no_way_out loc' l'"
  using assms(1)
proof (cases rule: report_cases)
  case (refused e)
  then show ?thesis
    using assms(2,3) by (auto simp: settled_def intro!: no_way_out_append preceded_append)
next
  case (broken xs)
  then show ?thesis
    using assms(2,3) by (auto simp: settled_def failed_exchange_def intro!: no_way_out_append preceded_append)
next
  case (sent d r)
  then show ?thesis
    using assms(2) no_way_out_sent by (auto simp: settled_def handshake_calls_def intro!: preceded_append)
qed

lemma settled_other:
  assumes "fw_step E loc l = (Ok loc', l')" "loc \<noteq> Report" "settled loc l"
  shows "settled loc' l'"
proof (cases "loc = MakeSocket")
  case True
  then have "loc' = PollSensor" "l' = (l @ [TimerAfter 1000]) @ [NewSocket, SetTimeout 10000]"
    using assms(1) by (simp_all add: fw_step_def make_socket_def)
  moreover have "preceded (\<lambda>c. c = NewSocket) replaces_broken (((l @ [TimerAfter 1000]) @ [NewSocket]) @ [SetTimeout 10000])"
    unfolding preceded_snoc using assms(3) True by (simp add: settled_def)
  ultimately show ?thesis by (simp add: settled_def)
next
  case False
  with other_step_calls [OF assms(1,2)] obtain xs where xs: "l' = l @ xs" "NewSocket \<notin> set xs"
    "loc = PollSensor \<longrightarrow> loc' = PollSensor \<or> loc' = Report" "\<forall>c\<in>set xs. \<forall>a r. c \<noteq> SocketConnect a r"
    "loc = Pause \<longrightarrow> loc' = MakeSocket \<and> xs = [TimerAfter 120000]"
    "loc = WaitLink \<or> loc = WaitAddress \<longrightarrow> loc' = WaitLink \<or> loc' = WaitAddress \<or> loc' = MakeSocket"
    by blast
  have keep: "preceded (\<lambda>c. c = NewSocket) replaces_broken (l @ xs)"
    using assms(3) xs(2) by (intro preceded_append) (auto simp: settled_def)
  consider (wait) "loc = WaitLink \<or> loc = WaitAddress" | (poll) "loc = PollSensor" | (pause) "loc = Pause"
    using False assms(2) by (cases loc) auto
  then show ?thesis
  proof cases
    case wait
    then have "\<forall>c\<in>set (l @ xs). c \<noteq> NewSocket \<and> (\<forall>a r. c \<noteq> SocketConnect a r)"
      using assms(3) xs(2,4) unfolding settled_def set_append by blast
    moreover have "loc' \<noteq> Pause" using wait xs(6) by auto
    ultimately show ?thesis using keep unfolding settled_def replaces_broken_def xs(1) by simp
  next
    case poll
    then have "loc' = PollSensor \<or> loc' = Report" using xs(3) by simp
    then show ?thesis using keep xs(1) by (auto simp only: settled_def location.distinct simp_thms)
  next
    case pause
    then obtain pre ys where "l = pre @ SocketConnect remote_endpoint None # ys" "failed_exchange ys"
      using assms(3) unfolding settled_def by blast
    then have "replaces_broken (l @ [TimerAfter 120000] @ [TimerAfter 1000])"
      unfolding replaces_broken_def by (intro disjI2 exI [of _ pre] exI [of _ ys]) simp
    then show ?thesis using keep pause xs(1,5) by (simp add: settled_def)
  qed
qed

lemma reaches_settled: "fw_reaches E loc l \<Longrightarrow> settled loc l \<and> no_way_out loc l"
proof (induction rule: fw_reaches.induct)
  case starts
  then show ?case by (simp add: settled_def no_way_out_def)
next
  case (steps loc l loc' l')
  show ?case
  proof (cases "loc = Report")
    case True
    then show ?thesis using settled_report steps by (simp add: fw_step_def)
  next
    case False
    from other_step_calls [OF steps.hyps(2) False] obtain xs where xs: "l' = l @ xs" "\<forall>c\<in>set xs. \<not> published c"
      "loc \<noteq> MakeSocket \<longrightarrow> NewSocket \<notin> set xs" "loc = PollSensor \<longrightarrow> loc' = PollSensor \<or> loc' = Report" by blast
    have "no_way_out loc' (l @ xs)"
      by (rule no_way_out_append [of loc]) (use steps.IH xs False in auto)
    then show ?thesis using settled_other [OF steps.hyps(2) False] steps.IH xs(1) by simp
  qed
qed

text \<open>
  C26. The firmware replaces its socket only when an exchange on it has broken off, never after a report.
  In every run, whatever the network stack answers: a socket is either the first one, made before anything was
  connected, or the calls right before it were a successful connect, a CONNECT that could not be written or
  was answered by an error or the end of the stream, and the pauses of 120 and 1 seconds. And once a
  report has been sent, as long as the same socket does not accept another connect, no socket is made, no
  further report is sent and the task stays in the inner loop, however often the sensor is triggered.
\<close>

theorem firmware_replaces_broken_socket_only:
  assumes "fw_reaches E loc l"
  shows "(\<forall>pre post. l = pre @ NewSocket # post \<longrightarrow>
      (\<forall>c\<in>set pre. c \<noteq> NewSocket \<and> (\<forall>a r. c \<noteq> SocketConnect a r)) \<or>
      (\<exists>pre' xs. pre = pre' @ SocketConnect remote_endpoint None # xs @ [TimerAfter 120000, TimerAfter 1000] \<and>
         ((\<exists>e. xs = [SocketWrite CONNECT_PACKET (Some e)]) \<or>
          xs = [SocketWrite CONNECT_PACKET None, SocketRead (Inr [])] \<or>
          (\<exists>e. xs = [SocketWrite CONNECT_PACKET None, SocketRead (Inl e)])))) \<and>
    (\<forall>pre r post. l = pre @ SocketWrite PUBLISH_PACKET r # post \<and> (\<forall>a. SocketConnect a None \<notin> set post) \<longrightarrow>
      (loc = PollSensor \<or> loc = Report) \<and> NewSocket \<notin> set post \<and> (\<forall>r. SocketWrite PUBLISH_PACKET r \<notin> set post))"
proof -
  have ex: "(\<exists>e. xs = [SocketWrite CONNECT_PACKET (Some e)]) \<or> xs = [SocketWrite CONNECT_PACKET None, SocketRead (Inr [])] \<or>
      (\<exists>e. xs = [SocketWrite CONNECT_PACKET None, SocketRead (Inl e)]) \<longleftrightarrow> failed_exchange xs" for xs
    unfolding failed_exchange_def by (metis sum.exhaust sum.distinct(1) sum.inject(2))
  have none: "(\<forall>c\<in>set post. \<not> published c) \<longleftrightarrow> (\<forall>r. SocketWrite PUBLISH_PACKET r \<notin> set post)" for post by blast
  have "preceded (\<lambda>c. c = NewSocket) replaces_broken l" and out: "no_way_out loc l"
    using reaches_settled [OF assms] by (simp_all only: settled_def)
  then have "\<forall>pre post. l = pre @ NewSocket # post \<longrightarrow> replaces_broken pre"
    unfolding preceded_def by blast
  moreover have "\<forall>pre r post. l = pre @ SocketWrite PUBLISH_PACKET r # post \<and> (\<forall>a. SocketConnect a None \<notin> set post) \<longrightarrow>
      (loc = PollSensor \<or> loc = Report) \<and> NewSocket \<notin> set post \<and> (\<forall>r. SocketWrite PUBLISH_PACKET r \<notin> set post)"
    using out unfolding no_way_out_def none .
  ultimately show ?thesis
    unfolding ex by (intro conjI) (simp_all only: replaces_broken_def)
qed

theorem firmware_replaces_broken_socket_only_witness:
  "NewSocket \<notin> set (drop 13 demo_fw_log) \<and> (\<forall>r. SocketWrite PUBLISH_PACKET r \<notin> set (drop 13 demo_fw_log)) \<and>
   (\<exists>pre' xs. take 13 closing_fw_log = pre' @ SocketConnect remote_endpoint None # xs @ [TimerAfter 120000, TimerAfter 1000])"
proof -
  have "demo_fw_log = take 12 demo_fw_log @ SocketWrite PUBLISH_PACKET None # drop 13 demo_fw_log"
    "\<forall>a. SocketConnect a None \<notin> set (drop 13 demo_fw_log)"
    by (simp_all add: demo_fw_log_def)
  then have "NewSocket \<notin> set (drop 13 demo_fw_log) \<and> (\<forall>r. SocketWrite PUBLISH_PACKET r \<notin> set (drop 13 demo_fw_log))"
    using firmware_replaces_broken_socket_only [OF demo_fw_reaches(1)] by blast
  moreover have "closing_fw_log = take 13 closing_fw_log @ NewSocket # drop 14 closing_fw_log"
    "NewSocket \<in> set (take 13 closing_fw_log)"
    by (simp_all add: closing_fw_log_def)
  then have "\<exists>pre' xs. take 13 closing_fw_log = pre' @ SocketConnect remote_endpoint None # xs @ [TimerAfter 120000, TimerAfter 1000]"
    using firmware_replaces_broken_socket_only [OF demo_fw_reaches(2)] by blast
  ultimately show ?thesis by blast
qed

section \<open>The firmware and the broker\<close>

text \<open>A decoder that knows the publication of the firmware.\<close>

definition wire_lib :: "publish_packet mqtt_lib" where
  "wire_lib = demo_lib\<lparr>decode_mqtt := (\<lambda>buf v. if take 36 buf = PUBLISH_PACKET then Inr (Some (PublishP generator_packet)) else Inr None)\<rparr>"

text \<open>
  The report arrives: when the broker's decoder reads the publication that the firmware sends as the packet of the generator,
  every connected client that is subscribed to \<open>esp32-c3\<close> and has room gets one message with this
  topic and the payload \<open>Motion sensor triggered\<close>, with QoS 0 and not retained, so nobody who subscribes later sees it.
\<close>

theorem firmware_report_delivered:
  assumes "broadcast_channel (bc P) V" "broker_inv V b" "tasks b i = Some t" "will_delay P = Some delay"
    and "decode_mqtt (mqtt P) (fill_buffer PUBLISH_PACKET) V500 = Inr (Some (PublishP generator_packet))"
    and "tasks b j = Some u" "j \<noteq> i" "bt_get ''esp32-c3'' (receivers (t_client u)) = Some rx"
    and "length (unread V (chans (store b)) rx) < 1024"
  shows "\<exists>p. unread V (chans (store (run_task P i (ReadBytes PUBLISH_PACKET) b))) rx =
      unread V (chans (store b)) rx @ [Publish p] \<and>
    topic_name (p_topic p) = ''esp32-c3'' \<and> p_payload p = ascii ''Motion sensor triggered'' \<and>
    p_qos p = AtMostOnce \<and> \<not> p_retain p"
proof -
  have "PUBLISH_PACKET \<noteq> []" by (simp add: PUBLISH_PACKET_def ascii_def)
  moreover have "topic_name (p_topic generator_packet) = ''esp32-c3''" by (simp add: generator_packet_def)
  ultimately have "unread V (chans (store (run_task P i (ReadBytes PUBLISH_PACKET) b))) rx =
      unread V (chans (store b)) rx @ [Publish generator_packet]"
    using publish_run_task [OF assms(1-4) _ assms(5-7) _ assms(9)] assms(8) by simp
  then show ?thesis by (intro exI [of _ generator_packet]) (simp add: generator_packet_def)
qed

definition wire_platform :: "(rworld, nat, nat, publish_packet) platform" where
  "wire_platform = (demo_platform default_features)\<lparr>mqtt := wire_lib\<rparr>"

theorem firmware_report_delivered_witness:
  "\<exists>b rx p. broker_inv rw_view b \<and>
     unread rw_view (chans (store (run_task wire_platform 0 (ReadBytes PUBLISH_PACKET) b))) rx = [Publish p] \<and>
     topic_name (p_topic p) = ''esp32-c3'' \<and> p_payload p = ascii ''Motion sensor triggered''"
proof -
  let ?t = "\<lambda>a c. \<lparr>t_addr = a, t_client = c, t_iolog = []\<rparr> :: (nat, publish_packet) task"
  let ?new = "client_new (\<lambda>_. CHR ''x'') 0 1 :: (nat, publish_packet) client"
  define s0 :: "(rworld, nat, nat, publish_packet) conn" where "s0 = \<lparr>client = ?new, shared = topics_default rw_init, iolog = []\<rparr>"
  have "conn_inv rw_view s0"
    using default_inv [OF rw_ok_init] by (simp add: s0_def conn_inv_def client_inv_new)
  from rw.behaves_register [OF this, of wire_platform "''esp32-c3''"] obtain rx s2
    where beh: "behaves rw_view s0 s2" and c: "client s2 = (client s0)\<lparr>receivers := bt_put ''esp32-c3'' rx (receivers (client s0))\<rparr>"
      and q: "unread rw_view (chans (shared s2)) rx = []" by (auto simp: wire_platform_def)
  have inv2: "conn_inv rw_view s2" using beh \<open>conn_inv rw_view s0\<close> by (simp add: behaves_def)
  define b where "b = demo_system\<lparr>store := shared s2, tasks := [0 \<mapsto> ?t ''sensor'' ?new, 1 \<mapsto> ?t ''p1'' (client s2)]\<rparr>"
  have inv: "broker_inv rw_view b"
    using inv2 by (auto simp: broker_inv_def b_def demo_system_def conn_inv_def client_inv_new)
  have sub: "tasks b 0 = Some (?t ''sensor'' ?new)" "tasks b 1 = Some (?t ''p1'' (client s2))"
    "bt_get ''esp32-c3'' (receivers (t_client (?t ''p1'' (client s2)))) = Some rx"
    by (simp_all add: b_def c s0_def client_new_def bt_new_def)
  have bcw: "broadcast_channel (bc wire_platform) rw_view" "will_delay wire_platform = Some 32"
    using demo_bc demo_delay by (simp_all add: wire_platform_def will_delay_def demo_settings_def checked_plus_def)
  have dec: "decode_mqtt (mqtt wire_platform) (fill_buffer PUBLISH_PACKET) V500 = Inr (Some (PublishP generator_packet))"
    by (simp add: wire_platform_def wire_lib_def fill_buffer_def PUBLISH_PACKET_def ascii_def)
  have st: "store b = shared s2" by (simp add: b_def)
  from firmware_report_delivered [OF bcw(1) inv sub(1) bcw(2) dec sub(2) _ sub(3)] inv q show ?thesis
    unfolding st by auto
qed

text \<open>
  An ASCII byte is a character of its own: what follows it in a valid text is valid, and a byte of 128
  or more that is not followed by another one is invalid.
\<close>

lemma in_range_high: "0x80 \<le> lo \<Longrightarrow> in_range lo hi b \<Longrightarrow> \<not> (b :: u8) < 0x80"
  unfolding in_range_def by (meson linorder_not_le order_trans)

lemma lead_high: "utf8_lead3 b c \<Longrightarrow> \<not> c < 0x80" "utf8_lead4 b c \<Longrightarrow> \<not> c < 0x80"
  unfolding utf8_lead3_def utf8_lead4_def by (auto dest!: in_range_high [rotated])

lemma valid_utf8_step:
  assumes "valid_utf8 (b # bs)"
  shows "b < 0x80 \<and> valid_utf8 bs \<or>
    (\<exists>ts rest. bs = ts @ rest \<and> ts \<noteq> [] \<and> (\<forall>t\<in>set ts. \<not> t < 0x80) \<and> valid_utf8 rest)"
proof (cases "b < 0x80")
  case False
  with assms consider (two) c bs' where "bs = c # bs'" "utf8_tail c" "valid_utf8 bs'"
    | (three) c d bs' where "bs = c # d # bs'" "utf8_lead3 b c" "utf8_tail d" "valid_utf8 bs'"
    | (four) c d e bs' where "bs = c # d # e # bs'" "utf8_lead4 b c" "utf8_tail d" "utf8_tail e" "valid_utf8 bs'"
    by (auto split: if_splits list.splits)
  then show ?thesis
  proof cases
    case (two c bs')
    then show ?thesis
      using in_range_high by (intro disjI2 exI [of _ "[c]"] exI [of _ bs']) auto
  next
    case (three c d bs')
    then show ?thesis
      using in_range_high lead_high by (intro disjI2 exI [of _ "[c, d]"] exI [of _ bs']) auto
  next
    case (four c d e bs')
    then show ?thesis
      using in_range_high lead_high by (intro disjI2 exI [of _ "[c, d, e]"] exI [of _ bs']) auto
  qed
qed (use assms in simp)

lemma valid_utf8_after_ascii: "valid_utf8 (xs @ a # ys) \<Longrightarrow> a < 0x80 \<Longrightarrow> valid_utf8 (a # ys)"
proof (induction "length xs" arbitrary: xs rule: less_induct)
  case less
  show ?case
  proof (cases xs)
    case (Cons b zs)
    then have "valid_utf8 (b # zs @ a # ys)" using less.prems(1) by simp
    from valid_utf8_step [OF this] consider "valid_utf8 (zs @ a # ys)"
      | ts rest where "zs @ a # ys = ts @ rest" "\<forall>t\<in>set ts. \<not> t < 0x80" "valid_utf8 rest" by blast
    then show ?thesis
    proof cases
      case 1
      then show ?thesis using less.hyps [of zs] less.prems(2) Cons by simp
    next
      case (2 ts rest)
      have "a \<notin> set ts" using 2(2) less.prems(2) by blast
      then obtain us where "zs = ts @ us" "rest = us @ a # ys"
        using 2(1) unfolding append_eq_append_conv2 by (auto simp: append_eq_Cons_conv Cons_eq_append_conv)
      then show ?thesis using less.hyps [of us] less.prems(2) 2(3) Cons by simp
    qed
  qed (use less.prems(1) in simp)
qed

lemma high_byte_alone:
  assumes "\<not> b < 0x80" "ys = [] \<or> hd ys < 0x80"
  shows "\<not> valid_utf8 (b # ys)"
proof
  assume "valid_utf8 (b # ys)"
  from valid_utf8_step [OF this] assms obtain ts rest where "ys = ts @ rest" "ts \<noteq> []" "\<forall>t\<in>set ts. \<not> t < 0x80" by blast
  then show False using assms(2) by (cases ts) auto
qed

text \<open>
  A broker setting that stops the firmware: the CONNACK carries the configured timeout in two
  bytes. When the lower one is 128 or more, say for a timeout of 200 seconds, and the upper one is
  not, the answer is no UTF-8 text, whatever surrounds these bytes in it (the next byte, if any, is a
  property identifier or another ASCII byte). The firmware, which unwraps the answer as a text in
  order to print it, then panics before it has reported anything.
\<close>

theorem keep_alive_stops_firmware:
  assumes conn: "fw_connect E l remote_endpoint = None"
    and wr: "fw_write E (l @ [SocketConnect remote_endpoint None]) CONNECT_PACKET = None"
    and rd: "fw_read E (l @ [SocketConnect remote_endpoint None, SocketWrite CONNECT_PACKET None]) =
      Inr (encode_mqtt (mqtt P) (ConnectAck (connack_for P cid)) V500)"
    and enc: "encode_mqtt (mqtt P) (ConnectAck (connack_for P cid)) V500 =
      pre @ [of_nat (unat (timeout (cfg_general (settings P))) div 256),
             of_nat (unat (timeout (cfg_general (settings P))) mod 256)] @ post"
    and post: "post = [] \<or> hd post < 0x80"
    and t: "unat (timeout (cfg_general (settings P))) < 2 ^ 15" "128 \<le> unat (timeout (cfg_general (settings P))) mod 256"
  shows "report E l = (Panic (UnwrapErr ''Utf8Error''), l @ [SocketConnect remote_endpoint None,
    SocketWrite CONNECT_PACKET None, SocketRead (Inr (encode_mqtt (mqtt P) (ConnectAck (connack_for P cid)) V500))])"
proof -
  let ?n = "unat (timeout (cfg_general (settings P)))"
  let ?hi = "of_nat (?n div 256) :: u8" and ?lo = "of_nat (?n mod 256) :: u8"
  have "?n div 256 < 128" using t(1) by (simp add: less_mult_imp_div_less)
  then have hi: "?hi < 0x80" and lo: "\<not> ?lo < 0x80"
    using t(2) by (simp_all add: word_less_nat_alt unsigned_of_nat take_bit_eq_mod)
  have "\<not> valid_utf8 (?hi # ?lo # post)" using hi high_byte_alone [OF lo post] by simp
  then have "\<not> valid_utf8 (pre @ ?hi # ?lo # post)" using valid_utf8_after_ascii [OF _ hi] by blast
  then have "from_utf8 (encode_mqtt (mqtt P) (ConnectAck (connack_for P cid)) V500) = None"
    unfolding enc by (simp add: from_utf8_def)
  moreover have "encode_mqtt (mqtt P) (ConnectAck (connack_for P cid)) V500 \<noteq> []" unfolding enc by simp
  ultimately show ?thesis
    using conn wr rd by (simp add: report_def bind_io_def socket_connect_def socket_write_all_def socket_read_def)
qed

text \<open>A broker with a timeout of 200 seconds.\<close>

definition slow_platform :: "(rworld, nat, nat, publish_packet) platform" where
  "slow_platform = (demo_platform default_features)\<lparr>
     mqtt := demo_lib\<lparr>encode_mqtt := (\<lambda>p v. case p of
       ConnectAck a \<Rightarrow> [0x20, 6, 0, 0, 3, 0x13, 0, ucast (the (ca_server_keep_alive a))] | _ \<Rightarrow> [])\<rparr>,
     settings := demo_settings\<lparr>cfg_general := \<lparr>websocket = True, timeout = 200\<rparr>\<rparr>\<rparr>"

theorem keep_alive_stops_firmware_witness:
  "fst (report (demo_fw\<lparr>fw_read := (\<lambda>_. Inr [0x20, 6, 0, 0, 3, 0x13, 0, 200])\<rparr>) []) = Panic (UnwrapErr ''Utf8Error'')"
proof -
  let ?E = "demo_fw\<lparr>fw_read := (\<lambda>_. Inr [0x20, 6, 0, 0, 3, 0x13, 0, 200])\<rparr>"
  have enc: "encode_mqtt (mqtt slow_platform) (ConnectAck (connack_for slow_platform cid)) V500 = [0x20, 6, 0, 0, 3, 0x13, 0, 200]"
    for cid by (simp add: slow_platform_def connack_for_def)
  have "report ?E [] = (Panic (UnwrapErr ''Utf8Error''), [] @ [SocketConnect remote_endpoint None,
    SocketWrite CONNECT_PACKET None, SocketRead (Inr (encode_mqtt (mqtt slow_platform) (ConnectAck (connack_for slow_platform ''x'')) V500))])"
    by (rule keep_alive_stops_firmware [where pre = "[0x20, 6, 0, 0, 3, 0x13]" and post = "[]"])
      (simp_all add: enc demo_fw_def, simp_all add: slow_platform_def)
  then show ?thesis by simp
qed

end
