(* ===== verification/Demo_Client.thy ===== *)
theory Demo_Client
  imports MCloud_Prelude
begin

text \<open>
  The example program \<open>src/examples/demo_client.rs\<close>, which publishes one column of a CSV file. The MQTT
  client (\<open>paho_mqtt\<close>), the CSV reader, the file system and the timer are answer functions over the log
  of calls. Every failure is unwrapped, so each is a panic.
\<close>

section \<open>The program\<close>

record args =
  arg_host :: string
  arg_topic :: string
  arg_file :: string
  arg_column :: "64 word"
  arg_interval :: "64 word"

record ssl_options =
  ssl_trust_store :: string
  ssl_private_key :: string
  ssl_verify :: bool
  ssl_enable_server_cert_auth :: bool
  ssl_disable_default_trust_store :: bool

datatype demo_call =
    CurrentDir "string + string"
  | OpenFile string "string + bytes"
  | CreateClient string string nat "string option"
  | TrustStore string "string option"
  | PrivateKeyFile string "string option"
  | MqttConnect ssl_options "string option"
  | MqttPublish string string nat "string option"
  | SleepSecs nat
  | MqttDisconnect "string option"

record demo_client_env =
  dc_current_dir :: "demo_call list \<Rightarrow> string + string"
  dc_open :: "demo_call list \<Rightarrow> string \<Rightarrow> string + bytes"
  dc_create_client :: "demo_call list \<Rightarrow> string \<Rightarrow> string \<Rightarrow> nat \<Rightarrow> string option"
  dc_trust_store :: "demo_call list \<Rightarrow> string \<Rightarrow> string option"
  dc_private_key :: "demo_call list \<Rightarrow> string \<Rightarrow> string option"
  dc_connect :: "demo_call list \<Rightarrow> ssl_options \<Rightarrow> string option"
  dc_publish :: "demo_call list \<Rightarrow> string \<Rightarrow> string \<Rightarrow> nat \<Rightarrow> string option"
  dc_disconnect :: "demo_call list \<Rightarrow> string option"
  csv_records :: "bytes \<Rightarrow> (string + string list) list"

type_synonym 'a demo_io = "(demo_call list, string, 'a) io"

text \<open>A call whose error is unwrapped, and one that returns a value on success.\<close>

definition unwrap_call :: "(demo_call list \<Rightarrow> string option) \<Rightarrow> (string option \<Rightarrow> demo_call) \<Rightarrow> unit demo_io" where
  "unwrap_call answer call l =
     (case answer l of
        None \<Rightarrow> (Ok (), l @ [call None])
      | Some e \<Rightarrow> (Panic (UnwrapErr e), l @ [call (Some e)]))"

definition unwrap_value :: "(demo_call list \<Rightarrow> string + 'a) \<Rightarrow> (string + 'a \<Rightarrow> demo_call) \<Rightarrow> 'a demo_io" where
  "unwrap_value answer call l =
     (case answer l of
        Inr x \<Rightarrow> (Ok x, l @ [call (Inr x)])
      | Inl e \<Rightarrow> (Panic (UnwrapErr e), l @ [call (Inl e)]))"

text \<open>\<open>PathBuf::push\<close> of a relative file name.\<close>

definition path_push :: "string \<Rightarrow> string \<Rightarrow> string" where
  "path_push dir name = (if dir = [] \<or> last dir = CHR ''/'' then dir @ name else dir @ ''/'' @ name)"

definition ssl_opts :: "string \<Rightarrow> string \<Rightarrow> ssl_options" where
  "ssl_opts ca_crt client_key =
     \<lparr>ssl_trust_store = ca_crt, ssl_private_key = client_key, ssl_verify = False,
      ssl_enable_server_cert_auth = False, ssl_disable_default_trust_store = True\<rparr>"

text \<open>Everything before the records are read; the result is the content of the file.\<close>

definition demo_setup :: "demo_client_env \<Rightarrow> args \<Rightarrow> bytes demo_io" where
  "demo_setup E a =
     bind_io (unwrap_value (dc_current_dir E) CurrentDir) (\<lambda>dir.
     bind_io (unwrap_value (dc_current_dir E) CurrentDir) (\<lambda>dir'.
     bind_io (unwrap_value (\<lambda>l. dc_open E l (arg_file a)) (OpenFile (arg_file a))) (\<lambda>csv_file.
     then_io (unwrap_call (\<lambda>l. dc_create_client E l (arg_host a) ''demo_client'' 100)
                          (CreateClient (arg_host a) ''demo_client'' 100))
     (let ca_crt = path_push dir ''ca.crt''; client_key = path_push dir' ''client.key'' in
      then_io (unwrap_call (\<lambda>l. dc_trust_store E l ca_crt) (TrustStore ca_crt))
      (then_io (unwrap_call (\<lambda>l. dc_private_key E l client_key) (PrivateKeyFile client_key))
      (then_io (unwrap_call (\<lambda>l. dc_connect E l (ssl_opts ca_crt client_key)) (MqttConnect (ssl_opts ca_crt client_key)))
      (ret_io csv_file)))))))"

text \<open>The body of the loop over the records: QoS 0, then a pause of \<open>interval\<close> seconds.\<close>

definition publish_record :: "demo_client_env \<Rightarrow> args \<Rightarrow> string + string list \<Rightarrow> unit demo_io" where
  "publish_record E a result =
     (case result of
        Inl e \<Rightarrow> panic_io (UnwrapErr e)
      | Inr record \<Rightarrow>
          if unat (arg_column a) < length record then
            let payload = record ! unat (arg_column a) in
            then_io (unwrap_call (\<lambda>l. dc_publish E l (arg_topic a) payload 0) (MqttPublish (arg_topic a) payload 0))
              (modify_io (\<lambda>l. l @ [SleepSecs (unat (arg_interval a))]))
          else panic_io UnwrapNone)"

definition demo_main :: "demo_client_env \<Rightarrow> args \<Rightarrow> unit demo_io" where
  "demo_main E a =
     bind_io (demo_setup E a) (\<lambda>csv_file.
     then_io (for_io (publish_record E a) (csv_records E csv_file))
       (unwrap_call (dc_disconnect E) MqttDisconnect))"

section \<open>Property\<close>

text \<open>A record that was read and has the column.\<close>

definition usable :: "args \<Rightarrow> string + string list \<Rightarrow> bool" where
  "usable a r = (case r of Inr record \<Rightarrow> unat (arg_column a) < length record | Inl _ \<Rightarrow> False)"

definition record_calls :: "args \<Rightarrow> string + string list \<Rightarrow> demo_call list" where
  "record_calls a r =
     (case r of
        Inr record \<Rightarrow> [MqttPublish (arg_topic a) (record ! unat (arg_column a)) 0 None, SleepSecs (unat (arg_interval a))]
      | Inl _ \<Rightarrow> [])"

lemma publish_record_usable:
  assumes "\<And>l m. dc_publish E l (arg_topic a) m 0 = None" "usable a r"
  shows "publish_record E a r l = (Ok (), l @ record_calls a r)"
  using assms
  by (auto simp: publish_record_def usable_def record_calls_def unwrap_call_def then_io_def bind_io_def Let_def
      split: sum.splits)

lemma publish_record_unusable: "\<not> usable a r \<Longrightarrow> \<exists>p. publish_record E a r l = (Panic p, l)"
  by (auto simp: publish_record_def usable_def split: sum.splits)

lemma publish_records:
  assumes "\<And>l m. dc_publish E l (arg_topic a) m 0 = None"
  shows "if list_all (usable a) rs
    then for_io (publish_record E a) rs l = (Ok (), l @ concat (map (record_calls a) rs))
    else \<exists>p. for_io (publish_record E a) rs l = (Panic p, l @ concat (map (record_calls a) (takeWhile (usable a) rs)))"
proof (induction rs arbitrary: l)
  case (Cons r rs)
  show ?case
  proof (cases "usable a r")
    case True
    then show ?thesis
      using Cons.IH [of "l @ record_calls a r"] publish_record_usable [OF assms True, of l] by (simp split: if_splits)
  next
    case False
    then show ?thesis using publish_record_unusable [OF False, of E l] by auto
  qed
qed simp

text \<open>
  C27. Once the demo client is connected, on a connection where publishing works, it publishes the chosen column
  of the records, one message per record, in order, with QoS 0 to the given topic, and pauses after each. If all
  records can be read and have the column it ends with a disconnect; otherwise it panics at the first one
  that does not, after exactly the messages of the records before, and without a disconnect.
\<close>

theorem demo_client_publishes_column:
  assumes "demo_setup E a [] = (Ok csv_file, l)" "\<And>l m. dc_publish E l (arg_topic a) m 0 = None"
  shows "if list_all (usable a) (csv_records E csv_file)
    then snd (demo_main E a []) = l @ concat (map (record_calls a) (csv_records E csv_file)) @
      [MqttDisconnect (dc_disconnect E (l @ concat (map (record_calls a) (csv_records E csv_file))))]
    else \<exists>p. demo_main E a [] =
      (Panic p, l @ concat (map (record_calls a) (takeWhile (usable a) (csv_records E csv_file))))"
  using assms(1) publish_records [OF assms(2), of "csv_records E csv_file" l]
  by (auto simp: demo_main_def unwrap_call_def split: option.splits if_splits)

definition sample_env :: demo_client_env where
  "sample_env = \<lparr>dc_current_dir = (\<lambda>_. Inr ''/home/demo''), dc_open = (\<lambda>_ _. Inr []), dc_create_client = (\<lambda>_ _ _ _. None),
     dc_trust_store = (\<lambda>_ _. None), dc_private_key = (\<lambda>_ _. None), dc_connect = (\<lambda>_ _. None),
     dc_publish = (\<lambda>_ _ _ _. None), dc_disconnect = (\<lambda>_. None),
     csv_records = (\<lambda>_. [Inr [''2023-01-01'', ''3.2''], Inr [''2023-01-02''], Inr [''2023-01-03'', ''1.0'']])\<rparr>"

definition sample_args :: args where
  "sample_args = \<lparr>arg_host = ''ssl://localhost:1883'', arg_topic = ''t'', arg_file = ''f.csv'', arg_column = 1, arg_interval = 5\<rparr>"

theorem demo_client_publishes_column_witness:
  "\<exists>p l. demo_main sample_env sample_args [] = (Panic p, l @ [MqttPublish ''t'' ''3.2'' 0 None, SleepSecs 5])"
proof -
  obtain l where su: "demo_setup sample_env sample_args [] = (Ok [], l)"
    by (simp add: demo_setup_def sample_env_def sample_args_def unwrap_value_def unwrap_call_def bind_io_def then_io_def Let_def)
  have "dc_publish sample_env l (arg_topic sample_args) m 0 = None" for l m by (simp add: sample_env_def)
  from demo_client_publishes_column [OF su this] show ?thesis
    by (auto simp: sample_env_def sample_args_def usable_def record_calls_def)
qed

end
