(* ===== verification/Scenarios.thy ===== *)
theory Scenarios
  imports Connection
begin

text \<open>
  The scenarios of the repository's tests (\<open>mod tests\<close> in \<open>src/src/tcp_handling.rs\<close> and
  \<open>src/src/topics.rs\<close>), run on the model. A test drives a fresh client through its stream: every packet that the
  test writes is one read of the loop, and what the test reads back is everything the loop has written.
  Each scenario is a truth value, the conjunction of the assertions of its test. The theorem shows that they hold
  not for one run but for every channel library that meets its contract, every codec that
  reads back the packets of the tests, and every random client identifier.
\<close>

section \<open>Packets of the tests\<close>

text \<open>Constructors of the packet crate, and the version its encoder uses by default.\<close>

record 'will test_lib =
  default_version :: protocol_version
  connect_default :: "'will connect_packet"
  subscribe_new :: "subscription_topic list \<Rightarrow> subscribe_packet"
  new_concrete :: "string \<Rightarrow> subscription_topic"
  unsubscribe_new :: "topic_filter list \<Rightarrow> unsubscribe_packet"
  publish_new :: "topic \<Rightarrow> bytes \<Rightarrow> publish_packet"

definition get_packet :: "'will mqtt_lib \<Rightarrow> 'will test_lib \<Rightarrow> 'will packet \<Rightarrow> bytes" where
  "get_packet L T packet = encode_mqtt L packet (default_version T)"

definition test_text :: bytes where
  "test_text = map (\<lambda>c. of_nat (of_char c)) ''test''"

definition connect_p :: "'will test_lib \<Rightarrow> 'will packet" where
  "connect_p T = Connect (connect_default T)"

definition subscription_p :: "'will test_lib \<Rightarrow> 'will packet" where
  "subscription_p T = Subscribe (subscribe_new T [new_concrete T ''test''])"

definition unsubscribe_p :: "'will test_lib \<Rightarrow> 'will packet" where
  "unsubscribe_p T = Unsubscribe (unsubscribe_new T [Concrete ''test'' 1])"

definition publish_p :: "'will test_lib \<Rightarrow> 'will packet" where
  "publish_p T = PublishP (publish_new T (Topic ''test'') test_text)"

section \<open>The harness\<close>

text \<open>
  \<open>generate_client\<close>: both channels of the client have lost their receivers, which matters only with
  the feature \<open>redis\<close>.
\<close>

definition generate_client :: "(nat \<Rightarrow> char) \<Rightarrow> ('rx, 'will) client" where
  "generate_client rng = client_new rng 0 1"

definition drive ::
    "('w, 'tx, 'rx, 'will) platform \<Rightarrow> 'will test_lib \<Rightarrow> string \<Rightarrow> (nat \<Rightarrow> char) \<Rightarrow> ('w, 'tx) shared \<Rightarrow>
     'will packet list \<Rightarrow> ('w, 'tx, 'rx, 'will) conn" where
  "drive P T addr rng sh ps =
     snd (handle_raw_tcp_stream P addr (map (\<lambda>p. ReadBytes (get_packet (mqtt P) T p)) ps)
       \<lparr>client = generate_client rng, shared = sh, iolog = []\<rparr>)"

fun written_bytes :: "io_call list \<Rightarrow> bytes" where
  "written_bytes [] = []"
| "written_bytes (WriteAll b None # l) = b @ written_bytes l"
| "written_bytes (c # l) = written_bytes l"

text \<open>
  What the test decodes from its own buffer of 1024 zero bytes after reading into it; \<open>try_read\<close> is
  unwrapped and fails when nothing has been written.
\<close>

definition response :: "('w, 'tx, 'rx, 'will) platform \<Rightarrow> ('w, 'tx, 'rx, 'will) conn \<Rightarrow> 'will packet option" where
  "response P s =
     (if written_bytes (iolog s) = [] then None
      else case decode_mqtt (mqtt P) (fill_buffer (written_bytes (iolog s))) V500 of Inr p \<Rightarrow> p | Inl _ \<Rightarrow> None)"

section \<open>The tests\<close>

definition test_has_receiver ::
    "('w, 'tx, 'rx, 'will) platform \<Rightarrow> 'will test_lib \<Rightarrow> string \<Rightarrow> (nat \<Rightarrow> char) \<Rightarrow> 'w \<Rightarrow> bool" where
  "test_has_receiver P T addr rng w =
     (let topics0 = topics_default w in
      (case response P (drive P T addr rng topics0 [connect_p T]) of Some (ConnectAck _) \<Rightarrow> True | _ \<Rightarrow> False) \<and>
      length (topics (shared (drive P T addr rng topics0 [connect_p T, subscription_p T]))) = 1)"

definition test_handle_unsubscribe_packet ::
    "('w, 'tx, 'rx, 'will) platform \<Rightarrow> 'will test_lib \<Rightarrow> string \<Rightarrow> (nat \<Rightarrow> char) \<Rightarrow> 'w \<Rightarrow> bool" where
  "test_handle_unsubscribe_packet P T addr rng w =
     (let topics0 = topics_default w;
          unsubscribed = shared (drive P T addr rng topics0 [connect_p T, subscription_p T, unsubscribe_p T])
      in (case response P (drive P T addr rng topics0 [connect_p T]) of Some (ConnectAck _) \<Rightarrow> True | _ \<Rightarrow> False) \<and>
         length (topics (shared (drive P T addr rng topics0 [connect_p T, subscription_p T]))) = 1 \<and>
         (case bt_get ''test'' (topics unsubscribed) of
            None \<Rightarrow> False
          | Some ch \<Rightarrow>
              (case fst (b_send (bc P) (sender ch) (Publish (publish_new T (Topic ''test'') [])) (chans unsubscribed)) of
                 Inl (SendError _) \<Rightarrow> True
               | Inr _ \<Rightarrow> False)))"

text \<open>\<open>rx_len\<close> is \<open>Receiver::len\<close>.\<close>

definition test_handle_publish_packet ::
    "('rx \<Rightarrow> 'w \<Rightarrow> nat) \<Rightarrow> ('w, 'tx, 'rx, 'will) platform \<Rightarrow> 'will test_lib \<Rightarrow> string \<Rightarrow> (nat \<Rightarrow> char) \<Rightarrow> 'w \<Rightarrow> bool" where
  "test_handle_publish_packet rx_len P T addr rng w =
     (case topics_subscribe (bc P) ''test'' (topics_default w) of
        (Ok receiver, topics0) \<Rightarrow>
          (let published = shared (drive P T addr rng topics0 [connect_p T, publish_p T])
           in (case response P (drive P T addr rng topics0 [connect_p T]) of Some (ConnectAck _) \<Rightarrow> True | _ \<Rightarrow> False) \<and>
              rx_len receiver (chans published) = 1 \<and>
              (case fst (b_recv (bc P) receiver (chans published)) of
                 RecvOk (Publish msg) \<Rightarrow> from_utf8 (p_payload msg) = Some ''test''
               | _ \<Rightarrow> False))
      | _ \<Rightarrow> False)"

definition test_handle_connect_packet ::
    "('w, 'tx, 'rx, 'will) platform \<Rightarrow> 'will test_lib \<Rightarrow> string \<Rightarrow> (nat \<Rightarrow> char) \<Rightarrow> 'w \<Rightarrow> bool" where
  "test_handle_connect_packet P T addr rng w =
     (case response P (drive P T addr rng (topics_default w) [connect_p T]) of
        Some (ConnectAck connack) \<Rightarrow>
          ca_reason_code connack = ConnectSuccess \<and> ca_assigned_client_identifier connack \<noteq> None \<and>
          ca_maximum_qos connack = Some AtLeastOnce
      | _ \<Rightarrow> False)"

definition test_add :: "('w, 'tx, 'rx) broadcast_ops \<Rightarrow> 'w \<Rightarrow> bool" where
  "test_add B w =
     (case topics_add B ''test'' (topics_default w :: ('w, 'tx) shared) of
        (Ok _, s) \<Rightarrow>
          length (topics s) = 1 \<and>
          (case bt_get ''test'' (topics s) of Some ch \<Rightarrow> retained_message ch = None | None \<Rightarrow> False) \<and>
          (case fst (topics_add B ''test'' s) of Err (TopicAlreadyExists _) \<Rightarrow> True | _ \<Rightarrow> False)
      | _ \<Rightarrow> False)"

section \<open>The tests hold\<close>

text \<open>What the tests rely on of the packet crate, for the packets they use.\<close>

definition reads_back :: "'will mqtt_lib \<Rightarrow> 'will packet \<Rightarrow> protocol_version \<Rightarrow> bool" where
  "reads_back L p v \<longleftrightarrow> encode_mqtt L p v \<noteq> [] \<and> decode_mqtt L (fill_buffer (encode_mqtt L p v)) V500 = Inr (Some p)"

text \<open>The state after the CONNECT of a test: the answer is written, and topics and receivers are as before.\<close>

definition connected ::
    "'will test_lib \<Rightarrow> ('w, 'tx, 'rx, 'will) platform \<Rightarrow> (nat \<Rightarrow> char) \<Rightarrow> ('w, 'tx) shared \<Rightarrow> ('w, 'tx, 'rx, 'will) conn" where
  "connected T P rng sh =
     \<lparr>client = (generate_client rng)\<lparr>will := c_will (connect_default T)\<rparr>, shared = sh,
      iolog = [written P (ConnectAck (connack_for P (map rng [0..<16])))]\<rparr>"

locale test_packets =
  fixes L :: "'will mqtt_lib" and T :: "'will test_lib"
  assumes reads: "p \<in> {connect_p T, subscription_p T, unsubscribe_p T, publish_p T} \<Longrightarrow> reads_back L p (default_version T)"
    and subscribe_new_topics: "s_subscription_topics (subscribe_new T ts) = ts"
    and new_concrete_filter: "\<exists>n. st_topic_filter (new_concrete T f) = Concrete f n"
    and unsubscribe_new_filters: "u_topic_filters (unsubscribe_new T fs) = fs"
    and publish_new_fields: "p_topic (publish_new T t b) = t" "p_payload (publish_new T t b) = b"
      "p_qos (publish_new T t b) = AtMostOnce"
begin

lemma serve_packet:
  assumes "mqtt P = L" "will_delay P = Some d" "p \<in> {connect_p T, subscription_p T, unsubscribe_p T, publish_p T}"
    and "dispatch P addr (Some p) s = (Ok (), s')"
  shows "serve P addr (ReadBytes (get_packet (mqtt P) T p)) s = (Ok (), s')"
  using assms reads [OF assms(3)]
  by (simp add: serve_branch [OF assms(2)] on_read_def get_packet_def reads_back_def handle_packet_def)

lemma serve_connect:
  assumes "mqtt P = L" "will_delay P = Some d" "writes_ok P"
  shows "serve P addr (ReadBytes (get_packet (mqtt P) T (connect_p T)))
    \<lparr>client = generate_client rng, shared = sh, iolog = []\<rparr> = (Ok (), connected T P rng sh)"
proof (rule serve_packet [OF assms(1,2)])
  show "dispatch P addr (Some (connect_p T)) \<lparr>client = generate_client rng, shared = sh, iolog = []\<rparr> =
      (Ok (), connected T P rng sh)"
    by (cases "c_will (connect_default T)")
      (simp_all add: dispatch_def connect_p_def handle_connect_packet_def update_client_def write_ok [OF assms(3)]
        connected_def generate_client_def client_new_def bind_io_def)
qed simp

lemma drive_connect:
  assumes "mqtt P = L" "will_delay P = Some d" "writes_ok P"
  shows "drive P T addr rng sh (connect_p T # ps) =
    snd (handle_raw_tcp_stream P addr (map (\<lambda>p. ReadBytes (get_packet (mqtt P) T p)) ps) (connected T P rng sh))"
  using serve_connect [OF assms] by (simp add: drive_def handle_raw_tcp_stream_def)

lemma response_connack:
  assumes "reads_back (mqtt P) (ConnectAck (connack_for P (map rng [0..<16]))) V500"
  shows "response P (connected T P rng sh) = Some (ConnectAck (connack_for P (map rng [0..<16])))"
  using assms by (simp add: response_def connected_def reads_back_def)

text \<open>The first subscription of a fresh client, and its end.\<close>

lemma serve_subscribe:
  assumes "mqtt P = L" "will_delay P = Some d" "writes_ok P"
    and ch: "b_channel (bc P) 1024 w = ((tx, rx), w1)"
  shows "\<exists>l. serve P addr (ReadBytes (get_packet (mqtt P) T (subscription_p T))) (connected T P rng (topics_default w)) =
    (Ok (), (connected T P rng \<lparr>topics = [(''test'', channel_new tx)], chans = w1\<rparr>)
       \<lparr>client := (generate_client rng)\<lparr>will := c_will (connect_default T), receivers := [(''test'', rx)]\<rparr>, iolog := l\<rparr>)"
proof -
  let ?s = "connected T P rng (topics_default w)" and ?sh = "\<lparr>topics = [(''test'', channel_new tx)], chans = w1\<rparr>"
  let ?c = "(generate_client rng)\<lparr>will := c_will (connect_default T), receivers := [(''test'', rx)]\<rparr>"
  obtain n where f: "st_topic_filter (new_concrete T ''test'') = Concrete ''test'' n" using new_concrete_filter by blast
  have sub: "topics_subscribe (bc P) ''test'' (topics_default w) = (Ok rx, ?sh)"
    using ch by (simp add: topics_subscribe_def topics_default_def topics_add_def bt_insert_def bt_new_def)
  have reg: "subscribe_concrete P ''test'' ?s = (Ok (), ?s\<lparr>client := ?c, shared := ?sh\<rparr>)"
    using sub
    by (simp add: subscribe_concrete_def register_receiver_def on_shared_def zoom_io_def bind_io_def then_io_def connected_def
        insert_receiver_def bt_insert_def generate_client_def client_new_def bt_new_def send_retained_def
        get_retained_message_def channel_new_def)
  have "dispatch P addr (Some (subscription_p T)) ?s = (Ok (), ?s\<lparr>client := ?c, shared := ?sh, iolog := iolog ?s @
      [written P (SubscribeAck (suback_for (subscribe_new T [new_concrete T ''test'']) [GrantedQoSZero]))]\<rparr>)"
    using reg f
    by (simp add: dispatch_def subscription_p_def handle_subscribe_packet_def subscribe_new_topics bind_io_def then_io_def
        write_ok [OF assms(3)])
  from serve_packet [OF assms(1,2) _ this] show ?thesis by (intro exI) (simp add: connected_def)
qed

lemma serve_unsubscribe:
  assumes "mqtt P = L" "will_delay P = Some d" "writes_ok P" "receivers (client s) = [(''test'', rx)]"
  shows "\<exists>s'. serve P addr (ReadBytes (get_packet (mqtt P) T (unsubscribe_p T))) s = (Ok (), s') \<and>
    shared s' = (shared s)\<lparr>chans := b_drop_rx (bc P) rx (chans (shared s))\<rparr>"
proof -
  have "\<exists>s'. dispatch P addr (Some (unsubscribe_p T)) s = (Ok (), s') \<and>
      shared s' = (shared s)\<lparr>chans := b_drop_rx (bc P) rx (chans (shared s))\<rparr>"
    using assms(4)
    by (simp add: dispatch_def unsubscribe_p_def handle_unsubscribe_packet_def unsubscribe_new_filters bind_io_def
        bt_remove_def write_ok [OF assms(3)])
  then show ?thesis using serve_packet [OF assms(1,2)] by blast
qed

end

lemma test_text_utf8: "from_utf8 test_text = Some ''test''"
  by code_simp

context broadcast_channel
begin

lemma first_channel:
  assumes "ok V w" "b_channel B 1024 w = ((tx, rx), w1)"
  shows "fst (b_send B tx m (b_drop_rx B rx w1)) = Inl (SendError m)"
proof -
  note c = channel [OF assms(1) _ assms(2), simplified]
  have "subs V (b_drop_rx B rx w1) tx = {}" "ok V (b_drop_rx B rx w1)" "tx \<in> txs V (b_drop_rx B rx w1)"
    using drop_rx [of w1 rx] c by auto
  from send_none [OF this(2,3,1)] show ?thesis by simp
qed

lemma test_publish_holds:
  assumes w: "ok V w" and T: "test_packets (mqtt P) T" and bcP: "bc P = B"
    and d: "will_delay P = Some d" and wr: "writes_ok P" and F: "feat P = default_features"
    and resp: "\<And>sh. \<exists>a. response P (drive P T addr rng sh [connect_p T]) = Some (ConnectAck a)"
    and len: "\<And>rx w. ok V w \<Longrightarrow> rx \<in> rxs V w \<Longrightarrow> missed V w rx = 0 \<Longrightarrow> rx_len rx w = length (unread V w rx)"
  shows "test_handle_publish_packet rx_len P T addr rng w"
proof -
  define p where "p = publish_new T (Topic ''test'') test_text"
  note fields = test_packets.publish_new_fields [OF T]
  have name: "topic_name (p_topic p) = ''test''" by (simp add: p_def fields)
  have inv0: "shared_inv V (topics_default w)" by (rule shared_inv_default [OF w])
  obtain res sh where sub0: "topics_subscribe B ''test'' (topics_default w) = (res, sh)" by (metis surj_pair)
  then obtain rx where rx: "res = Ok rx" and inv: "shared_inv V sh" and q: "unread V (chans sh) rx = []" "missed V (chans sh) rx = 0" "rx \<in> rxs V (chans sh)"
    and view: "topic_view V sh = spec_subscribe ''test'' rx (topic_view V (topics_default w))"
    using subscribe_law [OF inv0] by (metis insertI1)
  have sub: "topics_subscribe B (topic_name (p_topic p)) (topics_default w) = (Ok rx, sh)" by (simp add: name sub0 rx)
  have "rx \<in> subscribers (topic_name (p_topic p)) (topic_view V sh)" by (simp add: view name subscribers_specs)
  then have q1: "unread V (chans (snd (topics_publish B p sh))) rx = [Publish p]"
    "missed V (chans (snd (topics_publish B p sh))) rx = 0"
    using publish_law(6) [OF inv, of rx p] q by simp_all
  have "ok V (chans (snd (topics_publish B p sh)))" "rx \<in> rxs V (chans (snd (topics_publish B p sh)))"
    using publish_law(2,3) [OF inv, of p] q(3) shared_invD(2) by auto
  then have len1: "rx_len rx (chans (snd (topics_publish B p sh))) = 1" using len q1 by simp
  have recv: "fst (b_recv B rx (chans (snd (topics_publish B p sh)))) = RecvOk (Publish p)"
    using subscribe_publish_recv [OF broadcast_channel_axioms inv0 sub] by simp
  let ?s = "connected T P rng sh"
  have "dispatch P addr (Some (publish_p T)) ?s = (Ok (), ?s\<lparr>shared := snd (topics_publish B p sh)\<rparr>)"
    using handle_publish_eq [of ?s P p] shared_invD(1) [OF inv] F
    by (simp add: dispatch_def publish_p_def fields connected_def default_features_def bcP flip: p_def)
      (simp add: p_def fields)
  from test_packets.serve_packet [OF T refl d _ this]
  have "shared (drive P T addr rng sh [connect_p T, publish_p T]) = snd (topics_publish B p sh)"
    by (simp add: test_packets.drive_connect [OF T refl d wr] handle_raw_tcp_stream_def)
  moreover have "from_utf8 (p_payload p) = Some ''test''"
    by (simp add: p_def fields test_text_utf8)
  moreover obtain a where "response P (drive P T addr rng sh [connect_p T]) = Some (ConnectAck a)" using resp by blast
  ultimately show ?thesis
    using sub0 rx recv len1 by (simp add: test_handle_publish_packet_def bcP)
qed

lemma test_add_holds: "ok V w \<Longrightarrow> test_add B w"
  by (cases "b_channel B 1024 w"; cases "fst (b_channel B 1024 w)")
    (auto simp: test_add_def topics_add_def topics_default_def bt_insert_def bt_new_def channel_new_def
      split: prod.splits)

end

text \<open>
  C39. The tests of the repository hold in the model, whatever the channel library, the packet codec and the
  random identifier are (\<open>len\<close> of a receiver is only relied on when the receiver has not lagged, where it is the number of unread messages): a connecting client gets a CONNACK with Success, an identifier and maximum QoS 1;
  subscribing creates exactly one topic; after unsubscribing the topic is still there and a send to its
  channel fails for lack of receivers; a publication is the one message in the queue of a subscriber, with its
  payload; adding a topic twice is an error.
\<close>

theorem repository_tests_hold:
  assumes B: "broadcast_channel (bc P) V" and w: "ok V w" and T: "test_packets (mqtt P) T"
    and d: "will_delay P = Some d" and wr: "writes_ok P" and F: "feat P = default_features"
    and ack: "reads_back (mqtt P) (ConnectAck (connack_for P (map rng [0..<16]))) V500"
    and len: "\<And>rx w. ok V w \<Longrightarrow> rx \<in> rxs V w \<Longrightarrow> missed V w rx = 0 \<Longrightarrow> rx_len rx w = length (unread V w rx)"
  shows "test_handle_connect_packet P T addr rng w \<and> test_has_receiver P T addr rng w \<and>
    test_handle_unsubscribe_packet P T addr rng w \<and> test_handle_publish_packet rx_len P T addr rng w \<and>
    test_add (bc P) w"
proof -
  note drive = test_packets.drive_connect [OF T refl d wr]
  have resp: "response P (drive P T addr rng sh [connect_p T]) = Some (ConnectAck (connack_for P (map rng [0..<16])))" for sh
    using test_packets.response_connack [OF T ack] by (simp add: drive handle_raw_tcp_stream_def)
  have connect: "test_handle_connect_packet P T addr rng w"
    by (simp add: test_handle_connect_packet_def resp connack_for_def)
  obtain tx rx w1 where ch: "b_channel (bc P) 1024 w = ((tx, rx), w1)" by (metis surj_pair)
  obtain l where sub: "serve P addr (ReadBytes (get_packet (mqtt P) T (subscription_p T))) (connected T P rng (topics_default w)) =
    (Ok (), (connected T P rng \<lparr>topics = [(''test'', channel_new tx)], chans = w1\<rparr>)
       \<lparr>client := (generate_client rng)\<lparr>will := c_will (connect_default T), receivers := [(''test'', rx)]\<rparr>, iolog := l\<rparr>)"
    (is "_ = (Ok (), ?s)")
    using test_packets.serve_subscribe [OF T refl d wr ch] by blast
  have one: "length (topics (shared (drive P T addr rng (topics_default w) [connect_p T, subscription_p T]))) = 1"
    by (simp add: drive handle_raw_tcp_stream_def sub) (simp add: connected_def)
  have has: "test_has_receiver P T addr rng w" by (simp add: test_has_receiver_def resp one)
  have "receivers (client ?s) = [(''test'', rx)]" by simp
  from test_packets.serve_unsubscribe [OF T refl d wr this] obtain s' where
    uns: "serve P addr (ReadBytes (get_packet (mqtt P) T (unsubscribe_p T))) ?s = (Ok (), s')"
      "shared s' = (shared ?s)\<lparr>chans := b_drop_rx (bc P) rx (chans (shared ?s))\<rparr>" by blast
  have "drive P T addr rng (topics_default w) [connect_p T, subscription_p T, unsubscribe_p T] = s'"
    by (simp add: drive handle_raw_tcp_stream_def sub uns)
  then have unsub: "test_handle_unsubscribe_packet P T addr rng w"
    using one uns(2) broadcast_channel.first_channel [OF B w ch]
    by (simp add: test_handle_unsubscribe_packet_def resp connected_def channel_new_def)
  have "test_handle_publish_packet rx_len P T addr rng w"
    by (rule broadcast_channel.test_publish_holds [OF B w T refl d wr F _ len]) (simp add: resp)
  with connect has unsub broadcast_channel.test_add_holds [OF B w] show ?thesis by blast
qed

text \<open>A codec that tells the packets of the tests apart by their first byte.\<close>

definition sample_lib :: "publish_packet test_lib" where
  "sample_lib =
     \<lparr>default_version = V500, connect_default = \<lparr>c_client_id = '''', c_protocol_version = V500, c_will = None\<rparr>,
      subscribe_new = (\<lambda>ts. \<lparr>s_packet_id = 1, s_subscription_topics = ts\<rparr>),
      new_concrete = (\<lambda>f. \<lparr>st_topic_filter = Concrete f 1\<rparr>),
      unsubscribe_new = (\<lambda>fs. \<lparr>u_packet_id = 1, u_topic_filters = fs\<rparr>),
      publish_new = (\<lambda>t b. plain_publish (topic_name t) b False)\<rparr>"

definition sample_codec :: "connect_ack_packet \<Rightarrow> publish_packet mqtt_lib" where
  "sample_codec ack = demo_lib\<lparr>
     encode_mqtt := (\<lambda>p v. case p of Connect _ \<Rightarrow> [0x10] | ConnectAck _ \<Rightarrow> [0x20] | Subscribe _ \<Rightarrow> [0x82]
       | Unsubscribe _ \<Rightarrow> [0xA2] | _ \<Rightarrow> [0x30]),
     decode_mqtt := (\<lambda>buf v. Inr (Some (
       if hd buf = 0x10 then connect_p sample_lib else if hd buf = 0x20 then ConnectAck ack
       else if hd buf = 0x82 then subscription_p sample_lib else if hd buf = 0xA2 then unsubscribe_p sample_lib
       else publish_p sample_lib)))\<rparr>"

definition sample_platform :: "(rworld, nat, nat, publish_packet) platform" where
  "sample_platform = (let P = demo_platform default_features in
     P\<lparr>mqtt := sample_codec (connack_for P (map (\<lambda>_. CHR ''x'') [0..<16]))\<rparr>)"

lemmas sample_packet_defs = connect_p_def subscription_p_def unsubscribe_p_def publish_p_def

interpretation sample: test_packets "sample_codec ack" sample_lib for ack
proof
  fix p assume "p \<in> {connect_p sample_lib, subscription_p sample_lib, unsubscribe_p sample_lib, publish_p sample_lib}"
  then show "reads_back (sample_codec ack) p (default_version sample_lib)"
    by (auto simp: reads_back_def sample_codec_def fill_buffer_def, auto simp: sample_packet_defs)
qed (simp_all add: sample_lib_def)

theorem repository_tests_hold_witness:
  "test_handle_unsubscribe_packet sample_platform sample_lib ''127.0.0.1:1338'' (\<lambda>_. CHR ''x'') rw_init \<and>
   test_handle_publish_packet (\<lambda>rx w. missed rw_view w rx + length (unread rw_view w rx)) sample_platform sample_lib ''127.0.0.1:1339''
     (\<lambda>_. CHR ''x'') rw_init"
proof -
  let ?P = sample_platform
  have B: "broadcast_channel (bc ?P) rw_view" using demo_bc by (simp add: sample_platform_def Let_def)
  have T: "test_packets (mqtt ?P) sample_lib"
    using sample.test_packets_axioms by (simp add: sample_platform_def Let_def)
  have d: "will_delay ?P = Some 32" using demo_delay by (simp add: sample_platform_def will_delay_def Let_def)
  have wr: "writes_ok ?P" using demo_writes_ok by (simp add: sample_platform_def writes_ok_def Let_def)
  have F: "feat ?P = default_features" by (simp add: sample_platform_def Let_def)
  have ack: "reads_back (mqtt ?P) (ConnectAck (connack_for ?P (map (\<lambda>_. CHR ''x'') [0..<16]))) V500"
    by (simp add: reads_back_def sample_platform_def Let_def sample_codec_def fill_buffer_def connack_for_def)
  let ?len = "\<lambda>rx w. missed rw_view w rx + length (unread rw_view w rx)"
  have len: "?len rx w = length (unread rw_view w rx)" if "missed rw_view w rx = 0" for rx w using that by simp
  show ?thesis
    using repository_tests_hold [OF B rw_ok_init T d wr F ack len, of "''127.0.0.1:1338''"]
      repository_tests_hold [OF B rw_ok_init T d wr F ack len, of "''127.0.0.1:1339''"] by blast
qed

end
