(* ===== verification/Spec2Isabelle.thy ===== *)
theory Spec2Isabelle
  imports Cluster Outage Settings Firmware Demo_Client Scenarios
begin

text \<open>
  A verification development of the MQTT broker MCloudTT (\<open>src/src/\<close>), version 0.8.0, and of the example
  clients in its repository.

  \<^bold>\<open>The program and its parts.\<close> The broker accepts TCP connections, usually through TLS, and runs one
  task per connection. All tasks share one topic store, a map from topic names to broadcast channels with
  an optional retained message each. A task runs an endless \<open>select!\<close>: it reads a packet and handles
  it, forwards what its receivers got, publishes the client's will after a silence, and resends
  unacknowledged messages once per second. With the feature \<open>redis\<close> every publication is also put on
  a Redis channel, from which the other brokers take it, and retained messages are kept in Redis across
  restarts; with \<open>bq_logging\<close> publications are logged in BigQuery.

  \<^bold>\<open>Theories.\<close>
  \<^item> \<open>MCloud_Prelude\<close>: machine integers, outcomes (a value, an error, a panic), methods as
    state-passing functions, and the locale \<open>io_preorder\<close> by which invariants and frame conditions follow
    the structure of a method.
  \<^item> \<open>BTreeMap\<close>: Rust's ordered map, as the locale \<open>ordered_map\<close> and its interpretation.
  \<^item> \<open>Packets\<close>, \<open>Errors\<close>, \<open>Configuration\<close>, \<open>Platform\<close>: the packets and the packet crate's functions the
    broker calls (a parameter), \<open>error.rs\<close>, \<open>config.rs\<close> with the Cargo features, and the environment of a
    task together with \<open>bigquery.rs\<close>.
  \<^item> \<open>Settings\<close>: the code derived to deserialise the configuration, by features, and the tests of \<open>config.rs\<close>; reading
    TOML is the locale \<open>toml_reader\<close>, interpreted by a small reader.
  \<^item> \<open>Broadcast\<close>: the contract of \<open>tokio::sync::broadcast\<close> as the locale \<open>broadcast_channel\<close>, and a reference
    implementation with per-receiver cursors and bounded capacity that satisfies it.
  \<^item> \<open>Topics\<close>: \<open>topics.rs\<close>. The operations refine an abstract publish/subscribe store.
  \<^item> \<open>Client\<close>: the packet handlers of \<open>tcp_handling.rs\<close>. What each answers and changes, and that a
    connection never touches the receivers of the others (\<open>behaves\<close>).
  \<^item> \<open>Connection\<close>: \<open>ReceiverFuture\<close> and the loop \<open>handle_raw_tcp_stream\<close>: delivery to the client, order,
    retransmission, keep-alive and will.
  \<^item> \<open>Redis\<close>: \<open>redis_client.rs\<close>: synchronisation between brokers, stored retained messages, retries.
  \<^item> \<open>Broker\<close>: \<open>main.rs\<close>: \<open>main\<close> and starting up, accepting connections, and the system of all tasks as a
    step relation with its invariant; here a \<open>select!\<close> branch runs in one step.
  \<^item> \<open>Programs\<close>: programs as trees of atomic steps with acquiring and releasing a mutex, running them alone, what each of their
    steps does or leads to, and the locale \<open>rely_guarantee\<close> with the rules by which a program meets a rely and a guarantee.
  \<^item> \<open>Interleaving\<close>: every handler and every branch of \<open>tcp_handling.rs\<close> as such a program, split at its locks
    and suspension points. Run alone, the programs are the handlers; and each meets the rely and
    guarantee of a connection.
  \<^item> \<open>Outgoing\<close>: what a connection may write to its stream and call outside, step by step of its programs.
  \<^item> \<open>Concurrency\<close>: the system in which all tasks interleave at that granularity: its invariant, freedom from
    deadlock, what the lock excludes, what others may do to the queues of a client, and that the steps of
    \<open>Broker\<close> are among its executions.
  \<^item> \<open>Channels\<close>: that system with the bounded channels from the connections and from the receiving task to the
    Redis task, and with whatever others publish on Redis: what passes through them, and that channels and lock
    together cannot deadlock.
  \<^item> \<open>Outage\<close>: what becomes of such a broker from the moment Redis cannot be reached, or once a malformed message has
    ended its Redis task.
  \<^item> \<open>Cluster\<close>: several such brokers on one Redis server: the order of messages, delivery from one
    broker to the clients of all others, messages that are lost, and retained messages that differ between brokers.
  \<^item> \<open>Firmware\<close>: the motion sensor of \<open>examples/esp32-client\<close>: how \<open>main\<close> brings it up, its tasks as a state machine over its loop heads, what its
    runs do with the sensor and the socket, the packet of \<open>examples/package_generator.rs\<close>, and its interplay with the broker.
  \<^item> \<open>Demo_Client\<close>: \<open>examples/demo_client.rs\<close>.
  \<^item> \<open>Scenarios\<close>: the tests of \<open>tcp_handling.rs\<close> and \<open>topics.rs\<close> as scenarios on the model, shown to hold for
    every library that meets the contracts (locale \<open>test_packets\<close> for the packet crate).
  \<^item> This theory: what the settings of a started broker hold, and a publication from the stream of one broker's client to the stream of another's.

  \<^bold>\<open>How code corresponds to definitions.\<close> A struct is a record and an enum a datatype with the source's
  constructors; a method is a definition of the same name (prefixed where the name is taken, as in
  \<open>topics_publish\<close> for \<open>Topics::publish\<close> and \<open>redis_publish\<close> for \<open>RedisClient::publish\<close>). \<open>?\<close>, \<open>unwrap\<close>,
  \<open>expect\<close>, overflowing arithmetic and \<open>Vec::remove\<close> are branches of the definitions. External calls are
  entries of a log, and their answers are functions of the log so far, so that theorems hold for every
  behaviour of the network, of Redis and of BigQuery. The receivers that Rust drops implicitly are dropped
  explicitly, because the number of receivers of a channel is observable.

  \<^bold>\<open>Parameters and their contracts.\<close> \<open>tokio\<close>'s broadcast channels (\<open>broadcast_channel\<close>), the packet builder
  (\<open>publish_builder\<close>), TOML (\<open>toml_reader\<close>), the Redis commands (\<open>redis_service\<close>; in \<open>Cluster\<close> the documented effect of \<open>PUBLISH\<close> and
  \<open>SET\<close> on subscriptions and keys, with errors at any call) and the JSON round trip (\<open>json_ok\<close>) are
  hypotheses of the theorems that need them. The locales are interpreted; witnesses instantiate all
  of them. Decoding and encoding of packets is arbitrary.

  \<^bold>\<open>Bounds and loops.\<close> The channel capacity is the 1024 of the source, the read buffer has 1024 bytes, counters
  and timeouts keep their widths (32 and 16 bits) with both the checked and the wrapping arithmetic.
  The loop of a connection is a run over an arbitrary list of events. The retry loop towards Redis may
  not end; it is a partial function whose value \<open>None\<close> is not returning, with a theorem for each case. The \<open>mpsc\<close>
  channels of the Redis task hold the 200 packets and the 1024 messages of the source.
  No fuel is used.

  \<^bold>\<open>Granularity.\<close> \<open>Broker\<close> takes a completed \<open>select!\<close> branch as one step. \<open>Concurrency\<close> takes one operation on the
  topic store, on a receiver, on the client's own fields or on the outside as one step, with the lock
  acquired and released where the source does; a branch that fails drops its receivers one by one. In \<open>Channels\<close>
  the Redis task takes an event in one step and finishes it in another, which may have to wait for a connection to
  Redis or for the lock, and the receiving task steps from call to call; a send on a full channel is a step that cannot be taken,
  and its answer is an error exactly when the Redis task has ended. The
  \<open>PUBLISH\<close> and the \<open>SET\<close> of one packet are one step, as is a round of the accept loop. A write that never
  completes is a connection that does not step. Time is not modelled: timers are events that may happen whenever
  their branch is enabled.

  \<^bold>\<open>Not modelled.\<close> The packet codec, TLS, TOML and JSON (other crates), logging and tracing, the
  network task of the firmware (one call into the network stack), the fuzz targets and the deployment files.

  \<^bold>\<open>Plan.\<close> Next: brokers that join a running cluster or restart in it, with the retained messages they load, and
  the \<open>PUBLISH\<close> and the \<open>SET\<close> of a packet as steps of their own.
\<close>

section \<open>Starting with the derived configuration\<close>

text \<open>
  A broker that has started has a Redis client exactly when it was built with the feature, and settings with the section
  that \<open>log_in_bq\<close> needs exactly when it was built to log: the cases of \<open>startup\<close> and \<open>log_publish\<close> for a missing section do not arise.
\<close>

lemma started_broker_configured:
  assumes "main_start dbg (derived_config build L (feat P)) d P J E be rng w l = Some (Ok (c, certs, key), s)"
  shows "(c \<noteq> None \<longleftrightarrow> feat_redis (feat P)) \<and>
    (\<exists>cfg. SETTINGS dbg (derived_config build L (feat P)) = Ok cfg \<and> (cfg_bigquery cfg \<noteq> None \<longleftrightarrow> feat_bq_logging (feat P)))"
proof -
  obtain cfg where cfg: "SETTINGS dbg (derived_config build L (feat P)) = Ok cfg"
    and run: "startup (P\<lparr>settings := cfg\<rparr>) J E be rng w l = Some (Ok (c, certs, key), s)"
    using assms by (auto simp: main_start_def Let_def split: outcome.splits)
  note F = settings_match_features [OF cfg]
  from run F(2) have "c \<noteq> None \<longleftrightarrow> feat_redis (feat P)"
    by (cases "cfg_redis cfg") (auto simp: startup_def Let_def split: outcome.splits option.splits prod.splits)
  with cfg F(1) show ?thesis by blast
qed

section \<open>Two brokers\<close>

lemma publish_hands_to_redis:
  assumes "feat_redis (feat P)" "bt_wf (topics (shared s))"
    "env_mpsc_send (env P) (iolog s) (redis_sender (client s)) p"
  shows "MpscSend (redis_sender (client s)) p True \<in> set (iolog (snd (handle_publish_packet P p s)))"
proof -
  let ?m = "MpscSend (redis_sender (client s)) p True"
  let ?s = "s\<lparr>shared := snd (topics_publish (bc P) p (shared s)), iolog := iolog s @ [?m]\<rparr>"
  let ?rest = "then_io
       (case p_qos p of
          AtMostOnce \<Rightarrow> ret_io ()
        | AtLeastOnce \<Rightarrow>
            (case p_packet_id p of
               None \<Rightarrow> panic_io UnwrapNone
             | Some pid \<Rightarrow> write_to_stream P (PublishAck (puback_for pid PublishSuccess)))
        | ExactlyOnce \<Rightarrow> ret_io ())
       (if feat_bq_logging (feat P) then log_publish P p else ret_io ())"
  have eq: "handle_publish_packet P p s = ?rest ?s"
    using assms by (simp add: handle_publish_eq send_to_redis_def)
  have w: "tracks (\<lambda>s s'. ?m \<in> set (iolog s) \<longrightarrow> ?m \<in> set (iolog s')) (write_to_stream P y)" for y
    by (rule tracksI) (simp add: write_to_stream_def Let_def split: option.splits)
  have l: "tracks (\<lambda>s s'. ?m \<in> set (iolog s) \<longrightarrow> ?m \<in> set (iolog s')) (log_publish P p)"
  proof (rule tracksI)
    fix k :: "('a, 'b, 'c, 'd) conn"
    have "set l \<subseteq> set (snd (log_in_bq (env P) cfg n x l))" for cfg n x l
      using log_in_bq_appends [of "env P" cfg n x l] by auto
    then show "?m \<in> set (iolog k) \<longrightarrow> ?m \<in> set (iolog (snd (log_publish P p k)))"
      by (auto simp: log_publish_def on_iolog_def zoom_io_def split: option.splits prod.splits) (metis snd_conv subsetD)
  qed
  have "tracks (\<lambda>s s'. ?m \<in> set (iolog s) \<longrightarrow> ?m \<in> set (iolog s')) ?rest"
    by (auto intro!: keep_inv.rules w l split: qos.splits option.splits)
  then show ?thesis by (simp add: eq tracks_def)
qed

text \<open>
  C9. From a client of one broker to a client of another: a publication handled by a connection of
  broker A is handed to A's Redis task; that task puts a text on the channel \<open>sync\<close>; A ignores the text
  when it comes back; broker B, on receiving it, publishes a packet with the same topic, payload and
  retain flag; and a client of B that is subscribed to the topic and has nothing else to read writes
  that packet to its stream in its next receiving iteration.
\<close>

theorem cross_broker_delivery:
  assumes A: "feat_redis (feat PA)" "bt_wf (topics (shared s))"
      "env_mpsc_send (env PA) (iolog s) (redis_sender (client s)) p"
    and J: "json_ok J" and up: "get_connection E (rlog ra) = Some l" and id: "rc_sender_id ca \<noteq> rc_sender_id cb"
    and B: "broadcast_channel (bc PB) V" "publish_builder (build_publish (mqtt PB))"
    and q: "build_publish (mqtt PB) (topic_name (p_topic p)) (p_payload p) (Some (p_retain p)) = Inr q"
    and t: "conn_inv V t" "bt_get (topic_name (p_topic p)) (receivers (client t)) = Some rx"
      "nothing_unread V t" "missed V (chans (shared t)) rx = 0"
    and w: "writes_ok PB" and d: "will_delay PB = Some delay"
  shows "MpscSend (redis_sender (client s)) p True \<in> set (iolog (snd (handle_publish_packet PA p s))) \<and>
    (\<exists>x r ra' rb t'. redis_publish J E ca p ra = Some (Ok (), ra') \<and>
       Query [''PUBLISH'', ''sync'', x] r \<in> set (rlog ra') \<and>
       handle_message PA J ca x ra' = (Ok (), ra') \<and>
       handle_message PB J cb x \<lparr>rs_shared = shared t, rlog = lb\<rparr> = (Ok (), rb) \<and>
       serve PB addr ReceiverReady (t\<lparr>shared := rs_shared rb\<rparr>) = (Ok (), t') \<and>
       iolog t' = iolog t @ [written PB (PublishP q)] \<and>
       topic_name (p_topic q) = topic_name (p_topic p) \<and> p_payload q = p_payload p \<and> p_retain q = p_retain p)"
proof (rule conjI [OF publish_hands_to_redis [OF A]])
  note b = publish_builder.build_topic [OF B(2) q] publish_builder.build_payload [OF B(2) q]
    publish_builder.build_retain [OF B(2) q]
  from redis_publish_eq [OF J up, of ca p] obtain v r ra' where
    v: "from_str J (value_to_string J v) = Inr (redis_message_of ca p)"
    and run: "redis_publish J E ca p ra = Some (Ok (), ra')"
      "Query [''PUBLISH'', ''sync'', value_to_string J v] r \<in> set (rlog ra')" by force
  define rb where "rb = \<lparr>rs_shared = snd (topics_publish (bc PB) q (shared t)), rlog = lb\<rparr>"
  have wf: "bt_wf (topics (shared t))" using t(1) shared_invD(1) by (auto simp: conn_inv_def)
  have recv: "handle_message PB J cb (value_to_string J v) \<lparr>rs_shared = shared t, rlog = lb\<rparr> = (Ok (), rb)"
    using handle_message_other [OF v id q, of "\<lparr>rs_shared = shared t, rlog = lb\<rparr>"] wf by (simp add: rb_def)
  have sub: "bt_get (topic_name (p_topic q)) (receivers (client t)) = Some rx" using t(2) b(1) by simp
  from receive_after_publish [OF B(1) refl t(1) sub t(3,4) w d, where addr = addr] obtain t' where
    "serve PB addr ReceiverReady (t\<lparr>shared := rs_shared rb\<rparr>) = (Ok (), t')"
    "iolog t' = iolog t @ [written PB (PublishP q)]" by (auto simp: rb_def)
  then show "\<exists>x r ra' rb t'. redis_publish J E ca p ra = Some (Ok (), ra') \<and>
       Query [''PUBLISH'', ''sync'', x] r \<in> set (rlog ra') \<and>
       handle_message PA J ca x ra' = (Ok (), ra') \<and>
       handle_message PB J cb x \<lparr>rs_shared = shared t, rlog = lb\<rparr> = (Ok (), rb) \<and>
       serve PB addr ReceiverReady (t\<lparr>shared := rs_shared rb\<rparr>) = (Ok (), t') \<and>
       iolog t' = iolog t @ [written PB (PublishP q)] \<and>
       topic_name (p_topic q) = topic_name (p_topic p) \<and> p_payload q = p_payload p \<and> p_retain q = p_retain p"
    using run recv handle_message_own [OF v, of PA ra'] b
    by (intro exI [of _ "value_to_string J v"] exI [of _ r] exI [of _ ra'] exI [of _ rb] exI [of _ t']) simp
qed

theorem cross_broker_delivery_witness:
  "\<exists>x rb t'. handle_message (demo_platform default_features) ref_json (demo_broker ''B'') x
       \<lparr>rs_shared = shared demo_sub, rlog = []\<rparr> = (Ok (), rb) \<and>
     serve (demo_platform default_features) ''peer'' ReceiverReady (demo_sub\<lparr>shared := rs_shared rb\<rparr>) = (Ok (), t') \<and>
     iolog t' = [WriteAll [0x30] None]"
proof -
  let ?PA = "demo_platform (default_features\<lparr>feat_redis := True\<rparr>)" and ?PB = "demo_platform default_features"
  let ?p = "plain_publish ''a'' [7] True"
  have A: "feat_redis (feat ?PA)" "bt_wf (topics (shared demo_conn))"
    "env_mpsc_send (env ?PA) (iolog demo_conn) (redis_sender (client demo_conn)) ?p"
    using demo_wf by (simp_all add: demo_env_def)
  have id: "rc_sender_id (demo_broker ''A'') \<noteq> rc_sender_id (demo_broker ''B'')" by (simp add: demo_broker_def)
  have q: "build_publish (mqtt ?PB) (topic_name (p_topic ?p)) (p_payload ?p) (Some (p_retain ?p)) = Inr ?p"
    by (simp add: demo_lib_def plain_builder_def)
  have sub: "bt_get (topic_name (p_topic ?p)) (receivers (client demo_sub)) = Some 0" by (simp add: demo_sub_def)
  have up: "get_connection ref_redis (rlog demo_redis) = Some [GetConnection None]"
    by (simp add: ref_up demo_redis_def)
  from cross_broker_delivery [OF A ref_json_ok up id demo_bc demo_builder q demo_sub_inv sub demo_idle
      demo_writes_ok demo_delay, where addr = "''peer''" and lb = "[]"]
  show ?thesis by (auto simp: demo_lib_def demo_sub_def demo_conn_def)
qed

end
